(* ===== verification/Prelude.thy ===== *)
theory Prelude
  imports Main
begin

text \<open>
  Shared vocabulary of the development: propositional clauses as the solver back ends receive
  them (a clause is a list of non-zero integers, a negative one is a negated variable), the
  \<open>size_t\<close> arithmetic of the C++ code, \<open>std::find\<close> on a vector, and state threading through the
  nested loops that hand out variable numbers.
\<close>

named_theorems cnf_simps
named_theorems grid_simps
named_theorems frame_simps

section \<open>Clauses and assignments\<close>

type_synonym clause = "int list"
type_synonym cnf = "int list list"
type_synonym assignment = "int \<Rightarrow> bool"

definition lit_true :: "assignment \<Rightarrow> int \<Rightarrow> bool" where
  "lit_true I l = (if 0 < l then I l else \<not> I (- l))"

definition clause_true :: "assignment \<Rightarrow> clause \<Rightarrow> bool" where
  "clause_true I c = (\<exists>l \<in> set c. lit_true I l)"

definition cnf_true :: "assignment \<Rightarrow> cnf \<Rightarrow> bool" where
  "cnf_true I F = (\<forall>c \<in> set F. clause_true I c)"

definition clause_vars :: "clause \<Rightarrow> int set" where
  "clause_vars c = abs ` set c"

definition cnf_vars :: "cnf \<Rightarrow> int set" where
  "cnf_vars F = (\<Union>c \<in> set F. clause_vars c)"

lemma lit_true_pos [cnf_simps]: "0 < l \<Longrightarrow> lit_true I l = I l"
  by (simp add: lit_true_def)

lemma lit_true_neg [cnf_simps]: "0 < l \<Longrightarrow> lit_true I (- l) = (\<not> I l)"
  by (simp add: lit_true_def)

lemma clause_true_Nil [simp]: "\<not> clause_true I []"
  by (simp add: clause_true_def)

lemma clause_true_Cons [simp]: "clause_true I (l # c) = (lit_true I l \<or> clause_true I c)"
  by (simp add: clause_true_def)

lemma clause_true_append [simp]: "clause_true I (c @ d) = (clause_true I c \<or> clause_true I d)"
  by (auto simp: clause_true_def)

lemma cnf_true_Nil [simp]: "cnf_true I []"
  by (simp add: cnf_true_def)

lemma cnf_true_Cons [simp]: "cnf_true I (c # F) = (clause_true I c \<and> cnf_true I F)"
  by (simp add: cnf_true_def)

lemma cnf_true_append [simp]: "cnf_true I (F @ G) = (cnf_true I F \<and> cnf_true I G)"
  by (auto simp: cnf_true_def)

lemma cnf_true_concat: "cnf_true I (concat Fs) = (\<forall>F \<in> set Fs. cnf_true I F)"
  by (auto simp: cnf_true_def)

lemma cnf_vars_append [simp]: "cnf_vars (F @ G) = cnf_vars F \<union> cnf_vars G"
  by (auto simp: cnf_vars_def)

lemma cnf_vars_Nil [simp]: "cnf_vars [] = {}"
  by (simp add: cnf_vars_def)

lemma cnf_vars_Cons [simp]: "cnf_vars (c # F) = clause_vars c \<union> cnf_vars F"
  by (simp add: cnf_vars_def)

lemma cnf_vars_concat: "cnf_vars (concat Fs) = (\<Union>F \<in> set Fs. cnf_vars F)"
  by (auto simp: cnf_vars_def)

text \<open>The truth of a formula depends on the variables it mentions only.\<close>

lemma lit_true_cong: "I \<bar>l\<bar> = J \<bar>l\<bar> \<Longrightarrow> lit_true I l = lit_true J l"
  by (auto simp: lit_true_def)

lemma clause_true_cong:
  assumes "\<And>x. x \<in> clause_vars c \<Longrightarrow> I x = J x"
  shows "clause_true I c = clause_true J c"
proof -
  have "lit_true I l = lit_true J l" if "l \<in> set c" for l
    using that assms by (intro lit_true_cong) (simp add: clause_vars_def)
  then show ?thesis by (simp add: clause_true_def)
qed

lemma cnf_true_cong:
  assumes "\<And>x. x \<in> cnf_vars F \<Longrightarrow> I x = J x"
  shows "cnf_true I F = cnf_true J F"
proof -
  have "clause_true I c = clause_true J c" if "c \<in> set F" for c
    using that assms by (intro clause_true_cong) (auto simp: cnf_vars_def)
  then show ?thesis by (simp add: cnf_true_def)
qed

section \<open>C++ vocabulary\<close>

text \<open>
  \<open>size_t\<close> is an unsigned 64-bit integer: converting an \<open>int\<close> reduces it modulo \<open>2 ^ 64\<close>, and
  \<open>n - 1\<close> wraps at zero.
\<close>

definition size_t_of :: "int \<Rightarrow> nat" where
  "size_t_of i = nat (i mod 2 ^ 64)"

definition size_dec :: "nat \<Rightarrow> nat" where
  "size_dec n = (if n = 0 then 2 ^ 64 - 1 else n - 1)"

lemma size_t_of_nonneg: "0 \<le> i \<Longrightarrow> i < 2 ^ 64 \<Longrightarrow> size_t_of i = nat i"
  by (simp add: size_t_of_def)

lemma size_dec_pos [simp]: "0 < n \<Longrightarrow> size_dec n = n - 1"
  by (simp add: size_dec_def)

text \<open>\<open>find(v.begin(), v.end(), t) - v.begin()\<close>: the first index holding \<open>t\<close>, else the length.\<close>

fun find_index :: "'a \<Rightarrow> 'a list \<Rightarrow> nat" where
  "find_index t [] = 0"
| "find_index t (u # us) = (if u = t then 0 else Suc (find_index t us))"

lemma find_index_le: "find_index t us \<le> length us"
  by (induction us) auto

lemma find_index_less: "find_index t us < length us \<longleftrightarrow> t \<in> set us"
  by (induction us) auto

lemma find_index_nth: "t \<in> set us \<Longrightarrow> us ! find_index t us = t"
  by (induction us) auto

lemma find_index_found:
  "find_index t us \<noteq> length us \<and> us ! find_index t us = t \<longleftrightarrow> t \<in> set us"
  using find_index_le find_index_less find_index_nth by (metis nat_less_le)

lemma find_index_missing:
  "find_index t us = length us \<or> us ! find_index t us \<noteq> t \<longleftrightarrow> t \<notin> set us"
  using find_index_found by metis

lemma find_index_distinct: "distinct us \<Longrightarrow> i < length us \<Longrightarrow> find_index (us ! i) us = i"
  by (metis distinct_conv_nth find_index_less find_index_nth nth_mem)

section \<open>Threading a counter through a loop\<close>

text \<open>
  The loops that create variables carry the next free variable number \<open>lit\<close> through the body and
  fill one array cell per iteration: \<open>thread\<close> returns the filled array and the final counter.
\<close>

fun thread :: "('k \<Rightarrow> 's \<Rightarrow> 'b \<times> 's) \<Rightarrow> 'k list \<Rightarrow> 's \<Rightarrow> 'b list \<times> 's" where
  "thread f [] s = ([], s)"
| "thread f (k # ks) s =
     (let (b, s1) = f k s; (bs, s2) = thread f ks s1 in (b # bs, s2))"

lemma fst_thread_Cons: "fst (thread f (k # ks) s) = fst (f k s) # fst (thread f ks (snd (f k s)))"
  by (simp add: case_prod_beta Let_def)

lemma snd_thread_Cons: "snd (thread f (k # ks) s) = snd (thread f ks (snd (f k s)))"
  by (simp add: case_prod_beta Let_def)

declare thread.simps(2) [simp del]

lemma length_thread [simp]: "length (fst (thread f ks s)) = length ks"
  by (induction ks arbitrary: s) (auto simp: fst_thread_Cons)

text \<open>
  What a cell holds beside its variable numbers does not depend on the counter: \<open>thread_nth_by\<close>
  transfers a fact about the body to every cell.
\<close>

lemma thread_nth_by:
  assumes "\<And>k s. P k (fst (f k s))" and "i < length ks"
  shows "P (ks ! i) (fst (thread f ks s) ! i)"
  using assms(2)
proof (induction ks arbitrary: s i)
  case (Cons k ks)
  then show ?case by (cases i) (auto simp: fst_thread_Cons assms(1))
qed simp

text \<open>
  An allocator hands out variable numbers: called with the next free number \<open>l\<close> it returns a
  block and the new next free number; the block's variables lie between the two. Running an
  allocator over a list of keys is again an allocator, and different keys get disjoint blocks.
\<close>

locale allocator =
  fixes alloc :: "'k \<Rightarrow> int \<Rightarrow> 'b \<times> int"
    and block_vars :: "'b \<Rightarrow> int set"
  assumes alloc_mono: "1 \<le> l \<Longrightarrow> l \<le> snd (alloc k l)"
    and alloc_vars: "1 \<le> l \<Longrightarrow> block_vars (fst (alloc k l)) \<subseteq> {l ..< snd (alloc k l)}"
begin

lemma thread_mono: "1 \<le> l \<Longrightarrow> l \<le> snd (thread alloc ks l)"
proof (induction ks arbitrary: l)
  case (Cons k ks)
  have "l \<le> snd (alloc k l)" using Cons.prems by (rule alloc_mono)
  moreover have "snd (alloc k l) \<le> snd (thread alloc ks (snd (alloc k l)))"
    using Cons.prems calculation by (intro Cons.IH) simp
  ultimately show ?case by (simp add: snd_thread_Cons)
qed simp

lemma thread_vars:
  "1 \<le> l \<Longrightarrow> (\<Union>b \<in> set (fst (thread alloc ks l)). block_vars b) \<subseteq> {l ..< snd (thread alloc ks l)}"
proof (induction ks arbitrary: l)
  case (Cons k ks)
  let ?l = "snd (alloc k l)"
  have le: "l \<le> ?l" using Cons.prems by (rule alloc_mono)
  then have "?l \<le> snd (thread alloc ks ?l)" using Cons.prems by (intro thread_mono) simp
  moreover have "(\<Union>b \<in> set (fst (thread alloc ks ?l)). block_vars b) \<subseteq> {?l ..< snd (thread alloc ks ?l)}"
    using le Cons.prems by (intro Cons.IH) simp
  moreover have "block_vars (fst (alloc k l)) \<subseteq> {l ..< ?l}"
    using Cons.prems by (rule alloc_vars)
  ultimately have "block_vars (fst (alloc k l)) \<union>
      (\<Union>b \<in> set (fst (thread alloc ks ?l)). block_vars b) \<subseteq> {l ..< snd (thread alloc ks ?l)}"
    using le by fastforce
  then show ?case by (simp add: fst_thread_Cons snd_thread_Cons)
qed simp

text \<open>Every cell comes from one call of the allocator, on a counter in range.\<close>

lemma thread_nth:
  "1 \<le> l \<Longrightarrow> i < length ks \<Longrightarrow>
   \<exists>m. l \<le> m \<and> fst (thread alloc ks l) ! i = fst (alloc (ks ! i) m) \<and>
       snd (alloc (ks ! i) m) \<le> snd (thread alloc ks l)"
proof (induction ks arbitrary: l i)
  case (Cons k ks)
  let ?l = "snd (alloc k l)"
  have le: "l \<le> ?l" using Cons.prems(1) by (rule alloc_mono)
  show ?case
  proof (cases i)
    case 0
    then show ?thesis
      using le Cons.prems(1) thread_mono [of ?l ks]
      by (auto simp: fst_thread_Cons snd_thread_Cons)
  next
    case (Suc j)
    then obtain m where "?l \<le> m" "fst (thread alloc ks ?l) ! j = fst (alloc (ks ! j) m)"
      "snd (alloc (ks ! j) m) \<le> snd (thread alloc ks ?l)"
      using Cons.IH [of ?l j] Cons.prems le by auto
    then show ?thesis
      using Suc le by (auto simp: fst_thread_Cons snd_thread_Cons intro!: exI [of _ m])
  qed
qed simp

lemma thread_disjoint:
  "1 \<le> l \<Longrightarrow> i < j \<Longrightarrow> j < length ks \<Longrightarrow>
   block_vars (fst (thread alloc ks l) ! i) \<inter> block_vars (fst (thread alloc ks l) ! j) = {}"
proof (induction ks arbitrary: l i j)
  case (Cons k ks)
  let ?l = "snd (alloc k l)"
  have ge: "1 \<le> ?l" using alloc_mono [OF Cons.prems(1), of k] Cons.prems(1) by simp
  show ?case
  proof (cases i)
    case 0
    from Cons.prems 0 obtain j' where j': "j = Suc j'" "j' < length ks" by (cases j) auto
    have "fst (thread alloc ks ?l) ! j' \<in> set (fst (thread alloc ks ?l))"
      using j' by simp
    then have "block_vars (fst (thread alloc ks ?l) ! j') \<subseteq> {?l ..< snd (thread alloc ks ?l)}"
      using thread_vars [OF ge, of ks] by blast
    moreover have "{l ..< ?l} \<inter> {?l ..< snd (thread alloc ks ?l)} = {}" by auto
    ultimately have "block_vars (fst (alloc k l)) \<inter> block_vars (fst (thread alloc ks ?l) ! j') = {}"
      using alloc_vars [OF Cons.prems(1), of k] by blast
    then show ?thesis using 0 j' by (simp add: fst_thread_Cons)
  next
    case (Suc i')
    with Cons.prems obtain j' where "j = Suc j'" "i' < j'" "j' < length ks" by (cases j) auto
    with Suc Cons.IH [OF ge] show ?thesis by (simp add: fst_thread_Cons)
  qed
qed simp

lemma thread_disjoint_neq:
  "1 \<le> l \<Longrightarrow> i \<noteq> j \<Longrightarrow> i < length ks \<Longrightarrow> j < length ks \<Longrightarrow>
   block_vars (fst (thread alloc ks l) ! i) \<inter> block_vars (fst (thread alloc ks l) ! j) = {}"
  using thread_disjoint [of l i j ks] thread_disjoint [of l j i ks] by (metis Int_commute nat_neq_iff)

end

end
