(* ===== verification/Motion.thy ===== *)
theory Motion
  imports Prelude
begin

text \<open>
  Walks on a motion graph and distance tables. The interface \<open>motion_graph\<close> states what the
  clients (breadth-first search, the encodings, the plan checks) rely on when they ask for
  neighbours: every vertex has the waiting loop in direction 0, a neighbour is a vertex, and the
  opposite direction leads back.
\<close>

section \<open>Distances\<close>

text \<open>
  \<open>is_dist R u v k\<close>: the convention of the C++ tables, where \<open>-1\<close> marks an unreachable vertex.
\<close>

definition is_dist :: "('a \<times> 'a) set \<Rightarrow> 'a \<Rightarrow> 'a \<Rightarrow> int \<Rightarrow> bool" where
  "is_dist R u v k \<longleftrightarrow>
     (k = -1 \<and> (u, v) \<notin> R\<^sup>*) \<or>
     (\<exists>n. k = int n \<and> (u, v) \<in> R ^^ n \<and> (\<forall>m. (u, v) \<in> R ^^ m \<longrightarrow> n \<le> m))"

lemma is_dist_unique: "is_dist R u v k \<Longrightarrow> is_dist R u v k' \<Longrightarrow> k = k'"
  unfolding is_dist_def by (metis le_antisym relpow_imp_rtrancl)

lemma is_dist_reach: "is_dist R u v k \<Longrightarrow> (u, v) \<in> R\<^sup>* \<longleftrightarrow> 0 \<le> k"
  unfolding is_dist_def by (auto simp: relpow_imp_rtrancl)

lemma is_dist_walk: "is_dist R u v k \<Longrightarrow> 0 \<le> k \<Longrightarrow> (u, v) \<in> R ^^ nat k"
  unfolding is_dist_def by auto

lemma is_dist_le: "is_dist R u v k \<Longrightarrow> (u, v) \<in> R ^^ n \<Longrightarrow> 0 \<le> k \<and> k \<le> int n"
  unfolding is_dist_def by (auto dest: relpow_imp_rtrancl)

lemma is_dist_ge: "is_dist R u v k \<Longrightarrow> - 1 \<le> k"
  unfolding is_dist_def by auto

lemma is_dist_self: "is_dist R u u k \<Longrightarrow> k = 0"
  using is_dist_le [of R u u k 0] by simp

lemma is_dist_zero: "is_dist R u v 0 \<Longrightarrow> v = u"
  using is_dist_walk [of R u v 0] by simp

text \<open>One step changes the distance from the source by at most one.\<close>

lemma is_dist_step:
  assumes "is_dist R s u k" "is_dist R s w k'" "0 \<le> k" "(u, w) \<in> R"
  shows "0 \<le> k' \<and> k' \<le> k + 1"
proof -
  have "(s, w) \<in> R ^^ Suc (nat k)"
    using is_dist_walk [OF assms(1,3)] assms(4) by (rule relpow_Suc_I)
  from is_dist_le [OF assms(2) this] assms(3) show ?thesis by simp
qed

text \<open>A vertex at positive distance has a predecessor one step closer to the source.\<close>

lemma is_dist_pred:
  assumes "is_dist R s v k" "0 < k"
  shows "\<exists>u. (u, v) \<in> R \<and> is_dist R s u (k - 1)"
proof -
  obtain n where n: "k = int n" "(s, v) \<in> R ^^ n" "\<And>m. (s, v) \<in> R ^^ m \<Longrightarrow> n \<le> m"
    using assms unfolding is_dist_def by auto
  with assms(2) obtain m where m: "n = Suc m" by (cases n) auto
  with n(2) obtain u where u: "(s, u) \<in> R ^^ m" "(u, v) \<in> R" by (auto elim: relpow_Suc_E)
  have "m \<le> j" if "(s, u) \<in> R ^^ j" for j
    using n(3) [OF relpow_Suc_I [OF that u(2)]] m by simp
  with u m n(1) show ?thesis unfolding is_dist_def by auto
qed

text \<open>On a symmetric relation the predecessor is a successor, and walks can be reversed.\<close>

lemma sym_relpow: "sym R \<Longrightarrow> (u, v) \<in> R ^^ n \<Longrightarrow> (v, u) \<in> R ^^ n"
proof (induction n arbitrary: v)
  case (Suc n)
  from Suc.prems(2) obtain w where "(u, w) \<in> R ^^ n" "(w, v) \<in> R" by (auto elim: relpow_Suc_E)
  with Suc show ?case by (meson relpow_Suc_I2 symD)
qed simp

section \<open>Motion graphs\<close>

definition move_rel :: "(nat \<Rightarrow> nat \<Rightarrow> bool) \<Rightarrow> (nat \<Rightarrow> nat \<Rightarrow> int) \<Rightarrow> nat \<Rightarrow> (nat \<times> nat) set" where
  "move_rel has get n = {(u, w). u < n \<and> (\<exists>d \<in> {1..<5}. has u d \<and> get u d = int w)}"

locale motion_graph =
  fixes invar :: "'g \<Rightarrow> bool"
    and nv :: "'g \<Rightarrow> nat"
    and has :: "'g \<Rightarrow> nat \<Rightarrow> nat \<Rightarrow> bool"
    and get :: "'g \<Rightarrow> nat \<Rightarrow> nat \<Rightarrow> int"
    and opp :: "nat \<Rightarrow> int"
  assumes wait: "has g v 0 \<and> get g v 0 = int v"
    and get_vertex: "invar g \<Longrightarrow> v < nv g \<Longrightarrow> d < 5 \<Longrightarrow> has g v d \<Longrightarrow> \<exists>u < nv g. get g v d = int u"
    and opp_dir: "d < 5 \<Longrightarrow> 0 \<le> opp d \<and> opp d < 5 \<and> (opp d = 0 \<longleftrightarrow> d = 0)"
    and opp_back: "invar g \<Longrightarrow> v < nv g \<Longrightarrow> d < 5 \<Longrightarrow> has g v d \<Longrightarrow>
      has g (nat (get g v d)) (nat (opp d)) \<and> get g (nat (get g v d)) (nat (opp d)) = int v"
begin

lemma move_range: "invar g \<Longrightarrow> (u, w) \<in> move_rel (has g) (get g) (nv g) \<Longrightarrow> u < nv g \<and> w < nv g"
  using get_vertex [of g u] unfolding move_rel_def by fastforce

lemma move_sym: "invar g \<Longrightarrow> sym (move_rel (has g) (get g) (nv g))"
proof (rule symI)
  fix u w assume inv: "invar g" and uw: "(u, w) \<in> move_rel (has g) (get g) (nv g)"
  then obtain d where d: "u < nv g" "1 \<le> d" "d < 5" "has g u d" "get g u d = int w"
    by (auto simp: move_rel_def)
  have "has g w (nat (opp d)) \<and> get g w (nat (opp d)) = int u"
    using opp_back [OF inv d(1,3,4)] d(5) by simp
  moreover have "1 \<le> nat (opp d)" "nat (opp d) < 5" using opp_dir [OF d(3)] d(2) by auto
  ultimately show "(w, u) \<in> move_rel (has g) (get g) (nv g)"
    using move_range [OF inv uw] unfolding move_rel_def by fastforce
qed

lemma walk_range:
  assumes "invar g" "u < nv g" "(u, w) \<in> move_rel (has g) (get g) (nv g) ^^ n"
  shows "w < nv g"
  using assms by (cases n) (auto elim!: relpow_Suc_E dest: move_range)

text \<open>Waiting or moving: the two kinds of step an agent can make.\<close>

lemma get_step:
  assumes "invar g" "v < nv g" "d < 5" "has g v d" "get g v d = int u"
  shows "u = v \<or> (v, u) \<in> move_rel (has g) (get g) (nv g)"
proof (cases "d = 0")
  case True
  then show ?thesis using wait [of g v] assms(5) by simp
next
  case False
  then have "d \<in> {1..<5}" using assms(3) by simp
  with assms show ?thesis unfolding move_rel_def by blast
qed

lemma step_get:
  assumes "v < nv g" "u = v \<or> (v, u) \<in> move_rel (has g) (get g) (nv g)"
  shows "\<exists>d < 5. has g v d \<and> get g v d = int u"
proof (cases "u = v")
  case True
  then have "0 < (5::nat) \<and> has g v 0 \<and> get g v 0 = int u" using wait [of g v] by simp
  then show ?thesis by blast
next
  case False
  then obtain d where "d \<in> {1..<5}" "has g v d" "get g v d = int u"
    using assms(2) unfolding move_rel_def by blast
  then show ?thesis by auto
qed

end

end
