(* ===== verification/Grid.thy ===== *)
theory Grid
  imports Motion
begin

text \<open>
  The data of an instance (\<open>src/src/instance.hpp\<close>) and its grid map: the numbering of free cells
  by \<open>LoadMapData\<close> and the neighbour queries \<open>HasNeighbor\<close>, \<open>GetNeighbor\<close>, \<open>OppositeDir\<close>.
  A cell of \<open>imap\<close> holds \<open>-1\<close> for an obstacle and the vertex number of a free cell; \<open>coord_list\<close>
  is the inverse table. \<open>wf_grid\<close> is the invariant that ties the two together.
\<close>

section \<open>Data\<close>

record vertex =
  vx :: nat
  vy :: nat

record agent =
  start :: vertex
  goal :: vertex

record avoid =
  avoid_v :: vertex
  avoid_t :: int

record instance_t =
  inst_agents :: "agent list"
  length_from_start :: "int list list"
  length_from_goal :: "int list list"
  SP_lengths :: "int list"
  avoid_locations :: "avoid list"
  imap :: "int list list"
  height :: nat
  width :: nat
  number_of_vertices :: nat
  scen_name :: string
  map_name :: string
  mks_LBs :: "int list"
  soc_LBs :: "int list"
  coord_list :: "vertex list"
  last_number_of_agents :: nat

definition map_at :: "instance_t \<Rightarrow> vertex \<Rightarrow> int" where
  "map_at inst v = imap inst ! vx v ! vy v"

section \<open>Numbering the free cells\<close>

definition load_cell :: "nat \<times> nat \<Rightarrow> instance_t \<Rightarrow> instance_t" where
  "load_cell = (\<lambda>(i, j) inst.
     if imap inst ! i ! j \<noteq> -1 then
       inst\<lparr>imap := (imap inst)[i := (imap inst ! i)[j := int (number_of_vertices inst)]],
            number_of_vertices := Suc (number_of_vertices inst),
            coord_list := coord_list inst @ [\<lparr>vx = i, vy = j\<rparr>]\<rparr>
     else inst)"

definition grid_cells :: "nat \<Rightarrow> nat \<Rightarrow> (nat \<times> nat) list" where
  "grid_cells h w = List.product [0..<h] [0..<w]"

definition LoadMapData :: "int list list \<Rightarrow> instance_t \<Rightarrow> instance_t" where
  "LoadMapData map_vector inst =
     (let h = length map_vector; w = length (map_vector ! 0) in
      fold load_cell (grid_cells h w)
        (inst\<lparr>imap := map_vector, height := h, width := w, number_of_vertices := 0\<rparr>))"

section \<open>Neighbours\<close>

definition IDtoCoords :: "instance_t \<Rightarrow> nat \<Rightarrow> vertex" where
  "IDtoCoords inst v = coord_list inst ! v"

definition HasNeighbor :: "instance_t \<Rightarrow> vertex \<Rightarrow> nat \<Rightarrow> bool" where
  "HasNeighbor inst v dir =
     (if dir = 0 then True
      else if dir = 1 \<and> vx v > 0 \<and> imap inst ! (vx v - 1) ! vy v \<noteq> -1 then True
      else if dir = 2 \<and> vx v < size_dec (height inst) \<and> imap inst ! (vx v + 1) ! vy v \<noteq> -1 then True
      else if dir = 3 \<and> vy v > 0 \<and> imap inst ! vx v ! (vy v - 1) \<noteq> -1 then True
      else if dir = 4 \<and> vy v < size_dec (width inst) \<and> imap inst ! vx v ! (vy v + 1) \<noteq> -1 then True
      else False)"

definition HasNeighborID :: "instance_t \<Rightarrow> nat \<Rightarrow> nat \<Rightarrow> bool" where
  "HasNeighborID inst v dir = (if dir = 0 then True else HasNeighbor inst (IDtoCoords inst v) dir)"

definition GetNeighbor :: "instance_t \<Rightarrow> nat \<Rightarrow> nat \<Rightarrow> int" where
  "GetNeighbor inst ver dir =
     (if dir = 0 then int ver
      else let v = IDtoCoords inst ver in
        if dir = 1 \<and> vx v > 0 then imap inst ! (vx v - 1) ! vy v
        else if dir = 2 \<and> vx v < size_dec (height inst) then imap inst ! (vx v + 1) ! vy v
        else if dir = 3 \<and> vy v > 0 then imap inst ! vx v ! (vy v - 1)
        else if dir = 4 \<and> vy v < size_dec (width inst) then imap inst ! vx v ! (vy v + 1)
        else -1)"

definition OppositeDir :: "nat \<Rightarrow> int" where
  "OppositeDir dir =
     (if dir = 1 then 2 else if dir = 2 then 1 else if dir = 3 then 4
      else if dir = 4 then 3 else if dir = 0 then 0 else -1)"

section \<open>The grid invariant\<close>

definition wf_grid :: "instance_t \<Rightarrow> bool" where
  "wf_grid inst \<longleftrightarrow>
     0 < height inst \<and> 0 < width inst \<and>
     length (imap inst) = height inst \<and>
     (\<forall>i < height inst. width inst \<le> length (imap inst ! i)) \<and>
     number_of_vertices inst = length (coord_list inst) \<and>
     (\<forall>i < height inst. \<forall>j < width inst. imap inst ! i ! j \<noteq> -1 \<longrightarrow>
        (\<exists>k < number_of_vertices inst. imap inst ! i ! j = int k \<and>
           coord_list inst ! k = \<lparr>vx = i, vy = j\<rparr>)) \<and>
     (\<forall>k < number_of_vertices inst.
        vx (coord_list inst ! k) < height inst \<and> vy (coord_list inst ! k) < width inst \<and>
        map_at inst (coord_list inst ! k) = int k)"

text \<open>A free cell of the grid.\<close>

definition free_cell :: "instance_t \<Rightarrow> vertex \<Rightarrow> bool" where
  "free_cell inst v \<longleftrightarrow> vx v < height inst \<and> vy v < width inst \<and> map_at inst v \<noteq> -1"

definition vid :: "instance_t \<Rightarrow> vertex \<Rightarrow> nat" where
  "vid inst v = nat (map_at inst v)"

lemma wf_gridD:
  assumes "wf_grid inst"
  shows "0 < height inst" and "0 < width inst"
    and "number_of_vertices inst = length (coord_list inst)"
    and "\<And>i j. i < height inst \<Longrightarrow> j < width inst \<Longrightarrow> imap inst ! i ! j \<noteq> -1 \<Longrightarrow>
      \<exists>k < number_of_vertices inst. imap inst ! i ! j = int k \<and> coord_list inst ! k = \<lparr>vx = i, vy = j\<rparr>"
    and "\<And>k. k < number_of_vertices inst \<Longrightarrow> vx (coord_list inst ! k) < height inst"
    and "\<And>k. k < number_of_vertices inst \<Longrightarrow> vy (coord_list inst ! k) < width inst"
    and "\<And>k. k < number_of_vertices inst \<Longrightarrow> map_at inst (coord_list inst ! k) = int k"
  using assms unfolding wf_grid_def by blast+

lemma vid_props:
  assumes "wf_grid inst" "free_cell inst v"
  shows "vid inst v < number_of_vertices inst" and "map_at inst v = int (vid inst v)"
    and "IDtoCoords inst (vid inst v) = v"
proof -
  obtain k where "k < number_of_vertices inst" "map_at inst v = int k"
    "coord_list inst ! k = \<lparr>vx = vx v, vy = vy v\<rparr>"
    using assms wf_gridD(4) [of inst "vx v" "vy v"] unfolding free_cell_def map_at_def by blast
  then show "vid inst v < number_of_vertices inst" "map_at inst v = int (vid inst v)"
    "IDtoCoords inst (vid inst v) = v"
    by (simp_all add: vid_def IDtoCoords_def)
qed

lemma coords_free:
  assumes "wf_grid inst" "k < number_of_vertices inst"
  shows "free_cell inst (IDtoCoords inst k)" and "vid inst (IDtoCoords inst k) = k"
  using assms wf_gridD(5-7) [OF assms] by (simp_all add: free_cell_def vid_def IDtoCoords_def)

text \<open>The coordinates one step away, and what the two queries say in terms of them.\<close>

definition shift_coord :: "vertex \<Rightarrow> nat \<Rightarrow> vertex" where
  "shift_coord v dir =
     (if dir = 1 then v\<lparr>vx := vx v - 1\<rparr> else if dir = 2 then v\<lparr>vx := vx v + 1\<rparr>
      else if dir = 3 then v\<lparr>vy := vy v - 1\<rparr> else if dir = 4 then v\<lparr>vy := vy v + 1\<rparr> else v)"

lemma less_5_cases: "d < (5::nat) \<Longrightarrow> d = 0 \<or> d = 1 \<or> d = 2 \<or> d = 3 \<or> d = 4"
  by arith

lemma HasNeighbor_free:
  assumes "wf_grid inst" "free_cell inst v" "d < 5" "HasNeighbor inst v d"
  shows "free_cell inst (shift_coord v d)"
  using assms less_5_cases [OF assms(3)] wf_gridD(1,2) [OF assms(1)]
  by (auto simp: HasNeighbor_def shift_coord_def free_cell_def map_at_def split: if_splits)

lemma GetNeighbor_coord:
  assumes "wf_grid inst" "k < number_of_vertices inst" "d < 5" "HasNeighborID inst k d"
  shows "free_cell inst (shift_coord (IDtoCoords inst k) d)"
    and "GetNeighbor inst k d = int (vid inst (shift_coord (IDtoCoords inst k) d))"
proof -
  let ?v = "IDtoCoords inst k"
  have has: "HasNeighbor inst ?v d"
    using assms(4) by (auto simp: HasNeighborID_def HasNeighbor_def split: if_splits)
  show free: "free_cell inst (shift_coord ?v d)"
    using HasNeighbor_free [OF assms(1) coords_free(1) [OF assms(1,2)] assms(3) has] .
  show "GetNeighbor inst k d = int (vid inst (shift_coord ?v d))"
  proof (cases "d = 0")
    case True
    then show ?thesis using coords_free(2) [OF assms(1,2)] by (simp add: GetNeighbor_def shift_coord_def)
  next
    case False
    then have "GetNeighbor inst k d = map_at inst (shift_coord ?v d)"
      using has less_5_cases [OF assms(3)]
      by (auto simp: GetNeighbor_def HasNeighbor_def shift_coord_def map_at_def Let_def)
    then show ?thesis using vid_props(2) [OF assms(1) free] by simp
  qed
qed

lemma GetNeighbor_coords:
  assumes "wf_grid inst" "k < number_of_vertices inst" "d < 5" "HasNeighborID inst k d"
  shows "IDtoCoords inst (nat (GetNeighbor inst k d)) = shift_coord (IDtoCoords inst k) d"
  using GetNeighbor_coord [OF assms] vid_props(3) [OF assms(1)] by simp

lemma opposite_step:
  assumes "wf_grid inst" "free_cell inst v" "d < 5" "HasNeighbor inst v d"
  shows "HasNeighbor inst (shift_coord v d) (nat (OppositeDir d))"
    and "shift_coord (shift_coord v d) (nat (OppositeDir d)) = v"
proof -
  note gt = wf_gridD(1,2) [OF assms(1)]
  show "HasNeighbor inst (shift_coord v d) (nat (OppositeDir d))"
    using less_5_cases [OF assms(3)] assms(2,4) gt
    by (auto simp: HasNeighbor_def shift_coord_def OppositeDir_def free_cell_def map_at_def split: if_splits)
  show "shift_coord (shift_coord v d) (nat (OppositeDir d)) = v"
    using less_5_cases [OF assms(3)] assms(2,4) gt
    by (auto simp: HasNeighbor_def shift_coord_def OppositeDir_def split: if_splits)
qed


section \<open>The grid as a motion graph\<close>

lemma GetNeighbor_vertex:
  assumes "wf_grid inst" "k < number_of_vertices inst" "d < 5" "HasNeighborID inst k d"
  shows "\<exists>u < number_of_vertices inst. GetNeighbor inst k d = int u"
  using GetNeighbor_coord [OF assms] vid_props(1) [OF assms(1)] by blast

lemma HasNeighborID_free:
  "HasNeighborID inst k d = HasNeighbor inst (IDtoCoords inst k) d"
  by (simp add: HasNeighborID_def HasNeighbor_def)

lemma GetNeighbor_back:
  assumes "wf_grid inst" "k < number_of_vertices inst" "d < 5" "HasNeighborID inst k d"
  shows "HasNeighborID inst (nat (GetNeighbor inst k d)) (nat (OppositeDir d)) \<and>
    GetNeighbor inst (nat (GetNeighbor inst k d)) (nat (OppositeDir d)) = int k"
proof -
  let ?v = "IDtoCoords inst k" and ?u = "nat (GetNeighbor inst k d)"
  have u: "?u < number_of_vertices inst" using GetNeighbor_vertex [OF assms] by auto
  have c: "IDtoCoords inst ?u = shift_coord ?v d" by (rule GetNeighbor_coords [OF assms])
  have has: "HasNeighbor inst ?v d" using assms(4) by (simp add: HasNeighborID_free)
  have od: "nat (OppositeDir d) < 5" using less_5_cases [OF assms(3)] by (auto simp: OppositeDir_def)
  note opp = opposite_step [OF assms(1) coords_free(1) [OF assms(1,2)] assms(3) has]
  have h: "HasNeighborID inst ?u (nat (OppositeDir d))"
    using opp(1) c by (simp add: HasNeighborID_free)
  moreover have "GetNeighbor inst ?u (nat (OppositeDir d)) = int k"
    using GetNeighbor_coord(2) [OF assms(1) u od h] c opp(2) coords_free(2) [OF assms(1,2)] by simp
  ultimately show ?thesis ..
qed

interpretation grid: motion_graph wf_grid number_of_vertices HasNeighborID GetNeighbor OppositeDir
proof unfold_locales
  show "HasNeighborID g v 0 \<and> GetNeighbor g v 0 = int v" for g v
    by (simp add: HasNeighborID_def GetNeighbor_def)
  show "\<exists>u < number_of_vertices g. GetNeighbor g v d = int u"
    if "wf_grid g" "v < number_of_vertices g" "d < 5" "HasNeighborID g v d" for g v d
    using GetNeighbor_vertex [OF that] .
  show "0 \<le> OppositeDir d \<and> OppositeDir d < 5 \<and> (OppositeDir d = 0 \<longleftrightarrow> d = 0)" if "d < 5" for d
    using less_5_cases [OF that] by (auto simp: OppositeDir_def)
  show "HasNeighborID g (nat (GetNeighbor g v d)) (nat (OppositeDir d)) \<and>
      GetNeighbor g (nat (GetNeighbor g v d)) (nat (OppositeDir d)) = int v"
    if "wf_grid g" "v < number_of_vertices g" "d < 5" "HasNeighborID g v d" for g v d
    using GetNeighbor_back [OF that] .
qed

text \<open>The moves of an agent: one step in one of the four compass directions.\<close>

definition moves :: "instance_t \<Rightarrow> (nat \<times> nat) set" where
  "moves inst = move_rel (HasNeighborID inst) (GetNeighbor inst) (number_of_vertices inst)"

lemmas moves_range = grid.move_range [folded moves_def]
  and moves_sym = grid.move_sym [folded moves_def]
  and moves_walk_range = grid.walk_range [folded moves_def]
  and moves_get_step = grid.get_step [folded moves_def]
  and moves_step_get = grid.step_get [folded moves_def]

text \<open>
  Two cells are one move apart exactly when they are free and differ by one in one coordinate:
  the wrap-around of \<open>height - 1\<close> and \<open>width - 1\<close> never shows on a well-formed grid.
\<close>

definition adjacent_cells :: "vertex \<Rightarrow> vertex \<Rightarrow> bool" where
  "adjacent_cells v u \<longleftrightarrow>
     (vy v = vy u \<and> (vx u = vx v + 1 \<or> vx v = vx u + 1)) \<or>
     (vx v = vx u \<and> (vy u = vy v + 1 \<or> vy v = vy u + 1))"

lemma HasNeighbor_shift:
  assumes "wf_grid inst" "free_cell inst v" "free_cell inst u" "adjacent_cells v u"
  shows "\<exists>d \<in> {1..<5}. HasNeighbor inst v d \<and> shift_coord v d = u"
proof -
  note gt = wf_gridD(1,2) [OF assms(1)]
  from assms(4) consider "vy v = vy u" "vx v = vx u + 1" | "vy v = vy u" "vx u = vx v + 1"
    | "vx v = vx u" "vy v = vy u + 1" | "vx v = vx u" "vy u = vy v + 1"
    unfolding adjacent_cells_def by blast
  then show ?thesis
  proof cases
    case 1
    then show ?thesis using assms(2,3) gt
      by (intro bexI [of _ 1]) (auto simp: HasNeighbor_def shift_coord_def free_cell_def map_at_def)
  next
    case 2
    then show ?thesis using assms(2,3) gt
      by (intro bexI [of _ 2]) (auto simp: HasNeighbor_def shift_coord_def free_cell_def map_at_def)
  next
    case 3
    then show ?thesis using assms(2,3) gt
      by (intro bexI [of _ 3]) (auto simp: HasNeighbor_def shift_coord_def free_cell_def map_at_def)
  next
    case 4
    then show ?thesis using assms(2,3) gt
      by (intro bexI [of _ 4]) (auto simp: HasNeighbor_def shift_coord_def free_cell_def map_at_def)
  qed
qed

lemma shift_coord_adjacent:
  assumes "d \<in> {1..<5}" "HasNeighbor inst v d"
  shows "adjacent_cells v (shift_coord v d)"
  using assms less_5_cases [of d]
  by (auto simp: HasNeighbor_def shift_coord_def adjacent_cells_def split: if_splits)

lemma moves_iff_adjacent:
  assumes wf: "wf_grid inst" and "u < number_of_vertices inst" "w < number_of_vertices inst"
  shows "(u, w) \<in> moves inst \<longleftrightarrow> adjacent_cells (IDtoCoords inst u) (IDtoCoords inst w)"
proof
  assume "(u, w) \<in> moves inst"
  then obtain d where d: "d \<in> {1..<5}" "HasNeighborID inst u d" "GetNeighbor inst u d = int w"
    unfolding moves_def move_rel_def by auto
  have "IDtoCoords inst w = shift_coord (IDtoCoords inst u) d"
    using GetNeighbor_coords [OF wf assms(2) _ d(2)] d(1,3) by simp
  then show "adjacent_cells (IDtoCoords inst u) (IDtoCoords inst w)"
    using shift_coord_adjacent [OF d(1)] d(2) by (simp add: HasNeighborID_free)
next
  assume adj: "adjacent_cells (IDtoCoords inst u) (IDtoCoords inst w)"
  obtain d where d: "d \<in> {1..<5}" "HasNeighbor inst (IDtoCoords inst u) d"
    "shift_coord (IDtoCoords inst u) d = IDtoCoords inst w"
    using HasNeighbor_shift [OF wf coords_free(1) [OF wf assms(2)] coords_free(1) [OF wf assms(3)] adj]
    by blast
  then have h: "HasNeighborID inst u d" by (simp add: HasNeighborID_free)
  have "GetNeighbor inst u d = int w"
    using GetNeighbor_coord(2) [OF wf assms(2) _ h] d coords_free(2) [OF wf assms(3)] by simp
  with h d(1) assms(2) show "(u, w) \<in> moves inst"
    unfolding moves_def move_rel_def by auto
qed

section \<open>Correctness of the numbering\<close>

text \<open>The invariant of the double loop of \<open>LoadMapData\<close> after the cells \<open>cs\<close> have been visited.\<close>

definition load_inv :: "int list list \<Rightarrow> (nat \<times> nat) list \<Rightarrow> instance_t \<Rightarrow> bool" where
  "load_inv mv cs inst \<longleftrightarrow>
     length (imap inst) = length mv \<and>
     (\<forall>i < length mv. length (imap inst ! i) = length (mv ! i)) \<and>
     number_of_vertices inst = length (coord_list inst) \<and>
     coord_list inst = map (\<lambda>(i, j). \<lparr>vx = i, vy = j\<rparr>) (filter (\<lambda>(i, j). mv ! i ! j \<noteq> -1) cs) \<and>
     (\<forall>(i, j) \<in> set cs. mv ! i ! j = -1 \<longrightarrow> imap inst ! i ! j = -1) \<and>
     (\<forall>k < length (coord_list inst). map_at inst (coord_list inst ! k) = int k) \<and>
     (\<forall>i < length mv. \<forall>j < length (mv ! i). (i, j) \<notin> set cs \<longrightarrow> imap inst ! i ! j = mv ! i ! j)"

lemma load_cell_frame [frame_simps]:
  "height (load_cell c inst) = height inst" "width (load_cell c inst) = width inst"
  "inst_agents (load_cell c inst) = inst_agents inst"
  by (auto simp: load_cell_def split: prod.splits)

lemma load_cell_inv:
  assumes inv: "load_inv mv cs inst" and new: "(i, j) \<notin> set cs"
    and rng: "i < length mv" "j < length (mv ! i)"
    and old: "\<forall>(i', j') \<in> set cs. i' < length mv \<and> j' < length (mv ! i')"
  shows "load_inv mv (cs @ [(i, j)]) (load_cell (i, j) inst)"
proof (cases "mv ! i ! j = -1")
  case True
  then have "imap inst ! i ! j = -1" using inv new rng unfolding load_inv_def by auto
  then show ?thesis using inv True unfolding load_inv_def load_cell_def by auto
next
  case False
  then have ne: "imap inst ! i ! j \<noteq> -1" using inv new rng unfolding load_inv_def by auto
  let ?n = "number_of_vertices inst"
  let ?m = "(imap inst)[i := (imap inst ! i)[j := int ?n]]"
  have len: "i < length (imap inst)" "j < length (imap inst ! i)" "?n = length (coord_list inst)"
    using inv rng unfolding load_inv_def by auto
  have upd: "?m ! i' ! j' = (if i' = i \<and> j' = j then int ?n else imap inst ! i' ! j')"
    if "i' < length mv" for i' j'
    using len by (auto simp: nth_list_update)
  have in_cs: "(vx (coord_list inst ! k), vy (coord_list inst ! k)) \<in> set cs" if "k < ?n" for k
  proof -
    have "coord_list inst ! k \<in> set (coord_list inst)" using that len(3) by simp
    then have "coord_list inst ! k \<in> (\<lambda>(i, j). \<lparr>vx = i, vy = j\<rparr>) ` set cs"
      using inv unfolding load_inv_def by auto
    then show ?thesis by auto
  qed
  have old_at: "?m ! vx (coord_list inst ! k) ! vy (coord_list inst ! k) = int k" if "k < ?n" for k
  proof -
    have "vx (coord_list inst ! k) < length mv" using in_cs [OF that] old by auto
    moreover have "(vx (coord_list inst ! k), vy (coord_list inst ! k)) \<noteq> (i, j)"
      using in_cs [OF that] new by metis
    ultimately show ?thesis using inv that len(3) upd unfolding load_inv_def map_at_def by auto
  qed
  have neg: "?m ! i' ! j' = -1" if "(i', j') \<in> set cs" "mv ! i' ! j' = -1" for i' j'
  proof -
    have "i' < length mv" "(i', j') \<noteq> (i, j)" using that(1) old new by auto
    moreover have "imap inst ! i' ! j' = -1" using inv that unfolding load_inv_def by auto
    ultimately show ?thesis using upd [of i' j'] by auto
  qed
  have rest: "?m ! i' ! j' = mv ! i' ! j'"
    if "i' < length mv" "j' < length (mv ! i')" "(i', j') \<notin> set cs" "(i', j') \<noteq> (i, j)" for i' j'
    using that inv upd [of i' j'] unfolding load_inv_def by auto
  have rows: "length (?m ! i') = length (mv ! i')" if "i' < length mv" for i'
    using inv that len by (cases "i' = i") (auto simp: load_inv_def nth_list_update)
  have "load_cell (i, j) inst = inst\<lparr>imap := ?m, number_of_vertices := Suc ?n,
      coord_list := coord_list inst @ [\<lparr>vx = i, vy = j\<rparr>]\<rparr>"
    using ne by (simp add: load_cell_def)
  moreover have "map_at (inst\<lparr>imap := ?m, number_of_vertices := Suc ?n,
      coord_list := coord_list inst @ [\<lparr>vx = i, vy = j\<rparr>]\<rparr>) ((coord_list inst @ [\<lparr>vx = i, vy = j\<rparr>]) ! k) = int k"
    if "k < Suc ?n" for k
    using that old_at [of k] upd [OF rng(1), of j] len(3)
    by (cases "k = ?n") (auto simp: map_at_def nth_append)
  ultimately show ?thesis
    using inv False neg rest rows len(3) unfolding load_inv_def by auto
qed

lemma load_cells_inv:
  assumes "load_inv mv [] inst" "distinct cs"
    and "\<forall>(i, j) \<in> set cs. i < length mv \<and> j < length (mv ! i)"
  shows "load_inv mv cs (fold load_cell cs inst)"
  using assms(2,3)
proof (induction cs rule: rev_induct)
  case Nil
  then show ?case using assms(1) by simp
next
  case (snoc c cs)
  obtain i j where c: "c = (i, j)" by (cases c)
  show ?case
    using snoc load_cell_inv [of mv cs "fold load_cell cs inst" i j] c by auto
qed

lemma fold_load_cell_frame [frame_simps]:
  "height (fold load_cell cs inst) = height inst" "width (fold load_cell cs inst) = width inst"
  "inst_agents (fold load_cell cs inst) = inst_agents inst"
  by (induction cs arbitrary: inst) (simp_all add: frame_simps)

lemma set_grid_cells [grid_simps]: "set (grid_cells h w) = {..<h} \<times> {..<w}"
  by (auto simp: grid_cells_def)

lemma distinct_grid_cells: "distinct (grid_cells h w)"
  by (simp add: grid_cells_def distinct_product)

text \<open>
  The map vector the constructor documents: at least one row, a first row that is not empty, and
  no row shorter than the first.
\<close>

definition map_vector_ok :: "int list list \<Rightarrow> bool" where
  "map_vector_ok mv \<longleftrightarrow> mv \<noteq> [] \<and> mv ! 0 \<noteq> [] \<and> (\<forall>row \<in> set mv. length (mv ! 0) \<le> length row)"

lemma LoadMapData_inv:
  assumes ok: "map_vector_ok mv" and empty: "coord_list inst = []"
  shows "load_inv mv (grid_cells (length mv) (length (mv ! 0))) (LoadMapData mv inst)"
proof -
  have "\<forall>(i, j) \<in> set (grid_cells (length mv) (length (mv ! 0))). i < length mv \<and> j < length (mv ! i)"
    using ok by (auto simp: grid_simps map_vector_ok_def) (metis nth_mem order_less_le_trans)
  then show ?thesis unfolding LoadMapData_def Let_def
    by (intro load_cells_inv distinct_grid_cells) (simp_all add: load_inv_def empty)
qed

lemma LoadMapData_frame [frame_simps]:
  "height (LoadMapData mv inst) = length mv" "width (LoadMapData mv inst) = length (mv ! 0)"
  "inst_agents (LoadMapData mv inst) = inst_agents inst"
  by (simp_all add: LoadMapData_def Let_def frame_simps)

text \<open>The coordinate table lists the free cells of the input row by row.\<close>

lemma LoadMapData_coords:
  assumes "map_vector_ok mv" "coord_list inst = []"
  shows "coord_list (LoadMapData mv inst) =
    map (\<lambda>(i, j). \<lparr>vx = i, vy = j\<rparr>)
      (filter (\<lambda>(i, j). mv ! i ! j \<noteq> -1) (grid_cells (length mv) (length (mv ! 0))))"
  using LoadMapData_inv [OF assms] unfolding load_inv_def by blast

lemma LoadMapData_wf:
  assumes ok: "map_vector_ok mv" and empty: "coord_list inst = []"
  shows "wf_grid (LoadMapData mv inst)"
proof -
  let ?g = "LoadMapData mv inst" and ?cs = "grid_cells (length mv) (length (mv ! 0))"
  note inv = LoadMapData_inv [OF assms]
  note coords = LoadMapData_coords [OF assms]
  have n: "number_of_vertices ?g = length (coord_list ?g)"
    and len: "length (imap ?g) = length mv" "\<forall>i < length mv. length (imap ?g ! i) = length (mv ! i)"
    and at: "\<forall>k < length (coord_list ?g). map_at ?g (coord_list ?g ! k) = int k"
    and obst: "\<forall>(i, j) \<in> set ?cs. mv ! i ! j = -1 \<longrightarrow> imap ?g ! i ! j = -1"
    using inv unfolding load_inv_def by blast+
  have cell: "\<exists>k < number_of_vertices ?g. imap ?g ! i ! j = int k \<and> coord_list ?g ! k = \<lparr>vx = i, vy = j\<rparr>"
    if ij: "i < length mv" "j < length (mv ! 0)" "imap ?g ! i ! j \<noteq> -1" for i j
  proof -
    have "mv ! i ! j \<noteq> -1" using obst ij by (fastforce simp: grid_simps)
    then have "\<lparr>vx = i, vy = j\<rparr> \<in> set (coord_list ?g)"
      using ij unfolding coords by (force simp: grid_simps)
    then obtain k where "k < length (coord_list ?g)" "coord_list ?g ! k = \<lparr>vx = i, vy = j\<rparr>"
      by (metis in_set_conv_nth)
    with at n show ?thesis by (auto simp: map_at_def)
  qed
  have rng: "vx (coord_list ?g ! k) < length mv \<and> vy (coord_list ?g ! k) < length (mv ! 0)"
    if "k < number_of_vertices ?g" for k
  proof -
    have "coord_list ?g ! k \<in> set (coord_list ?g)" using that n by simp
    then show ?thesis unfolding coords by (auto simp: grid_simps)
  qed
  have "length (mv ! 0) \<le> length (mv ! i)" if "i < length mv" for i
    using ok that by (auto simp: map_vector_ok_def)
  then show ?thesis
    using ok n len at cell rng unfolding wf_grid_def by (auto simp: frame_simps map_vector_ok_def)
qed

end
