(* ===== verification/Shortest_Paths.thy ===== *)
theory Shortest_Paths
  imports Grid
begin

text \<open>
  The breadth-first search of \<open>src/src/instance.cpp\<close>. The \<open>while\<close> loop over the queue is a
  \<open>partial_function\<close>, so that not returning is the value \<open>None\<close>; on a well-formed grid it returns,
  and the table it fills holds the distance of every vertex from the start, \<open>-1\<close> for the vertices
  that cannot be reached.
\<close>

section \<open>The search\<close>

type_synonym bfs_state = "int list \<times> vertex list"

definition bfs_visit :: "instance_t \<Rightarrow> vertex \<Rightarrow> nat \<Rightarrow> vertex \<Rightarrow> bfs_state \<Rightarrow> bfs_state" where
  "bfs_visit inst v dir w = (\<lambda>(length_from, que).
     if HasNeighbor inst v dir \<and> length_from ! nat (map_at inst w) = -1
     then (length_from[nat (map_at inst w) := length_from ! nat (map_at inst v) + 1], que @ [w])
     else (length_from, que))"

definition bfs_expand :: "instance_t \<Rightarrow> vertex \<Rightarrow> bfs_state \<Rightarrow> bfs_state" where
  "bfs_expand inst v st =
     (let st1 = bfs_visit inst v 1 (v\<lparr>vx := vx v - 1\<rparr>) st;
          st2 = bfs_visit inst v 2 (v\<lparr>vx := vx v + 1\<rparr>) st1;
          st3 = bfs_visit inst v 3 (v\<lparr>vy := vy v - 1\<rparr>) st2
      in bfs_visit inst v 4 (v\<lparr>vy := vy v + 1\<rparr>) st3)"

partial_function (option) bfs_loop :: "instance_t \<Rightarrow> bfs_state \<Rightarrow> int list option" where
  "bfs_loop inst st =
     (case snd st of [] \<Rightarrow> Some (fst st)
      | v # que \<Rightarrow> bfs_loop inst (bfs_expand inst v (fst st, que)))"

definition BFS :: "instance_t \<Rightarrow> int list \<Rightarrow> vertex \<Rightarrow> int list option" where
  "BFS inst length_from start_v =
     bfs_loop inst (length_from[nat (map_at inst start_v) := 0], [start_v])"

lemma bfs_loop_Nil: "bfs_loop inst (len, []) = Some len"
  by (simp add: bfs_loop.simps)

lemma bfs_loop_Cons: "bfs_loop inst (len, v # que) = bfs_loop inst (bfs_expand inst v (len, que))"
  by (simp add: bfs_loop.simps [of inst "(len, v # que)"])

lemma bfs_expand_shift:
  "bfs_expand inst v st =
     fold (\<lambda>d. bfs_visit inst v d (shift_coord v d)) [1, 2, 3, 4] st"
  by (simp add: bfs_expand_def shift_coord_def Let_def)

section \<open>Termination\<close>

text \<open>Marking a vertex consumes one \<open>-1\<close> entry and adds one queue entry; a round removes one.\<close>

definition bfs_measure :: "bfs_state \<Rightarrow> nat" where
  "bfs_measure st = count_list (fst st) (-1) + length (snd st)"

lemma count_list_update:
  "i < length xs \<Longrightarrow> xs ! i = y \<Longrightarrow> z \<noteq> y \<Longrightarrow> Suc (count_list (xs[i := z]) y) = count_list xs y"
  by (induction xs arbitrary: i) (auto split: nat.splits)

lemma bfs_visit_measure:
  assumes "wf_grid inst" "free_cell inst v" "d \<in> {1..<5}" "length len = number_of_vertices inst"
    "len ! vid inst v \<noteq> -2"
  shows "bfs_measure (bfs_visit inst v d (shift_coord v d) (len, que)) = bfs_measure (len, que)"
proof (cases "HasNeighbor inst v d \<and> len ! vid inst (shift_coord v d) = -1")
  case True
  have "free_cell inst (shift_coord v d)"
    using HasNeighbor_free [OF assms(1,2)] assms(3) True by auto
  then have "vid inst (shift_coord v d) < length len" using vid_props(1) assms(1,4) by simp
  moreover have "len ! vid inst v + 1 \<noteq> -1" using assms(5) by simp
  ultimately have "Suc (count_list (len[vid inst (shift_coord v d) := len ! vid inst v + 1]) (-1))
      = count_list len (-1)"
    using True by (intro count_list_update) auto
  with True show ?thesis
    by (simp add: bfs_visit_def bfs_measure_def vid_def [symmetric])
qed (auto simp: bfs_visit_def bfs_measure_def vid_def [symmetric])

section \<open>The loop invariant\<close>

definition settled :: "instance_t \<Rightarrow> int list \<Rightarrow> nat \<Rightarrow> bool" where
  "settled inst len k \<longleftrightarrow> (\<forall>w. (k, w) \<in> moves inst \<longrightarrow> 0 \<le> len ! w \<and> len ! w \<le> len ! k + 1)"

definition bfs_base :: "instance_t \<Rightarrow> nat \<Rightarrow> int list \<Rightarrow> vertex list \<Rightarrow> bool" where
  "bfs_base inst s len que \<longleftrightarrow>
     length len = number_of_vertices inst \<and> s < number_of_vertices inst \<and> len ! s = 0 \<and>
     (\<forall>k < number_of_vertices inst. -1 \<le> len ! k \<and>
        (0 \<le> len ! k \<longrightarrow> (s, k) \<in> moves inst ^^ nat (len ! k))) \<and>
     (\<forall>q \<in> set que. free_cell inst q \<and> 0 \<le> len ! vid inst q) \<and>
     sorted (map (\<lambda>q. len ! vid inst q) que)"

definition bfs_inv :: "instance_t \<Rightarrow> nat \<Rightarrow> bfs_state \<Rightarrow> bool" where
  "bfs_inv inst s st \<longleftrightarrow> (case st of (len, que) \<Rightarrow>
     bfs_base inst s len que \<and>
     (\<forall>k < number_of_vertices inst. 0 \<le> len ! k \<longrightarrow> k \<in> vid inst ` set que \<or> settled inst len k) \<and>
     (que \<noteq> [] \<longrightarrow> (\<forall>k < number_of_vertices inst. len ! k \<le> len ! vid inst (hd que) + 1)))"

text \<open>While \<open>v\<close> is being expanded: the directions \<open>D\<close> are done.\<close>

definition bfs_mid :: "instance_t \<Rightarrow> nat \<Rightarrow> vertex \<Rightarrow> nat set \<Rightarrow> bfs_state \<Rightarrow> bool" where
  "bfs_mid inst s v D st \<longleftrightarrow> (case st of (len, que) \<Rightarrow>
     bfs_base inst s len que \<and> free_cell inst v \<and> 0 \<le> len ! vid inst v \<and>
     (\<forall>k < number_of_vertices inst. len ! k \<le> len ! vid inst v + 1) \<and>
     (\<forall>q \<in> set que. len ! vid inst v \<le> len ! vid inst q) \<and>
     (\<forall>k < number_of_vertices inst. 0 \<le> len ! k \<longrightarrow> k \<noteq> vid inst v \<longrightarrow>
        k \<in> vid inst ` set que \<or> settled inst len k) \<and>
     (\<forall>d \<in> D. HasNeighbor inst v d \<longrightarrow> 0 \<le> len ! vid inst (shift_coord v d)))"

lemma move_shift:
  assumes "wf_grid inst" "free_cell inst v" "d \<in> {1..<5}" "HasNeighbor inst v d"
  shows "(vid inst v, vid inst (shift_coord v d)) \<in> moves inst"
proof -
  have "free_cell inst (shift_coord v d)" using HasNeighbor_free [OF assms(1,2) _ assms(4)] assms(3) by simp
  then show ?thesis
    using shift_coord_adjacent [OF assms(3,4)] moves_iff_adjacent [OF assms(1)] vid_props [OF assms(1)] assms(2)
    by simp
qed

lemma bfs_mid_visit:
  assumes wf: "wf_grid inst" and mid: "bfs_mid inst s v D (len, que)" and d: "d \<in> {1..<5}"
  shows "bfs_mid inst s v (insert d D) (bfs_visit inst v d (shift_coord v d) (len, que))"
proof -
  let ?w = "shift_coord v d" and ?n = "number_of_vertices inst"
  let ?kw = "vid inst ?w" and ?kv = "vid inst v"
  have base: "bfs_base inst s len que" and fv: "free_cell inst v" and lv: "0 \<le> len ! ?kv"
    and bound: "\<And>k. k < ?n \<Longrightarrow> len ! k \<le> len ! ?kv + 1"
    and low: "\<And>q. q \<in> set que \<Longrightarrow> len ! ?kv \<le> len ! vid inst q"
    and closed: "\<And>k. k < ?n \<Longrightarrow> 0 \<le> len ! k \<Longrightarrow> k \<noteq> ?kv \<Longrightarrow> k \<in> vid inst ` set que \<or> settled inst len k"
    and marked: "\<And>d. d \<in> D \<Longrightarrow> HasNeighbor inst v d \<Longrightarrow> 0 \<le> len ! vid inst (shift_coord v d)"
    using mid unfolding bfs_mid_def by auto
  have kv: "?kv < ?n" using vid_props(1) [OF wf fv] .
  show ?thesis
  proof (cases "HasNeighbor inst v d \<and> len ! ?kw = -1")
    case False
    have "0 \<le> len ! ?kw" if "HasNeighbor inst v d"
    proof -
      have "?kw < ?n" using HasNeighbor_free [OF wf fv _ that] d vid_props(1) [OF wf] by simp
      moreover have "len ! ?kw \<noteq> -1" using False that by simp
      moreover have "-1 \<le> len ! ?kw" using base calculation(1) unfolding bfs_base_def by blast
      ultimately show ?thesis by simp
    qed
    then show ?thesis using False mid
      by (auto simp: bfs_visit_def bfs_mid_def vid_def [symmetric])
  next
    case True
    have fw: "free_cell inst ?w" using HasNeighbor_free [OF wf fv] d True by simp
    have kw: "?kw < ?n" using vid_props(1) [OF wf fw] .
    let ?len = "len[?kw := len ! ?kv + 1]"
    have lenlen: "length len = ?n" using base unfolding bfs_base_def by simp
    have keep: "?len ! k = len ! k" if "0 \<le> len ! k" for k
      using that True by (cases "k = ?kw") auto
    have new: "?len ! ?kw = len ! ?kv + 1" using kw lenlen by simp
    have walk: "(s, ?kw) \<in> moves inst ^^ nat (len ! ?kv + 1)"
    proof -
      have "(s, ?kv) \<in> moves inst ^^ nat (len ! ?kv)" using base kv lv unfolding bfs_base_def by blast
      then have "(s, ?kw) \<in> moves inst ^^ Suc (nat (len ! ?kv))"
        using move_shift [OF wf fv d] True by (meson relpow_Suc_I)
      then show ?thesis using lv by (simp add: nat_add_distrib)
    qed
    have qs: "?len ! vid inst q = len ! vid inst q" if "q \<in> set que" for q
      using that base keep unfolding bfs_base_def by blast
    have entries: "-1 \<le> ?len ! k \<and> (0 \<le> ?len ! k \<longrightarrow> (s, k) \<in> moves inst ^^ nat (?len ! k))
        \<and> ?len ! k \<le> len ! ?kv + 1" if "k < ?n" for k
      using that base walk bound [OF that] new lv lenlen unfolding bfs_base_def
      by (cases "k = ?kw") auto
    have srt: "sorted (map (\<lambda>q. ?len ! vid inst q) (que @ [?w]))"
    proof -
      have "map (\<lambda>q. ?len ! vid inst q) que = map (\<lambda>q. len ! vid inst q) que"
        using qs by (intro map_cong) auto
      moreover have "sorted (map (\<lambda>q. len ! vid inst q) que)"
        using base unfolding bfs_base_def by simp
      moreover have "len ! vid inst q \<le> len ! ?kv + 1" if "q \<in> set que" for q
        using that base bound vid_props(1) [OF wf] unfolding bfs_base_def by blast
      ultimately show ?thesis using new by (simp only: map_append sorted_append) auto
    qed
    have base': "bfs_base inst s ?len (que @ [?w])"
      using base entries srt qs new fw lv keep [of s] unfolding bfs_base_def by auto
    have settled': "settled inst ?len k" if "settled inst len k" "0 \<le> len ! k" for k
      using that keep unfolding settled_def by metis
    have closed': "k \<in> vid inst ` set (que @ [?w]) \<or> settled inst ?len k"
      if "k < ?n" "0 \<le> ?len ! k" "k \<noteq> ?kv" for k
      using that closed [of k] settled' [of k] by (cases "k = ?kw") auto
    have "bfs_mid inst s v (insert d D) (?len, que @ [?w])"
      using base' fv lv keep [of ?kv] entries low qs new closed' marked keep
      unfolding bfs_mid_def by auto
    then show ?thesis using True by (simp add: bfs_visit_def vid_def [symmetric])
  qed
qed

lemma bfs_mid_fold:
  assumes wf: "wf_grid inst"
  shows "bfs_mid inst s v D st \<Longrightarrow> set ds \<subseteq> {1..<5} \<Longrightarrow>
    bfs_mid inst s v (set ds \<union> D) (fold (\<lambda>d. bfs_visit inst v d (shift_coord v d)) ds st) \<and>
    bfs_measure (fold (\<lambda>d. bfs_visit inst v d (shift_coord v d)) ds st) = bfs_measure st"
proof (induction ds arbitrary: D st)
  case (Cons d ds)
  obtain len que where st: "st = (len, que)" by (cases st)
  have d: "d \<in> {1..<5}" using Cons.prems(2) by simp
  have mid: "bfs_mid inst s v (insert d D) (bfs_visit inst v d (shift_coord v d) st)"
    using bfs_mid_visit [OF wf _ d] Cons.prems(1) st by simp
  have "bfs_measure (bfs_visit inst v d (shift_coord v d) st) = bfs_measure st"
    using bfs_visit_measure [OF wf _ d] Cons.prems(1) unfolding st bfs_mid_def bfs_base_def by auto
  then show ?case using Cons.IH [OF mid] Cons.prems(2) by simp
qed simp

text \<open>One round of the loop keeps the invariant and decreases the measure.\<close>

lemma bfs_inv_pop:
  assumes "wf_grid inst" "bfs_inv inst s (len, v # que)"
  shows "bfs_mid inst s v {} (len, que)"
proof -
  have base: "bfs_base inst s len (v # que)"
    and closed: "\<And>k. k < number_of_vertices inst \<Longrightarrow> 0 \<le> len ! k \<Longrightarrow>
      k \<in> vid inst ` set (v # que) \<or> settled inst len k"
    and bound: "\<And>k. k < number_of_vertices inst \<Longrightarrow> len ! k \<le> len ! vid inst v + 1"
    using assms(2) unfolding bfs_inv_def by auto
  have "bfs_base inst s len que" "free_cell inst v" "0 \<le> len ! vid inst v"
    "\<forall>q \<in> set que. len ! vid inst v \<le> len ! vid inst q"
    using base unfolding bfs_base_def by auto
  then show ?thesis using closed bound unfolding bfs_mid_def by auto
qed

lemma bfs_mid_settled:
  assumes wf: "wf_grid inst" and mid: "bfs_mid inst s v {1, 2, 3, 4} (len, que)"
  shows "settled inst len (vid inst v)"
  unfolding settled_def
proof (intro allI impI)
  fix w assume move: "(vid inst v, w) \<in> moves inst"
  have fv: "free_cell inst v" using mid unfolding bfs_mid_def by simp
  have w: "w < number_of_vertices inst" using moves_range [OF wf move] by simp
  have adj: "adjacent_cells v (IDtoCoords inst w)"
    using move moves_iff_adjacent [OF wf vid_props(1) [OF wf fv] w] vid_props(3) [OF wf fv] by simp
  obtain d where d: "d \<in> {1..<5}" "HasNeighbor inst v d" "shift_coord v d = IDtoCoords inst w"
    using HasNeighbor_shift [OF wf fv coords_free(1) [OF wf w] adj] by blast
  moreover have "d \<in> {1, 2, 3, 4}" using d(1) by auto
  ultimately have "0 \<le> len ! w"
    using mid coords_free(2) [OF wf w] unfolding bfs_mid_def by fastforce
  moreover have "len ! w \<le> len ! vid inst v + 1" using mid w unfolding bfs_mid_def by simp
  ultimately show "0 \<le> len ! w \<and> len ! w \<le> len ! vid inst v + 1" by simp
qed

lemma bfs_mid_done:
  assumes "wf_grid inst" "bfs_mid inst s v {1, 2, 3, 4} st"
  shows "bfs_inv inst s st"
proof -
  obtain len que where st: "st = (len, que)" by (cases st)
  have base: "bfs_base inst s len que"
    and bound: "\<And>k. k < number_of_vertices inst \<Longrightarrow> len ! k \<le> len ! vid inst v + 1"
    and low: "\<And>q. q \<in> set que \<Longrightarrow> len ! vid inst v \<le> len ! vid inst q"
    and closed: "\<And>k. k < number_of_vertices inst \<Longrightarrow> 0 \<le> len ! k \<Longrightarrow> k \<noteq> vid inst v \<Longrightarrow>
      k \<in> vid inst ` set que \<or> settled inst len k"
    using assms(2) unfolding bfs_mid_def st by auto
  have "settled inst len (vid inst v)" using bfs_mid_settled [OF assms(1)] assms(2) st by simp
  with closed have "k \<in> vid inst ` set que \<or> settled inst len k"
    if "k < number_of_vertices inst" "0 \<le> len ! k" for k
    using that by blast
  moreover have "len ! k \<le> len ! vid inst (hd que) + 1" if "que \<noteq> []" "k < number_of_vertices inst" for k
    using bound [OF that(2)] low [OF hd_in_set [OF that(1)]] by simp
  ultimately show ?thesis using base unfolding bfs_inv_def st by simp
qed

lemma bfs_round:
  assumes "wf_grid inst" "bfs_inv inst s (len, v # que)"
  shows "bfs_inv inst s (bfs_expand inst v (len, que))"
    and "bfs_measure (bfs_expand inst v (len, que)) < bfs_measure (len, v # que)"
proof -
  have "bfs_mid inst s v (set [1, 2, 3, 4] \<union> {}) (bfs_expand inst v (len, que)) \<and>
      bfs_measure (bfs_expand inst v (len, que)) = bfs_measure (len, que)"
    unfolding bfs_expand_shift by (rule bfs_mid_fold [OF assms(1) bfs_inv_pop [OF assms]]) simp
  then have "bfs_mid inst s v {1, 2, 3, 4} (bfs_expand inst v (len, que))"
    and m: "bfs_measure (bfs_expand inst v (len, que)) = bfs_measure (len, que)"
    by simp_all
  from bfs_mid_done [OF assms(1) this(1)] show "bfs_inv inst s (bfs_expand inst v (len, que))" .
  show "bfs_measure (bfs_expand inst v (len, que)) < bfs_measure (len, v # que)"
    unfolding m by (simp add: bfs_measure_def)
qed

lemma bfs_loop_inv:
  assumes wf: "wf_grid inst"
  shows "bfs_inv inst s st \<Longrightarrow> \<exists>len. bfs_loop inst st = Some len \<and> bfs_inv inst s (len, [])"
proof (induction st rule: measure_induct_rule [of bfs_measure])
  case (less st)
  obtain len que where st: "st = (len, que)" by (cases st)
  show ?case
  proof (cases que)
    case Nil
    then show ?thesis using less.prems st by (simp add: bfs_loop_Nil)
  next
    case (Cons v que')
    then show ?thesis
      using bfs_round [OF wf] less st by (simp add: bfs_loop_Cons)
  qed
qed

section \<open>Correctness\<close>

lemma bfs_inv_final:
  assumes wf: "wf_grid inst" and inv: "bfs_inv inst s (len, [])" and k: "k < number_of_vertices inst"
  shows "is_dist (moves inst) s k (len ! k)"
proof -
  have base: "bfs_base inst s len []"
    and closed: "\<And>k. k < number_of_vertices inst \<Longrightarrow> 0 \<le> len ! k \<Longrightarrow> settled inst len k"
    using inv unfolding bfs_inv_def by auto
  have labelled: "0 \<le> len ! j \<and> len ! j \<le> int n" if "(s, j) \<in> moves inst ^^ n" for j n
    using that
  proof (induction n arbitrary: j)
    case 0
    then show ?case using base unfolding bfs_base_def by simp
  next
    case (Suc n)
    then obtain i where i: "(s, i) \<in> moves inst ^^ n" "(i, j) \<in> moves inst"
      by (auto elim: relpow_Suc_E)
    then have "i < number_of_vertices inst" using moves_range [OF wf i(2)] by simp
    then have "0 \<le> len ! j \<and> len ! j \<le> len ! i + 1"
      using closed Suc.IH [OF i(1)] i(2) unfolding settled_def by blast
    then show ?case using Suc.IH [OF i(1)] by simp
  qed
  have entry: "-1 \<le> len ! k" "0 \<le> len ! k \<Longrightarrow> (s, k) \<in> moves inst ^^ nat (len ! k)"
    using base k unfolding bfs_base_def by auto
  show ?thesis
  proof (cases "0 \<le> len ! k")
    case True
    then show ?thesis using entry(2) labelled unfolding is_dist_def
      by (intro disjI2 exI [of _ "nat (len ! k)"]) fastforce
  next
    case False
    then have "(s, k) \<notin> (moves inst)\<^sup>*" using labelled by (auto simp: rtrancl_power)
    then show ?thesis using False entry(1) unfolding is_dist_def by auto
  qed
qed

theorem BFS_correct:
  assumes wf: "wf_grid inst" and free: "free_cell inst v"
  shows "\<exists>len. BFS inst (replicate (number_of_vertices inst) (-1)) v = Some len \<and>
    length len = number_of_vertices inst \<and>
    (\<forall>k < number_of_vertices inst. is_dist (moves inst) (vid inst v) k (len ! k))"
proof -
  let ?n = "number_of_vertices inst" and ?s = "vid inst v"
  let ?len = "(replicate ?n (-1))[?s := 0]"
  have s: "?s < ?n" using vid_props(1) [OF assms] .
  have entries: "?len ! k = (if k = ?s then 0 else -1)" if "k < ?n" for k
    using that by simp
  have "bfs_inv inst ?s (?len, [v])"
    using s free by (auto simp: bfs_inv_def bfs_base_def nth_list_update)
  from bfs_loop_inv [OF wf this] obtain len where
    len: "bfs_loop inst (?len, [v]) = Some len" "bfs_inv inst ?s (len, [])" by blast
  then have "length len = ?n" unfolding bfs_inv_def bfs_base_def by auto
  then show ?thesis
    using len bfs_inv_final [OF wf len(2)] by (auto simp: BFS_def vid_def [symmetric])
qed

end
