(* ===== verification/Instance.thy ===== *)
theory Instance
  imports Shortest_Paths
begin

text \<open>
  The instance object of \<open>src/src/instance.cpp\<close>: construction from data, \<open>SetAgents\<close> with its
  distance tables and lower bounds, and the timestep windows \<open>FirstTimestep\<close> and
  \<open>LastTimestep\<close> that the encodings are built on. The messages \<open>GetMksLB\<close> and \<open>GetSocLB\<close>
  print to \<open>cerr\<close> are not modelled, their error value \<open>-1\<close> is.
\<close>

section \<open>Construction\<close>

text \<open>A freshly allocated object: the vectors are empty, the scalar members are not initialised.\<close>

definition new_instance :: instance_t where
  "new_instance = \<lparr>inst_agents = [], length_from_start = [], length_from_goal = [], SP_lengths = [],
     avoid_locations = [], imap = [], height = undefined, width = undefined,
     number_of_vertices = undefined, scen_name = [], map_name = [], mks_LBs = [], soc_LBs = [],
     coord_list = [], last_number_of_agents = undefined\<rparr>"

definition vertex_of :: "int \<times> int \<Rightarrow> vertex" where
  "vertex_of p = \<lparr>vx = size_t_of (fst p), vy = size_t_of (snd p)\<rparr>"

definition init_tables :: "instance_t \<Rightarrow> instance_t" where
  "init_tables inst =
     (let n = length (inst_agents inst) in
      inst\<lparr>mks_LBs := (replicate (n + 1) (-1))[0 := 0], soc_LBs := (replicate (n + 1) (-1))[0 := 0],
           SP_lengths := replicate n 0,
           length_from_start := replicate n [], length_from_goal := replicate n []\<rparr>)"

definition LoadAgentsData :: "(int \<times> int) list \<Rightarrow> (int \<times> int) list \<Rightarrow> instance_t \<Rightarrow> instance_t" where
  "LoadAgentsData starts goals inst =
     init_tables (inst\<lparr>inst_agents := inst_agents inst @
       map (\<lambda>i. \<lparr>start = vertex_of (starts ! i), goal = vertex_of (goals ! i)\<rparr>) [0..<length starts]\<rparr>)"

definition make_instance ::
  "int list list \<Rightarrow> (int \<times> int) list \<Rightarrow> (int \<times> int) list \<Rightarrow> string \<Rightarrow> string \<Rightarrow> instance_t" where
  "make_instance map_vector starts goals scenstr mapstr =
     (LoadMapData map_vector (LoadAgentsData starts goals new_instance))
       \<lparr>last_number_of_agents := 0, scen_name := scenstr, map_name := mapstr\<rparr>"

definition LoadAvoidData :: "((int \<times> int) \<times> int) list \<Rightarrow> instance_t \<Rightarrow> instance_t" where
  "LoadAvoidData avoid inst =
     (if avoid = [] then inst
      else inst\<lparr>avoid_locations := map (\<lambda>(p, t). \<lparr>avoid_v = vertex_of p, avoid_t = t\<rparr>) avoid\<rparr>)"

section \<open>Lower bounds and windows\<close>

definition GetMksLB :: "instance_t \<Rightarrow> nat \<Rightarrow> int" where
  "GetMksLB inst ags = (if 0 \<le> mks_LBs inst ! ags then mks_LBs inst ! ags else -1)"

definition GetSocLB :: "instance_t \<Rightarrow> nat \<Rightarrow> int" where
  "GetSocLB inst ags = (if 0 \<le> soc_LBs inst ! ags then soc_LBs inst ! ags else -1)"

text \<open>\<open>map[agents[a].start.x][agents[a].start.y]\<close> and the same for the goal.\<close>

definition start_id :: "instance_t \<Rightarrow> nat \<Rightarrow> nat" where
  "start_id inst a = nat (map_at inst (start (inst_agents inst ! a)))"

definition goal_id :: "instance_t \<Rightarrow> nat \<Rightarrow> nat" where
  "goal_id inst a = nat (map_at inst (goal (inst_agents inst ! a)))"

definition set_agent :: "nat \<Rightarrow> instance_t \<Rightarrow> instance_t option" where
  "set_agent i inst =
     (let blank = replicate (number_of_vertices inst) (-1); ag = inst_agents inst ! i in
      Option.bind (BFS inst blank (start ag)) (\<lambda>from_start.
      Option.bind (BFS inst blank (goal ag)) (\<lambda>from_goal.
      let sp = from_start ! goal_id inst i in
      Some (inst\<lparr>length_from_start := (length_from_start inst)[i := from_start],
                 length_from_goal := (length_from_goal inst)[i := from_goal],
                 SP_lengths := (SP_lengths inst)[i := sp],
                 mks_LBs := (mks_LBs inst)[i + 1 := max (mks_LBs inst ! i) (sp + 1)],
                 soc_LBs := (soc_LBs inst)[i + 1 := soc_LBs inst ! i + sp + 1]\<rparr>))))"

fun set_agents_loop :: "nat list \<Rightarrow> instance_t \<Rightarrow> instance_t option" where
  "set_agents_loop [] inst = Some inst"
| "set_agents_loop (i # is) inst = Option.bind (set_agent i inst) (set_agents_loop is)"

definition SetAgents :: "nat \<Rightarrow> instance_t \<Rightarrow> instance_t option" where
  "SetAgents ags inst =
     Option.bind (set_agents_loop [last_number_of_agents inst..<ags] inst)
       (\<lambda>inst'. Some (inst'\<lparr>last_number_of_agents := ags\<rparr>))"

definition FirstTimestep :: "instance_t \<Rightarrow> nat \<Rightarrow> nat \<Rightarrow> int" where
  "FirstTimestep inst agent vertex = length_from_start inst ! agent ! vertex"

definition LastTimestep :: "instance_t \<Rightarrow> nat \<Rightarrow> nat \<Rightarrow> int \<Rightarrow> int \<Rightarrow> nat \<Rightarrow> int" where
  "LastTimestep inst agent vertex timelimit delta cost_function =
     (if cost_function = 1 then timelimit - length_from_goal inst ! agent ! vertex - 1
      else if cost_function = 2 then SP_lengths inst ! agent + delta - length_from_goal inst ! agent ! vertex
      else -1)"

section \<open>The instance invariant\<close>

definition agents_on_map :: "instance_t \<Rightarrow> bool" where
  "agents_on_map inst \<longleftrightarrow>
     (\<forall>a < length (inst_agents inst). free_cell inst (start (inst_agents inst ! a)) \<and>
        free_cell inst (goal (inst_agents inst ! a)))"

definition tables_sized :: "instance_t \<Rightarrow> bool" where
  "tables_sized inst \<longleftrightarrow>
     length (length_from_start inst) = length (inst_agents inst) \<and>
     length (length_from_goal inst) = length (inst_agents inst) \<and>
     length (SP_lengths inst) = length (inst_agents inst) \<and>
     length (mks_LBs inst) = Suc (length (inst_agents inst)) \<and>
     length (soc_LBs inst) = Suc (length (inst_agents inst)) \<and>
     mks_LBs inst ! 0 = 0 \<and> soc_LBs inst ! 0 = 0"

definition agent_prepared :: "instance_t \<Rightarrow> nat \<Rightarrow> bool" where
  "agent_prepared inst a \<longleftrightarrow>
     (\<forall>v < number_of_vertices inst.
        is_dist (moves inst) (start_id inst a) v (length_from_start inst ! a ! v) \<and>
        is_dist (moves inst) (goal_id inst a) v (length_from_goal inst ! a ! v)) \<and>
     SP_lengths inst ! a = length_from_start inst ! a ! goal_id inst a \<and>
     mks_LBs inst ! Suc a = max (mks_LBs inst ! a) (SP_lengths inst ! a + 1) \<and>
     soc_LBs inst ! Suc a = soc_LBs inst ! a + SP_lengths inst ! a + 1"

definition prepared :: "instance_t \<Rightarrow> nat \<Rightarrow> bool" where
  "prepared inst n \<longleftrightarrow>
     wf_grid inst \<and> agents_on_map inst \<and> tables_sized inst \<and>
     n \<le> length (inst_agents inst) \<and> (\<forall>a < n. agent_prepared inst a)"

lemma preparedD:
  assumes "prepared inst n" "a < n"
  shows "wf_grid inst" and "a < length (inst_agents inst)"
    and "start_id inst a < number_of_vertices inst" and "goal_id inst a < number_of_vertices inst"
    and "agent_prepared inst a"
  using assms vid_props(1) unfolding prepared_def agents_on_map_def start_id_def goal_id_def vid_def
  by auto

text \<open>What \<open>SetAgents\<close> leaves alone.\<close>

definition same_map :: "instance_t \<Rightarrow> instance_t \<Rightarrow> bool" where
  "same_map inst inst' \<longleftrightarrow>
     imap inst' = imap inst \<and> height inst' = height inst \<and> width inst' = width inst \<and>
     number_of_vertices inst' = number_of_vertices inst \<and> coord_list inst' = coord_list inst \<and>
     inst_agents inst' = inst_agents inst \<and> avoid_locations inst' = avoid_locations inst"

lemma same_map_refl [simp]: "same_map inst inst"
  by (simp add: same_map_def)

lemma same_map_trans: "same_map a b \<Longrightarrow> same_map b c \<Longrightarrow> same_map a c"
  by (simp add: same_map_def)

lemma same_map_queries:
  assumes "same_map inst inst'"
  shows "map_at inst' = map_at inst" "HasNeighborID inst' = HasNeighborID inst"
    "HasNeighbor inst' = HasNeighbor inst"
    "GetNeighbor inst' = GetNeighbor inst" "moves inst' = moves inst" "wf_grid inst' = wf_grid inst"
    "free_cell inst' = free_cell inst" "start_id inst' = start_id inst" "goal_id inst' = goal_id inst"
    "agents_on_map inst' = agents_on_map inst" "IDtoCoords inst' = IDtoCoords inst"
proof -
  show m: "map_at inst' = map_at inst" using assms by (simp add: fun_eq_iff same_map_def map_at_def)
  show c: "IDtoCoords inst' = IDtoCoords inst"
    using assms by (simp add: fun_eq_iff same_map_def IDtoCoords_def)
  show n: "HasNeighbor inst' = HasNeighbor inst"
    using assms by (simp add: fun_eq_iff same_map_def HasNeighbor_def)
  show h: "HasNeighborID inst' = HasNeighborID inst"
    by (simp add: fun_eq_iff HasNeighborID_def n c)
  show g: "GetNeighbor inst' = GetNeighbor inst"
    using assms by (simp add: fun_eq_iff GetNeighbor_def c Let_def same_map_def)
  show "moves inst' = moves inst" using assms by (simp add: moves_def h g same_map_def)
  show "wf_grid inst' = wf_grid inst" using assms by (simp add: wf_grid_def m same_map_def)
  show f: "free_cell inst' = free_cell inst"
    using assms by (simp add: fun_eq_iff free_cell_def m same_map_def)
  show "start_id inst' = start_id inst" "goal_id inst' = goal_id inst"
    using assms by (simp_all add: fun_eq_iff start_id_def goal_id_def m same_map_def)
  show "agents_on_map inst' = agents_on_map inst"
    using assms by (simp add: agents_on_map_def f same_map_def)
qed

lemma agent_prepared_cong:
  assumes "same_map inst inst'"
    and "length_from_start inst' ! a = length_from_start inst ! a"
    and "length_from_goal inst' ! a = length_from_goal inst ! a"
    and "SP_lengths inst' ! a = SP_lengths inst ! a"
    and "mks_LBs inst' ! a = mks_LBs inst ! a" "mks_LBs inst' ! Suc a = mks_LBs inst ! Suc a"
    and "soc_LBs inst' ! a = soc_LBs inst ! a" "soc_LBs inst' ! Suc a = soc_LBs inst ! Suc a"
  shows "agent_prepared inst' a = agent_prepared inst a"
  using assms(2-) same_map_queries [OF assms(1)] assms(1)
  by (simp add: agent_prepared_def same_map_def)

section \<open>SetAgents\<close>

lemma set_agent_prepared:
  assumes prep: "prepared inst i" and i: "i < length (inst_agents inst)"
  shows "\<exists>inst'. set_agent i inst = Some inst' \<and> prepared inst' (Suc i) \<and> same_map inst inst' \<and>
    last_number_of_agents inst' = last_number_of_agents inst"
proof -
  let ?n = "number_of_vertices inst" and ?ag = "inst_agents inst ! i"
  have wf: "wf_grid inst" and sized: "tables_sized inst"
    and free: "free_cell inst (start ?ag)" "free_cell inst (goal ?ag)"
    using prep i unfolding prepared_def agents_on_map_def by auto
  obtain fs where fs: "BFS inst (replicate ?n (-1)) (start ?ag) = Some fs"
    "\<forall>k < ?n. is_dist (moves inst) (start_id inst i) k (fs ! k)"
    using BFS_correct [OF wf free(1)] by (auto simp: start_id_def vid_def)
  obtain fg where fg: "BFS inst (replicate ?n (-1)) (goal ?ag) = Some fg"
    "\<forall>k < ?n. is_dist (moves inst) (goal_id inst i) k (fg ! k)"
    using BFS_correct [OF wf free(2)] by (auto simp: goal_id_def vid_def)
  let ?sp = "fs ! goal_id inst i"
  let ?inst = "inst\<lparr>length_from_start := (length_from_start inst)[i := fs],
      length_from_goal := (length_from_goal inst)[i := fg], SP_lengths := (SP_lengths inst)[i := ?sp],
      mks_LBs := (mks_LBs inst)[i + 1 := max (mks_LBs inst ! i) (?sp + 1)],
      soc_LBs := (soc_LBs inst)[i + 1 := soc_LBs inst ! i + ?sp + 1]\<rparr>"
  have eq: "set_agent i inst = Some ?inst"
    using fs fg by (simp add: set_agent_def Let_def)
  have same: "same_map inst ?inst" by (simp add: same_map_def)
  have old: "agent_prepared ?inst a" if "a < i" for a
    using prep that agent_prepared_cong [OF same, of a] unfolding prepared_def by simp
  have new: "agent_prepared ?inst i"
    using fs(2) fg(2) sized i same_map_queries [OF same]
    by (simp add: agent_prepared_def tables_sized_def)
  have "agent_prepared ?inst a" if "a < Suc i" for a
    using that old new by (cases "a = i") auto
  then have "prepared ?inst (Suc i)"
    using prep i sized same_map_queries [OF same] unfolding prepared_def tables_sized_def by simp
  with eq same show ?thesis by simp
qed

lemma set_agents_loop_prepared:
  "prepared inst i \<Longrightarrow> i \<le> n \<Longrightarrow> n \<le> length (inst_agents inst) \<Longrightarrow>
   \<exists>inst'. set_agents_loop [i..<n] inst = Some inst' \<and> prepared inst' n \<and> same_map inst inst'"
proof (induction "n - i" arbitrary: i inst)
  case 0
  then show ?case by simp
next
  case (Suc d)
  then have i: "i < n" by simp
  obtain inst1 where 1: "set_agent i inst = Some inst1" "prepared inst1 (Suc i)" "same_map inst inst1"
    using set_agent_prepared [OF Suc.prems(1)] i Suc.prems(3) by auto
  have "\<exists>inst'. set_agents_loop [Suc i..<n] inst1 = Some inst' \<and> prepared inst' n \<and> same_map inst1 inst'"
    using Suc.hyps(2) 1(2,3) i Suc.prems(3) by (intro Suc.hyps(1)) (auto simp: same_map_def)
  then show ?case using 1 i same_map_trans by (auto simp: upt_conv_Cons)
qed

lemma set_agents_loop_append:
  "set_agents_loop (is @ js) inst = Option.bind (set_agents_loop is inst) (set_agents_loop js)"
  by (induction "is" arbitrary: inst) (auto simp: bind_eq_None_conv split: bind_splits)

lemma prepared_mono: "prepared inst n \<Longrightarrow> m \<le> n \<Longrightarrow> prepared inst m"
  by (auto simp: prepared_def)

lemma prepared_last [simp]: "prepared (inst\<lparr>last_number_of_agents := k\<rparr>) n = prepared inst n"
proof -
  have same: "same_map inst (inst\<lparr>last_number_of_agents := k\<rparr>)" by (simp add: same_map_def)
  show ?thesis
    using same_map_queries [OF same]
    by (simp add: prepared_def tables_sized_def agent_prepared_def)
qed

lemma SetAgents_prepared:
  assumes "prepared inst (last_number_of_agents inst)" "n \<le> length (inst_agents inst)"
  shows "\<exists>inst'. SetAgents n inst = Some inst' \<and> prepared inst' n \<and> same_map inst inst' \<and>
    last_number_of_agents inst' = n"
proof (cases "last_number_of_agents inst \<le> n")
  case True
  obtain inst' where "set_agents_loop [last_number_of_agents inst..<n] inst = Some inst'"
    "prepared inst' n" "same_map inst inst'"
    using set_agents_loop_prepared [OF assms(1) True assms(2)] by blast
  then show ?thesis by (auto simp: SetAgents_def same_map_def)
next
  case False
  then show ?thesis using prepared_mono [OF assms(1), of n] by (auto simp: SetAgents_def same_map_def)
qed

text \<open>
  Growing the number of agents step by step, as \<open>main\<close> does with option \<open>-i\<close>, computes the same
  tables as one call.
\<close>

lemma set_agents_loop_last:
  "set_agents_loop is inst = Some inst' \<Longrightarrow> last_number_of_agents inst' = last_number_of_agents inst"
proof (induction "is" arbitrary: inst)
  case (Cons i "is")
  then obtain inst1 where "set_agent i inst = Some inst1" "set_agents_loop is inst1 = Some inst'"
    by (auto split: bind_splits)
  with Cons.IH show ?case by (fastforce simp: set_agent_def Let_def split: bind_splits)
qed simp

lemma bfs_loop_cong_Some:
  assumes eq: "bfs_expand inst' = bfs_expand inst" and ret: "bfs_loop inst st = Some r"
  shows "bfs_loop inst' st = Some r"
proof -
  have "bfs_expand inst' = bfs_expand inst \<longrightarrow> bfs_loop inst' st = Some r"
  proof (rule bfs_loop.raw_induct [where P = "\<lambda>i st r. bfs_expand inst' = bfs_expand i \<longrightarrow> bfs_loop inst' st = Some r",
        OF _ ret])
    fix f i st r
    assume IH: "\<And>i st r. f i st = Some r \<Longrightarrow> bfs_expand inst' = bfs_expand i \<longrightarrow> bfs_loop inst' st = Some r"
      and step: "(case snd st of [] \<Rightarrow> Some (fst st) | v # que \<Rightarrow> f i (bfs_expand i v (fst st, que))) = Some r"
    show "bfs_expand inst' = bfs_expand i \<longrightarrow> bfs_loop inst' st = Some r"
    proof
      assume "bfs_expand inst' = bfs_expand i"
      then show "bfs_loop inst' st = Some r"
        using step IH by (subst bfs_loop.simps) (auto split: list.splits)
    qed
  qed
  with eq show ?thesis by simp
qed

lemma bfs_loop_cong:
  assumes eq: "bfs_expand inst' = bfs_expand inst"
  shows "bfs_loop inst' st = bfs_loop inst st"
proof (cases "bfs_loop inst st")
  case None
  then show ?thesis using bfs_loop_cong_Some [OF eq [symmetric], of st] by (cases "bfs_loop inst' st") auto
next
  case (Some r)
  then show ?thesis using bfs_loop_cong_Some [OF eq] by simp
qed

lemma set_agent_ignores_last:
  "set_agent i (inst\<lparr>last_number_of_agents := k\<rparr>) =
     map_option (\<lambda>inst'. inst'\<lparr>last_number_of_agents := k\<rparr>) (set_agent i inst)"
proof -
  have same: "same_map inst (inst\<lparr>last_number_of_agents := k\<rparr>)" by (simp add: same_map_def)
  have visit: "bfs_visit (inst\<lparr>last_number_of_agents := k\<rparr>) = bfs_visit inst"
    using same_map_queries [OF same] by (simp add: fun_eq_iff bfs_visit_def)
  have expand: "bfs_expand (inst\<lparr>last_number_of_agents := k\<rparr>) = bfs_expand inst"
    by (simp add: fun_eq_iff bfs_expand_def visit)
  have "bfs_loop (inst\<lparr>last_number_of_agents := k\<rparr>) st = bfs_loop inst st" for st
    by (rule bfs_loop_cong [OF expand])
  then have "BFS (inst\<lparr>last_number_of_agents := k\<rparr>) = BFS inst"
    using same_map_queries [OF same] by (simp add: fun_eq_iff BFS_def)
  then show ?thesis
    using same_map_queries [OF same]
    by (auto simp: set_agent_def Let_def split: bind_splits)
qed

lemma set_agents_loop_ignores_last:
  "set_agents_loop is (inst\<lparr>last_number_of_agents := k\<rparr>) =
     map_option (\<lambda>inst'. inst'\<lparr>last_number_of_agents := k\<rparr>) (set_agents_loop is inst)"
proof (induction "is" arbitrary: inst)
  case (Cons i "is")
  show ?case
  proof (cases "set_agent i inst")
    case None
    then show ?thesis by (simp add: set_agent_ignores_last)
  next
    case (Some inst1)
    then show ?thesis using Cons.IH [of inst1] by (simp add: set_agent_ignores_last)
  qed
qed simp

theorem SetAgents_incremental:
  assumes "last_number_of_agents inst \<le> m" "m \<le> n"
  shows "Option.bind (SetAgents m inst) (SetAgents n) = SetAgents n inst"
proof -
  have split: "[last_number_of_agents inst..<n] = [last_number_of_agents inst..<m] @ [m..<n]"
    using assms upt_add_eq_append [of "last_number_of_agents inst" m "n - m"] by simp
  show ?thesis
  proof (cases "set_agents_loop [last_number_of_agents inst..<m] inst")
    case None
    then show ?thesis by (simp add: SetAgents_def split set_agents_loop_append)
  next
    case (Some inst1)
    then show ?thesis
      by (cases "set_agents_loop [m..<n] inst1")
        (simp_all add: SetAgents_def split set_agents_loop_append set_agents_loop_ignores_last)
  qed
qed

section \<open>The lower bounds\<close>

lemma mks_LB_Max:
  "prepared inst n \<Longrightarrow> k \<le> n \<Longrightarrow> mks_LBs inst ! k = Max (insert 0 ((\<lambda>a. SP_lengths inst ! a + 1) ` {..<k}))"
proof (induction k)
  case 0
  then show ?case by (simp add: prepared_def tables_sized_def)
next
  case (Suc k)
  then have "mks_LBs inst ! Suc k = max (mks_LBs inst ! k) (SP_lengths inst ! k + 1)"
    by (simp add: prepared_def agent_prepared_def)
  moreover have "insert 0 ((\<lambda>a. SP_lengths inst ! a + 1) ` {..<Suc k}) =
      insert (SP_lengths inst ! k + 1) (insert 0 ((\<lambda>a. SP_lengths inst ! a + 1) ` {..<k}))"
    by (auto simp: lessThan_Suc)
  ultimately show ?case using Suc by (simp add: max.commute)
qed

lemma soc_LB_sum:
  "prepared inst n \<Longrightarrow> k \<le> n \<Longrightarrow> soc_LBs inst ! k = (\<Sum>a<k. SP_lengths inst ! a + 1)"
proof (induction k)
  case 0
  then show ?case by (simp add: prepared_def tables_sized_def)
next
  case (Suc k)
  then show ?case by (simp add: prepared_def agent_prepared_def)
qed

lemma SP_length_dist:
  assumes "prepared inst n" "a < n"
  shows "is_dist (moves inst) (start_id inst a) (goal_id inst a) (SP_lengths inst ! a)"
  using preparedD [OF assms] by (simp add: agent_prepared_def)

lemma soc_LB_nonneg:
  assumes "prepared inst n" "k \<le> n"
  shows "0 \<le> soc_LBs inst ! k"
proof -
  have "0 \<le> SP_lengths inst ! a + 1" if "a < k" for a
    using is_dist_ge [OF SP_length_dist [OF assms(1)], of a] that assms(2) by simp
  then have "0 \<le> (\<Sum>a<k. SP_lengths inst ! a + 1)" by (intro sum_nonneg) simp
  then show ?thesis using soc_LB_sum [OF assms] by simp
qed

lemma mks_LB_nonneg: "prepared inst n \<Longrightarrow> k \<le> n \<Longrightarrow> 0 \<le> mks_LBs inst ! k"
  by (simp add: mks_LB_Max Max_ge_iff)

lemma mks_LB_ge:
  assumes "prepared inst n" "a < n"
  shows "SP_lengths inst ! a + 1 \<le> GetMksLB inst n"
proof -
  have "SP_lengths inst ! a + 1 \<le> mks_LBs inst ! n"
    using assms unfolding mks_LB_Max [OF assms(1) order_refl] by (intro Max_ge) auto
  moreover have "0 \<le> mks_LBs inst ! n" using mks_LB_nonneg [OF assms(1)] by simp
  ultimately show ?thesis by (simp add: GetMksLB_def)
qed

section \<open>Construction establishes the invariant\<close>

definition cell_in :: "int list list \<Rightarrow> int \<times> int \<Rightarrow> bool" where
  "cell_in mv p \<longleftrightarrow>
     0 \<le> fst p \<and> fst p < int (length mv) \<and> 0 \<le> snd p \<and> snd p < int (length (mv ! 0)) \<and>
     mv ! nat (fst p) ! nat (snd p) \<noteq> -1"

definition input_ok :: "int list list \<Rightarrow> (int \<times> int) list \<Rightarrow> (int \<times> int) list \<Rightarrow> bool" where
  "input_ok mv starts goals \<longleftrightarrow>
     map_vector_ok mv \<and> length mv < 2 ^ 64 \<and> length (mv ! 0) < 2 ^ 64 \<and>
     length starts \<le> length goals \<and>
     (\<forall>i < length starts. cell_in mv (starts ! i) \<and> cell_in mv (goals ! i))"

lemma LoadMapData_free:
  assumes ok: "map_vector_ok mv" and empty: "coord_list inst = []"
    and len: "length mv < 2 ^ 64" "length (mv ! 0) < 2 ^ 64" and p: "cell_in mv p"
  shows "free_cell (LoadMapData mv inst) (vertex_of p)"
proof -
  let ?g = "LoadMapData mv inst"
  let ?v = "\<lparr>vx = nat (fst p), vy = nat (snd p)\<rparr>"
  have v: "vertex_of p = ?v"
    using p len by (simp add: vertex_of_def cell_in_def size_t_of_nonneg)
  have "(nat (fst p), nat (snd p)) \<in> set (filter (\<lambda>(i, j). mv ! i ! j \<noteq> -1) (grid_cells (length mv) (length (mv ! 0))))"
    using p by (auto simp: cell_in_def grid_simps)
  then have "?v \<in> set (coord_list ?g)"
    unfolding LoadMapData_coords [OF ok empty] by force
  then obtain k where "k < number_of_vertices ?g" "IDtoCoords ?g k = ?v"
    using wf_gridD(3) [OF LoadMapData_wf [OF ok empty]] by (auto simp: in_set_conv_nth IDtoCoords_def)
  then show ?thesis using coords_free(1) [OF LoadMapData_wf [OF ok empty]] v by metis
qed

lemma fold_load_cell_tables:
  "length_from_start (fold load_cell cs inst) = length_from_start inst"
  "length_from_goal (fold load_cell cs inst) = length_from_goal inst"
  "SP_lengths (fold load_cell cs inst) = SP_lengths inst"
  "mks_LBs (fold load_cell cs inst) = mks_LBs inst" "soc_LBs (fold load_cell cs inst) = soc_LBs inst"
  by (induction cs arbitrary: inst) (simp_all add: load_cell_def split: prod.split)

lemma LoadMapData_tables:
  "length_from_start (LoadMapData mv inst) = length_from_start inst"
  "length_from_goal (LoadMapData mv inst) = length_from_goal inst"
  "SP_lengths (LoadMapData mv inst) = SP_lengths inst"
  "mks_LBs (LoadMapData mv inst) = mks_LBs inst" "soc_LBs (LoadMapData mv inst) = soc_LBs inst"
  by (simp_all add: LoadMapData_def Let_def fold_load_cell_tables)

lemma make_instance_prepared:
  assumes ok: "input_ok mv starts goals"
  shows "prepared (make_instance mv starts goals sc mp) 0"
    and "length (inst_agents (make_instance mv starts goals sc mp)) = length starts"
    and "last_number_of_agents (make_instance mv starts goals sc mp) = 0"
proof -
  let ?i = "LoadAgentsData starts goals new_instance" and ?m = "make_instance mv starts goals sc mp"
  have empty: "coord_list ?i = []" by (simp add: LoadAgentsData_def init_tables_def new_instance_def Let_def)
  have mv: "map_vector_ok mv" and len: "length mv < 2 ^ 64" "length (mv ! 0) < 2 ^ 64"
    using ok unfolding input_ok_def by auto
  have same: "same_map (LoadMapData mv ?i) ?m" by (simp add: make_instance_def same_map_def)
  have ags: "inst_agents ?m = map (\<lambda>i. \<lparr>start = vertex_of (starts ! i), goal = vertex_of (goals ! i)\<rparr>) [0..<length starts]"
    by (simp add: make_instance_def frame_simps LoadAgentsData_def init_tables_def new_instance_def Let_def)
  then show "length (inst_agents ?m) = length starts" by simp
  have wf: "wf_grid ?m"
    using LoadMapData_wf [OF mv empty] same_map_queries [OF same] by simp
  have "agents_on_map ?m"
    using ok LoadMapData_free [OF mv empty len] same_map_queries [OF same] ags
    by (auto simp: agents_on_map_def input_ok_def)
  moreover have "tables_sized ?m"
    unfolding tables_sized_def make_instance_def LoadAgentsData_def init_tables_def
    by (simp add: LoadMapData_tables new_instance_def Let_def frame_simps)
  ultimately show "prepared ?m 0" using wf by (simp add: prepared_def)
  show "last_number_of_agents ?m = 0" by (simp add: make_instance_def)
qed

end
