(* ===== verification/Windows.thy ===== *)
theory Windows
  imports Instance
begin

text \<open>
  The interface between the instance and the encodings. An encoding only asks in which timesteps an
  agent can be at a vertex: from \<open>FirstTimestep\<close> to \<open>LastTimestep\<close>. The locale \<open>windows\<close> states the
  laws these two tables obey for both cost functions; the encodings' correctness rests on its
  lemmas, and the interpretation at the end discharges the laws for the code's tables.
\<close>

locale windows =
  fixes invar :: "'w \<Rightarrow> bool"
    and nags :: "'w \<Rightarrow> nat"
    and nverts :: "'w \<Rightarrow> nat"
    and step :: "'w \<Rightarrow> (nat \<times> nat) set"
    and src :: "'w \<Rightarrow> nat \<Rightarrow> nat"
    and dst :: "'w \<Rightarrow> nat \<Rightarrow> nat"
    and first :: "'w \<Rightarrow> nat \<Rightarrow> nat \<Rightarrow> int"
    and last :: "'w \<Rightarrow> nat \<Rightarrow> nat \<Rightarrow> int"
    and fin :: "'w \<Rightarrow> nat \<Rightarrow> int"
  assumes src_vertex: "invar w \<Longrightarrow> a < nags w \<Longrightarrow> src w a < nverts w"
    and dst_vertex: "invar w \<Longrightarrow> a < nags w \<Longrightarrow> dst w a < nverts w"
    and step_vertex: "invar w \<Longrightarrow> (u, v) \<in> step w \<Longrightarrow> u < nverts w \<and> v < nverts w"
    and first_src: "invar w \<Longrightarrow> a < nags w \<Longrightarrow> first w a (src w a) = 0"
    and last_dst: "invar w \<Longrightarrow> a < nags w \<Longrightarrow> last w a (dst w a) = fin w a"
    and first_dst: "invar w \<Longrightarrow> a < nags w \<Longrightarrow> 0 \<le> first w a (dst w a) \<and> first w a (dst w a) \<le> fin w a"
    and first_step: "invar w \<Longrightarrow> a < nags w \<Longrightarrow> (u, v) \<in> step w \<Longrightarrow> 0 \<le> first w a u \<Longrightarrow>
      0 \<le> first w a v \<and> first w a v \<le> first w a u + 1"
    and last_step: "invar w \<Longrightarrow> a < nags w \<Longrightarrow> (u, v) \<in> step w \<Longrightarrow> 0 \<le> first w a v \<Longrightarrow>
      last w a v \<le> last w a u + 1"
    and last_closer: "invar w \<Longrightarrow> a < nags w \<Longrightarrow> v < nverts w \<Longrightarrow> 0 \<le> first w a v \<Longrightarrow> v \<noteq> dst w a \<Longrightarrow>
      \<exists>u. (v, u) \<in> step w \<and> last w a u = last w a v + 1"
    and last_fin: "invar w \<Longrightarrow> a < nags w \<Longrightarrow> v < nverts w \<Longrightarrow> 0 \<le> first w a v \<Longrightarrow>
      last w a v \<le> fin w a \<and> (last w a v = fin w a \<longrightarrow> v = dst w a)"
    and step_back: "invar w \<Longrightarrow> (u, v) \<in> step w \<Longrightarrow> (v, u) \<in> step w"
begin

text \<open>An agent that has time left can wait or step so that it still reaches its goal.\<close>

lemma progress:
  assumes inv: "invar w" "a < nags w" and v: "v < nverts w" "0 \<le> first w a v"
    and t: "first w a v \<le> t" "t \<le> last w a v" "t < fin w a"
  shows "\<exists>u. (u = v \<or> (v, u) \<in> step w) \<and> first w a u \<le> t + 1 \<and> t + 1 \<le> last w a u"
proof (cases "v = dst w a")
  case True
  then show ?thesis using last_dst [OF inv] t by (intro exI [of _ v]) auto
next
  case False
  obtain u where u: "(v, u) \<in> step w" "last w a u = last w a v + 1"
    using last_closer [OF inv v False] by blast
  then show ?thesis using first_step [OF inv u(1) v(2)] t by (intro exI [of _ u]) auto
qed

text \<open>At its final timestep an agent can only be at its goal.\<close>

lemma arrived:
  "invar w \<Longrightarrow> a < nags w \<Longrightarrow> v < nverts w \<Longrightarrow> 0 \<le> first w a v \<Longrightarrow> fin w a \<le> last w a v \<Longrightarrow> v = dst w a"
  using last_fin by (meson order_antisym)

text \<open>Waiting and stepping stay in the part of the map the agent can reach.\<close>

lemma reach_step:
  "invar w \<Longrightarrow> a < nags w \<Longrightarrow> u = v \<or> (v, u) \<in> step w \<Longrightarrow> 0 \<le> first w a v \<Longrightarrow> 0 \<le> first w a u"
  using first_step by blast

text \<open>Every trajectory from source to goal stays inside the windows.\<close>

lemma path_first:
  assumes inv: "invar w" "a < nags w" and p0: "p 0 = src w a"
    and p: "\<And>t. t < n \<Longrightarrow> p (Suc t) = p t \<or> (p t, p (Suc t)) \<in> step w"
  shows "t \<le> n \<Longrightarrow> 0 \<le> first w a (p t) \<and> first w a (p t) \<le> int t \<and> p t < nverts w"
proof (induction t)
  case 0
  then show ?case using first_src [OF inv] src_vertex [OF inv] p0 by simp
next
  case (Suc t)
  then have IH: "0 \<le> first w a (p t)" "first w a (p t) \<le> int t" "p t < nverts w" by auto
  consider "p (Suc t) = p t" | "(p t, p (Suc t)) \<in> step w" using p [of t] Suc.prems by auto
  then show ?case
  proof cases
    case 1
    then show ?thesis using IH by simp
  next
    case 2
    then show ?thesis using first_step [OF inv 2 IH(1)] IH step_vertex [OF inv(1) 2] by simp
  qed
qed

lemma path_last:
  assumes inv: "invar w" "a < nags w" and p0: "p 0 = src w a"
    and p: "\<And>t. t < n \<Longrightarrow> p (Suc t) = p t \<or> (p t, p (Suc t)) \<in> step w"
    and pn: "p n = dst w a"
  shows "t \<le> n \<Longrightarrow> fin w a - int (n - t) \<le> last w a (p t)"
proof (induction "n - t" arbitrary: t)
  case 0
  then show ?case using last_dst [OF inv] pn by simp
next
  case (Suc d)
  then have t: "t < n" by simp
  have IH: "fin w a - int (n - Suc t) \<le> last w a (p (Suc t))"
    using Suc.hyps(1) [of "Suc t"] Suc.hyps(2) t by simp
  have nonneg: "0 \<le> first w a (p (Suc t))"
    using path_first [where p = p and n = n and t = "Suc t", OF inv p0 p] t by simp
  consider "p (Suc t) = p t" | "(p t, p (Suc t)) \<in> step w" using p t by blast
  then have "last w a (p (Suc t)) \<le> last w a (p t) + 1"
    using last_step [OF inv _ nonneg] by cases auto
  with IH t show ?case by simp
qed

end

section \<open>The tables of the instance obey the laws\<close>

text \<open>
  A window configuration: the instance, the number of agents, the number of timesteps of the
  formula, the extra cost \<open>delta\<close> and the cost function (1 makespan, 2 sum of costs).
\<close>

record window_cfg =
  w_inst :: instance_t
  w_agents :: nat
  w_timesteps :: int
  w_delta :: int
  w_cost :: nat

definition cfg_fin :: "window_cfg \<Rightarrow> nat \<Rightarrow> int" where
  "cfg_fin w a = (if w_cost w = 1 then w_timesteps w - 1 else SP_lengths (w_inst w) ! a + w_delta w)"

definition cfg_first :: "window_cfg \<Rightarrow> nat \<Rightarrow> nat \<Rightarrow> int" where
  "cfg_first w a v = FirstTimestep (w_inst w) a v"

definition cfg_last :: "window_cfg \<Rightarrow> nat \<Rightarrow> nat \<Rightarrow> int" where
  "cfg_last w a v = LastTimestep (w_inst w) a v (w_timesteps w) (w_delta w) (w_cost w)"

definition cfg_ok :: "window_cfg \<Rightarrow> bool" where
  "cfg_ok w \<longleftrightarrow>
     prepared (w_inst w) (w_agents w) \<and> w_cost w \<in> {1, 2} \<and>
     (\<forall>a < w_agents w. 0 \<le> SP_lengths (w_inst w) ! a \<and> SP_lengths (w_inst w) ! a \<le> cfg_fin w a)"

lemma cfg_last_eq:
  "cfg_ok w \<Longrightarrow> cfg_last w a v = cfg_fin w a - length_from_goal (w_inst w) ! a ! v"
  by (auto simp: cfg_ok_def cfg_last_def cfg_fin_def LastTimestep_def)

text \<open>The distance tables of one agent, and what it means for a vertex to be in reach.\<close>

lemma cfg_tables:
  assumes "cfg_ok w" "a < w_agents w" "v < number_of_vertices (w_inst w)"
  shows "is_dist (moves (w_inst w)) (start_id (w_inst w) a) v (cfg_first w a v)"
    and "is_dist (moves (w_inst w)) (goal_id (w_inst w) a) v (length_from_goal (w_inst w) ! a ! v)"
  using preparedD(5) [of "w_inst w" "w_agents w" a] assms
  by (auto simp: cfg_ok_def agent_prepared_def cfg_first_def FirstTimestep_def)

lemma cfg_reach:
  assumes ok: "cfg_ok w" and a: "a < w_agents w" and v: "v < number_of_vertices (w_inst w)"
    and reach: "0 \<le> cfg_first w a v"
  shows "0 \<le> length_from_goal (w_inst w) ! a ! v"
proof -
  let ?R = "moves (w_inst w)" and ?s = "start_id (w_inst w) a" and ?g = "goal_id (w_inst w) a"
  have prep: "prepared (w_inst w) (w_agents w)" and sp: "0 \<le> SP_lengths (w_inst w) ! a"
    using ok a by (auto simp: cfg_ok_def)
  have sv: "(?s, v) \<in> ?R\<^sup>*" using is_dist_reach [OF cfg_tables(1) [OF ok a v]] reach by simp
  have "(?s, ?g) \<in> ?R\<^sup>*" using is_dist_reach [OF SP_length_dist [OF prep a]] sp by simp
  moreover have "sym (?R\<^sup>*)" using moves_sym [OF preparedD(1) [OF prep a]] by (rule sym_rtrancl)
  ultimately have "(?g, v) \<in> ?R\<^sup>*" using sv by (meson rtrancl_trans symD)
  then show ?thesis using is_dist_reach [OF cfg_tables(2) [OF ok a v]] by simp
qed

interpretation win: windows cfg_ok w_agents "\<lambda>w. number_of_vertices (w_inst w)" "\<lambda>w. moves (w_inst w)"
  "\<lambda>w. start_id (w_inst w)" "\<lambda>w. goal_id (w_inst w)" cfg_first cfg_last cfg_fin
proof (unfold_locales, goal_cases)
  case (1 w a)
  then show ?case using preparedD(3) by (auto simp: cfg_ok_def)
next
  case (2 w a)
  then show ?case using preparedD(4) by (auto simp: cfg_ok_def)
next
  case (3 w u v)
  then show ?case using moves_range by (auto simp: cfg_ok_def prepared_def)
next
  case (4 w a)
  have "start_id (w_inst w) a < number_of_vertices (w_inst w)"
    using 4 preparedD(3) by (auto simp: cfg_ok_def)
  from is_dist_self [OF cfg_tables(1) [OF 4 this]] show ?case .
next
  case (5 w a)
  have "goal_id (w_inst w) a < number_of_vertices (w_inst w)"
    using 5 preparedD(4) by (auto simp: cfg_ok_def)
  from is_dist_self [OF cfg_tables(2) [OF 5 this]] show ?case using cfg_last_eq [OF 5(1)] by simp
next
  case (6 w a)
  then have "cfg_first w a (goal_id (w_inst w) a) = SP_lengths (w_inst w) ! a"
    using preparedD(5) by (auto simp: cfg_ok_def agent_prepared_def cfg_first_def FirstTimestep_def)
  then show ?case using 6 by (auto simp: cfg_ok_def)
next
  case (7 w a u v)
  have wf: "wf_grid (w_inst w)" using 7(1) by (auto simp: cfg_ok_def prepared_def)
  have "u < number_of_vertices (w_inst w)" "v < number_of_vertices (w_inst w)"
    using moves_range [OF wf 7(3)] by auto
  with is_dist_step [OF cfg_tables(1) cfg_tables(1) 7(4,3)] 7(1,2) show ?case by blast
next
  case (8 w a u v)
  have wf: "wf_grid (w_inst w)" using 8(1) by (auto simp: cfg_ok_def prepared_def)
  have uv: "u < number_of_vertices (w_inst w)" "v < number_of_vertices (w_inst w)"
    using moves_range [OF wf 8(3)] by auto
  have "(v, u) \<in> moves (w_inst w)" using moves_sym [OF wf] 8(3) by (auto dest: symD)
  from is_dist_step [OF cfg_tables(2) [OF 8(1,2) uv(2)] cfg_tables(2) [OF 8(1,2) uv(1)]
      cfg_reach [OF 8(1,2) uv(2) 8(4)] this]
  show ?case using cfg_last_eq [OF 8(1)] by simp
next
  case (9 w a v)
  have wf: "wf_grid (w_inst w)" using 9(1) by (auto simp: cfg_ok_def prepared_def)
  let ?d = "length_from_goal (w_inst w) ! a ! v"
  have d: "is_dist (moves (w_inst w)) (goal_id (w_inst w) a) v ?d" "0 \<le> ?d"
    using cfg_tables(2) [OF 9(1-3)] cfg_reach [OF 9(1-4)] by auto
  then have "0 < ?d" using is_dist_zero 9(5) by (metis order_le_less)
  from is_dist_pred [OF d(1) this] obtain u where u: "(u, v) \<in> moves (w_inst w)"
    "is_dist (moves (w_inst w)) (goal_id (w_inst w) a) u (?d - 1)" by blast
  have "length_from_goal (w_inst w) ! a ! u = ?d - 1"
    using is_dist_unique [OF cfg_tables(2) [OF 9(1,2)] u(2)] moves_range [OF wf u(1)] by simp
  then show ?case
    using u(1) moves_sym [OF wf] cfg_last_eq [OF 9(1)] by (auto dest: symD intro!: exI [of _ u])
next
  case (10 w a v)
  have "0 \<le> length_from_goal (w_inst w) ! a ! v" using cfg_reach [OF 10] .
  moreover have "v = goal_id (w_inst w) a" if "length_from_goal (w_inst w) ! a ! v = 0"
    using is_dist_zero cfg_tables(2) [OF 10(1-3)] that by metis
  ultimately show ?case using cfg_last_eq [OF 10(1)] by auto
next
  case (11 w u v)
  then show ?case using moves_sym by (auto simp: cfg_ok_def prepared_def dest: symD)
qed

end
