(* ===== verification/Solver_State.thy ===== *)
theory Solver_State
  imports Instance
begin

text \<open>
  The solver object of \<open>src/src/encodings/solver_common.hpp\<close>: its members, \<open>SetData\<close>, the counters,
  \<open>AddClause\<close> of both back ends, \<open>TimesUp\<close>, \<open>ReleaseSolver\<close> and \<open>CleanUp\<close>. A pointer member is
  an option (\<open>None\<close> is \<open>NULL\<close>); the SAT solver behind \<open>SAT_solver\<close> is represented by the clauses it
  has been given. The text collected in \<open>cnf_printable\<close> is kept as a list of its lines.
\<close>

section \<open>Data\<close>

record teg_agent =
  first_variable :: int
  first_timestep :: int
  last_timestep :: int

record shift_t =
  first_varaible :: int
  timestep :: "int list"

text \<open>The lines the solver prints: clauses, and the graph commands of the Monosat input.\<close>

datatype cnf_line =
    ClauseLine clause
  | DigraphLine nat
  | EdgeLine nat int int int
  | ReachLine nat int int int

datatype solver_class = MAPFSAT_SAT | MAPFSAT_SMT

record logger =
  log_map_name :: string
  log_scen_name :: string
  log_encoding :: string
  solution_mks :: int
  solution_soc :: int
  building_time :: int
  solving_time :: int
  log_nr_vars :: int
  log_nr_clauses :: int
  log_nr_clauses_move :: int
  log_nr_clauses_dupli :: int
  log_nr_clauses_conflict :: int
  log_nr_clauses_soc :: int
  log_nr_clauses_unit :: int
  log_solver_calls :: int
  log_agents :: nat
  mksLB :: int
  socLB :: int
  log_res :: int
  log_file :: string
  print_type :: int

record solver =
  class_of :: solver_class
  inst :: instance_t
  solver_log :: logger
  solver_name :: string
  variables :: nat
  cost_function :: nat
  movement :: nat
  lazy_const :: nat
  timeout :: int
  cnf_file :: string
  quiet :: bool
  print_plan :: bool
  use_avoid :: bool
  keep_plan :: bool
  solver_to_use :: nat
  duplicates :: nat
  agents :: nat
  vertices :: nat
  delta :: int
  max_timestep :: int
  cnf_printable :: "cnf_line list"
  at :: "teg_agent list list option"
  pass :: "teg_agent list list list option"
  shift :: "shift_t list list option"
  shift_times_start :: "int list option"
  shift_times_end :: "int list option"
  at_vars :: int
  nr_vars :: int
  nr_clauses :: int
  nr_clauses_move :: int
  nr_clauses_dupli :: int
  nr_clauses_conflict :: int
  nr_clauses_soc :: int
  nr_clauses_unit :: int
  solver_calls :: int
  plan :: "int list list"
  conflicts_present :: bool
  first_try :: bool
  vertex_conflicts :: "(nat \<times> nat \<times> nat \<times> int) list"
  swap_conflicts :: "(nat \<times> nat \<times> nat \<times> nat \<times> int) list"
  pebble_conflicts :: "(nat \<times> nat \<times> nat \<times> nat \<times> int) list"
  SAT_solver :: "cnf option"
  clock_reads :: nat

text \<open>\<open>at[a][v]\<close>, \<open>pass[a][v][dir]\<close>, \<open>shift[v][dir]\<close> and the neighbour as an array index.\<close>

definition AT :: "solver \<Rightarrow> nat \<Rightarrow> nat \<Rightarrow> teg_agent" where
  "AT s a v = the (at s) ! a ! v"

definition PASS :: "solver \<Rightarrow> nat \<Rightarrow> nat \<Rightarrow> nat \<Rightarrow> teg_agent" where
  "PASS s a v dir = the (pass s) ! a ! v ! dir"

definition SHIFT :: "solver \<Rightarrow> nat \<Rightarrow> nat \<Rightarrow> shift_t" where
  "SHIFT s v dir = the (shift s) ! v ! dir"

definition has_nb :: "solver \<Rightarrow> nat \<Rightarrow> nat \<Rightarrow> bool" where
  "has_nb s v dir = HasNeighborID (inst s) v dir"

definition nb :: "solver \<Rightarrow> nat \<Rightarrow> nat \<Rightarrow> nat" where
  "nb s v dir = nat (GetNeighbor (inst s) v dir)"

definition opp :: "nat \<Rightarrow> nat" where
  "opp dir = nat (OppositeDir dir)"

section \<open>Before solving\<close>

definition SetData :: "instance_t \<Rightarrow> logger \<Rightarrow> int \<Rightarrow> string \<Rightarrow> bool \<Rightarrow> bool \<Rightarrow> bool \<Rightarrow> solver \<Rightarrow> solver" where
  "SetData i l to cf q p av s =
     s\<lparr>inst := i, solver_log := l, timeout := to, quiet := q, print_plan := (if q then False else p),
       use_avoid := av, cnf_file := cf, at := None, pass := None, shift := None,
       shift_times_start := None, shift_times_end := None\<rparr>"

section \<open>Adding clauses\<close>

text \<open>
  \<open>_MAPFSAT_SAT::AddClause\<close> hands the clause to the SAT solver and, when a CNF file is wanted,
  also prints it; \<open>_MAPFSAT_SMT::AddClause\<close> only prints it.
\<close>

definition AddClause_SAT :: "clause \<Rightarrow> solver \<Rightarrow> solver" where
  "AddClause_SAT c s =
     (let s1 = s\<lparr>nr_clauses := nr_clauses s + 1, SAT_solver := map_option (\<lambda>F. F @ [c]) (SAT_solver s)\<rparr> in
      if cnf_file s1 \<noteq> [] then s1\<lparr>cnf_printable := cnf_printable s1 @ [ClauseLine c]\<rparr> else s1)"

definition AddClause_SMT :: "clause \<Rightarrow> solver \<Rightarrow> solver" where
  "AddClause_SMT c s =
     (let s1 = s\<lparr>nr_clauses := nr_clauses s + 1\<rparr> in
      if cnf_file s1 \<noteq> [] then s1\<lparr>cnf_printable := cnf_printable s1 @ [ClauseLine c]\<rparr> else s1)"

definition AddClause :: "clause \<Rightarrow> solver \<Rightarrow> solver" where
  "AddClause c s = (case class_of s of MAPFSAT_SAT \<Rightarrow> AddClause_SAT c s | MAPFSAT_SMT \<Rightarrow> AddClause_SMT c s)"

text \<open>
  Every \<open>AddClause\<close> of the common code is followed by the increment of one statistics counter;
  \<open>emit\<close> runs such a pair for each clause of a list, in order.
\<close>

datatype counter = Move | Dupli | Conflict | Soc | Unit

definition bump :: "counter \<Rightarrow> solver \<Rightarrow> solver" where
  "bump k s =
     (case k of Move \<Rightarrow> s\<lparr>nr_clauses_move := nr_clauses_move s + 1\<rparr>
      | Dupli \<Rightarrow> s\<lparr>nr_clauses_dupli := nr_clauses_dupli s + 1\<rparr>
      | Conflict \<Rightarrow> s\<lparr>nr_clauses_conflict := nr_clauses_conflict s + 1\<rparr>
      | Soc \<Rightarrow> s\<lparr>nr_clauses_soc := nr_clauses_soc s + 1\<rparr>
      | Unit \<Rightarrow> s\<lparr>nr_clauses_unit := nr_clauses_unit s + 1\<rparr>)"

definition emit :: "counter \<Rightarrow> cnf \<Rightarrow> solver \<Rightarrow> solver" where
  "emit k cs s = fold (\<lambda>c s. bump k (AddClause c s)) cs s"

lemmas add_defs = AddClause_def AddClause_SAT_def AddClause_SMT_def bump_def Let_def

lemma emit_Nil [simp]: "emit k [] s = s"
  by (simp add: emit_def)

lemma emit_Cons: "emit k (c # cs) s = emit k cs (bump k (AddClause c s))"
  by (simp add: emit_def)

lemma emit_append: "emit k (cs @ ds) s = emit k ds (emit k cs s)"
  by (simp add: emit_def)

text \<open>What emitting clauses does to the solver, and what it leaves alone.\<close>

lemma emit_one_frame:
  "class_of (bump k (AddClause c s)) = class_of s" "inst (bump k (AddClause c s)) = inst s"
  "solver_log (bump k (AddClause c s)) = solver_log s"
  "variables (bump k (AddClause c s)) = variables s"
  "cost_function (bump k (AddClause c s)) = cost_function s"
  "movement (bump k (AddClause c s)) = movement s"
  "lazy_const (bump k (AddClause c s)) = lazy_const s"
  "timeout (bump k (AddClause c s)) = timeout s"
  "cnf_file (bump k (AddClause c s)) = cnf_file s"
  "quiet (bump k (AddClause c s)) = quiet s"
  "print_plan (bump k (AddClause c s)) = print_plan s"
  "use_avoid (bump k (AddClause c s)) = use_avoid s"
  "keep_plan (bump k (AddClause c s)) = keep_plan s"
  "duplicates (bump k (AddClause c s)) = duplicates s"
  "agents (bump k (AddClause c s)) = agents s"
  "vertices (bump k (AddClause c s)) = vertices s"
  "delta (bump k (AddClause c s)) = delta s"
  "max_timestep (bump k (AddClause c s)) = max_timestep s"
  "at (bump k (AddClause c s)) = at s" "pass (bump k (AddClause c s)) = pass s"
  "shift (bump k (AddClause c s)) = shift s"
  "shift_times_start (bump k (AddClause c s)) = shift_times_start s"
  "shift_times_end (bump k (AddClause c s)) = shift_times_end s"
  "nr_vars (bump k (AddClause c s)) = nr_vars s"
  "solver_calls (bump k (AddClause c s)) = solver_calls s"
  "plan (bump k (AddClause c s)) = plan s"
  "conflicts_present (bump k (AddClause c s)) = conflicts_present s"
  "first_try (bump k (AddClause c s)) = first_try s"
  "vertex_conflicts (bump k (AddClause c s)) = vertex_conflicts s"
  "swap_conflicts (bump k (AddClause c s)) = swap_conflicts s"
  "pebble_conflicts (bump k (AddClause c s)) = pebble_conflicts s"
  "clock_reads (bump k (AddClause c s)) = clock_reads s"
  by (cases k; cases "class_of s"; simp add: add_defs)+

lemma emit_one_effect:
  "nr_clauses (bump k (AddClause c s)) = nr_clauses s + 1"
  "class_of s = MAPFSAT_SAT \<Longrightarrow> SAT_solver (bump k (AddClause c s)) = map_option (\<lambda>F. F @ [c]) (SAT_solver s)"
  "class_of s = MAPFSAT_SMT \<Longrightarrow> SAT_solver (bump k (AddClause c s)) = SAT_solver s"
  "cnf_printable (bump k (AddClause c s)) =
     (if cnf_file s \<noteq> [] then cnf_printable s @ [ClauseLine c] else cnf_printable s)"
  by (cases k; cases "class_of s"; simp add: add_defs)+

lemma emit_frame [simp]:
  "class_of (emit k cs s) = class_of s" "inst (emit k cs s) = inst s"
  "solver_log (emit k cs s) = solver_log s"
  "variables (emit k cs s) = variables s" "cost_function (emit k cs s) = cost_function s"
  "movement (emit k cs s) = movement s" "lazy_const (emit k cs s) = lazy_const s"
  "timeout (emit k cs s) = timeout s" "cnf_file (emit k cs s) = cnf_file s"
  "quiet (emit k cs s) = quiet s" "print_plan (emit k cs s) = print_plan s"
  "use_avoid (emit k cs s) = use_avoid s" "keep_plan (emit k cs s) = keep_plan s"
  "duplicates (emit k cs s) = duplicates s" "agents (emit k cs s) = agents s"
  "vertices (emit k cs s) = vertices s" "delta (emit k cs s) = delta s"
  "max_timestep (emit k cs s) = max_timestep s" "at (emit k cs s) = at s"
  "pass (emit k cs s) = pass s" "shift (emit k cs s) = shift s"
  "shift_times_start (emit k cs s) = shift_times_start s"
  "shift_times_end (emit k cs s) = shift_times_end s"
  "nr_vars (emit k cs s) = nr_vars s" "solver_calls (emit k cs s) = solver_calls s"
  "plan (emit k cs s) = plan s" "conflicts_present (emit k cs s) = conflicts_present s"
  "first_try (emit k cs s) = first_try s" "vertex_conflicts (emit k cs s) = vertex_conflicts s"
  "swap_conflicts (emit k cs s) = swap_conflicts s"
  "pebble_conflicts (emit k cs s) = pebble_conflicts s"
  "clock_reads (emit k cs s) = clock_reads s"
  by (induction cs arbitrary: s) (simp_all add: emit_Cons emit_one_frame)

lemma emit_nr_clauses [simp]: "nr_clauses (emit k cs s) = nr_clauses s + int (length cs)"
  by (induction cs arbitrary: s) (simp_all add: emit_Cons emit_one_effect)

lemma emit_SAT_solver:
  "class_of s = MAPFSAT_SAT \<Longrightarrow> SAT_solver (emit k cs s) = map_option (\<lambda>F. F @ cs) (SAT_solver s)"
proof (induction cs arbitrary: s)
  case (Cons c cs)
  then show ?case
    by (simp add: emit_Cons emit_one_effect emit_one_frame option.map_comp comp_def)
qed (simp add: option.map_ident)

lemma emit_SMT_solver: "class_of s = MAPFSAT_SMT \<Longrightarrow> SAT_solver (emit k cs s) = SAT_solver s"
  by (induction cs arbitrary: s) (simp_all add: emit_Cons emit_one_effect emit_one_frame)

lemma emit_cnf_printable:
  "cnf_printable (emit k cs s) =
     (if cnf_file s \<noteq> [] then cnf_printable s @ map ClauseLine cs else cnf_printable s)"
  by (induction cs arbitrary: s) (simp_all add: emit_Cons emit_one_effect emit_one_frame)

lemma emit_view [simp]:
  "AT (emit k cs s) = AT s" "PASS (emit k cs s) = PASS s" "SHIFT (emit k cs s) = SHIFT s"
  "has_nb (emit k cs s) = has_nb s" "nb (emit k cs s) = nb s"
  by (simp_all add: fun_eq_iff AT_def PASS_def SHIFT_def has_nb_def nb_def)

section \<open>Clock and cleanup\<close>

text \<open>
  \<open>clk n\<close> is the value (in nanoseconds) of the \<open>n\<close>-th reading of the clock; \<open>now\<close> takes the next
  reading, and \<open>millis\<close> is the \<open>duration_cast\<close> of a difference to milliseconds, which truncates.
  \<open>ReleaseSolver\<close> deletes the SAT solver, \<open>CleanUp\<close> the variable tables.
\<close>

type_synonym clock = "nat \<Rightarrow> int"

definition now :: "clock \<Rightarrow> solver \<Rightarrow> int \<times> solver" where
  "now clk s = (clk (clock_reads s), s\<lparr>clock_reads := Suc (clock_reads s)\<rparr>)"

definition millis :: "int \<Rightarrow> int" where
  "millis d = (if 0 \<le> d then d div 1000000 else - (- d div 1000000))"

definition CleanUp :: "solver \<Rightarrow> solver" where
  "CleanUp s = s\<lparr>shift := None, shift_times_start := None, shift_times_end := None, pass := None, at := None\<rparr>"

definition ReleaseSolver :: "solver \<Rightarrow> solver" where
  "ReleaseSolver s = (case class_of s of MAPFSAT_SAT \<Rightarrow> s\<lparr>SAT_solver := None\<rparr> | MAPFSAT_SMT \<Rightarrow> s)"

definition CreateSolver :: "solver \<Rightarrow> solver" where
  "CreateSolver s = (case class_of s of MAPFSAT_SAT \<Rightarrow> s\<lparr>SAT_solver := Some []\<rparr> | MAPFSAT_SMT \<Rightarrow> s)"

definition TimesUp :: "int \<Rightarrow> int \<Rightarrow> int \<Rightarrow> solver \<Rightarrow> bool \<times> solver" where
  "TimesUp start_time current_time timelimit s =
     (if millis (current_time - start_time) > timelimit then (True, ReleaseSolver (CleanUp s)) else (False, s))"

text \<open>What is written to the CNF file: the numbers of the header line, then the collected lines.\<close>

definition cnf_file_contents :: "solver \<Rightarrow> (int \<times> int \<times> cnf_line list) option" where
  "cnf_file_contents s = (if cnf_file s \<noteq> [] then Some (nr_vars s - 1, nr_clauses s, cnf_printable s) else None)"

end
