(* ===== verification/Variables.thy ===== *)
theory Variables
  imports Windows Solver_State
begin

text \<open>
  \<open>CreateAt\<close>, \<open>CreatePass\<close> and \<open>CreateShift\<close> of \<open>src/src/encodings/solver_common.cpp\<close>: the three
  families of propositional variables. Every cell of the tables is filled by an allocator that
  carries the next free variable number, so the numbers handed out are positive, below the returned
  number and different for different cells and timesteps.
\<close>

section \<open>The operations\<close>

definition no_agent :: teg_agent where
  "no_agent = \<lparr>first_variable = 0, first_timestep = undefined, last_timestep = undefined\<rparr>"

definition last_time :: "solver \<Rightarrow> int \<Rightarrow> nat \<Rightarrow> nat \<Rightarrow> int" where
  "last_time s timesteps a v = LastTimestep (inst s) a v timesteps (delta s) (cost_function s)"

definition first_time :: "solver \<Rightarrow> nat \<Rightarrow> nat \<Rightarrow> int" where
  "first_time s a v = FirstTimestep (inst s) a v"

definition create_at_cell :: "solver \<Rightarrow> int \<Rightarrow> nat \<Rightarrow> nat \<Rightarrow> int \<Rightarrow> teg_agent \<times> int" where
  "create_at_cell s timesteps a v lit =
     (let f = first_time s a v; l = last_time s timesteps a v in
      if f \<le> l then (\<lparr>first_variable = lit, first_timestep = f, last_timestep = l\<rparr>, lit + (l - f + 1))
      else (no_agent, lit))"

definition CreateAt :: "int \<Rightarrow> int \<Rightarrow> solver \<Rightarrow> int \<times> solver" where
  "CreateAt lit timesteps s =
     (let (T, lit') = thread (\<lambda>a. thread (create_at_cell s timesteps a) [0..<vertices s]) [0..<agents s] lit in
      (lit', s\<lparr>at := Some T, max_timestep := timesteps, at_vars := lit'\<rparr>))"

definition create_pass_cell :: "solver \<Rightarrow> int \<Rightarrow> nat \<Rightarrow> nat \<Rightarrow> nat \<Rightarrow> int \<Rightarrow> teg_agent \<times> int" where
  "create_pass_cell s timesteps a v dir lit =
     (if \<not> has_nb s v dir then (no_agent, lit)
      else let f = first_time s a v; l = last_time s timesteps a (nb s v dir) in
        if f < l then (\<lparr>first_variable = lit, first_timestep = f, last_timestep = l - 1\<rparr>, lit + ((l - 1) - f + 1))
        else (no_agent, lit))"

definition CreatePass :: "int \<Rightarrow> int \<Rightarrow> solver \<Rightarrow> int \<times> solver" where
  "CreatePass lit timesteps s =
     (let (T, lit') = thread (\<lambda>a. thread (\<lambda>v. thread (create_pass_cell s timesteps a v) [0..<5])
            [0..<vertices s]) [0..<agents s] lit in
      (lit', s\<lparr>pass := Some T\<rparr>))"

text \<open>
  The timesteps of \<open>shift[v][dir]\<close>: those in which some agent can use the edge. The second
  definition is the update of \<open>shift_times_start[v]\<close> and \<open>shift_times_end[v]\<close> for one new timestep.
\<close>

definition shift_timesteps :: "solver \<Rightarrow> int \<Rightarrow> nat \<Rightarrow> nat \<Rightarrow> int list" where
  "shift_timesteps s timesteps v dir =
     (if \<not> has_nb s v dir then []
      else filter (\<lambda>t. list_ex (\<lambda>a. first_time s a v \<le> t \<and> t < last_time s timesteps a (nb s v dir)) [0..<agents s])
             [0..timesteps - 1])"

definition shift_bounds :: "int \<Rightarrow> int \<times> int \<Rightarrow> int \<times> int" where
  "shift_bounds t b =
     (if fst b = -1 \<or> fst b > t then t else fst b, if snd b < t then t else snd b)"

definition create_shift_cell :: "solver \<Rightarrow> int \<Rightarrow> nat \<Rightarrow> nat \<Rightarrow> int \<Rightarrow> shift_t \<times> int" where
  "create_shift_cell s timesteps v dir lit =
     (\<lparr>first_varaible = lit, timestep = shift_timesteps s timesteps v dir\<rparr>,
      lit + int (length (shift_timesteps s timesteps v dir)))"

definition vertex_bounds :: "solver \<Rightarrow> int \<Rightarrow> nat \<Rightarrow> int \<times> int" where
  "vertex_bounds s timesteps v =
     fold shift_bounds (concat (map (shift_timesteps s timesteps v) [0..<5])) (-1, -1)"

definition CreateShift :: "int \<Rightarrow> int \<Rightarrow> solver \<Rightarrow> int \<times> solver" where
  "CreateShift lit timesteps s =
     (let (T, lit') = thread (\<lambda>v. thread (create_shift_cell s timesteps v) [0..<5]) [0..<vertices s] lit in
      (lit', s\<lparr>shift := Some T,
               shift_times_start := Some (map (\<lambda>v. fst (vertex_bounds s timesteps v)) [0..<vertices s]),
               shift_times_end := Some (map (\<lambda>v. snd (vertex_bounds s timesteps v)) [0..<vertices s]),
               max_timestep := timesteps\<rparr>))"

section \<open>Reading the tables\<close>

text \<open>
  \<open>at_window s a v t\<close>: agent \<open>a\<close> has a variable for vertex \<open>v\<close> at timestep \<open>t\<close>; \<open>at_var\<close> is its
  number. The same for the two other families.
\<close>

definition in_window :: "teg_agent \<Rightarrow> int \<Rightarrow> bool" where
  "in_window c t \<longleftrightarrow> first_variable c \<noteq> 0 \<and> first_timestep c \<le> t \<and> t \<le> last_timestep c"

definition var_at :: "teg_agent \<Rightarrow> int \<Rightarrow> int" where
  "var_at c t = first_variable c + (t - first_timestep c)"

abbreviation at_window :: "solver \<Rightarrow> nat \<Rightarrow> nat \<Rightarrow> int \<Rightarrow> bool" where
  "at_window s a v t \<equiv> in_window (AT s a v) t"

abbreviation at_var :: "solver \<Rightarrow> nat \<Rightarrow> nat \<Rightarrow> int \<Rightarrow> int" where
  "at_var s a v t \<equiv> var_at (AT s a v) t"

abbreviation pass_window :: "solver \<Rightarrow> nat \<Rightarrow> nat \<Rightarrow> nat \<Rightarrow> int \<Rightarrow> bool" where
  "pass_window s a v dir t \<equiv> in_window (PASS s a v dir) t"

abbreviation pass_var :: "solver \<Rightarrow> nat \<Rightarrow> nat \<Rightarrow> nat \<Rightarrow> int \<Rightarrow> int" where
  "pass_var s a v dir t \<equiv> var_at (PASS s a v dir) t"

text \<open>
  \<open>shift_index\<close> is the \<open>find\<close> on the timesteps of a shift, \<open>shift_found\<close> the test that follows it,
  and \<open>shift_var_at\<close> the variable of an index.
\<close>

definition shift_index :: "shift_t \<Rightarrow> int \<Rightarrow> nat" where
  "shift_index c t = find_index t (timestep c)"

definition shift_found :: "shift_t \<Rightarrow> int \<Rightarrow> bool" where
  "shift_found c t \<longleftrightarrow>
     shift_index c t \<noteq> length (timestep c) \<and> timestep c ! shift_index c t = t"

definition shift_var_at :: "shift_t \<Rightarrow> nat \<Rightarrow> int" where
  "shift_var_at c i = first_varaible c + int i"

abbreviation shift_var :: "solver \<Rightarrow> nat \<Rightarrow> nat \<Rightarrow> int \<Rightarrow> int" where
  "shift_var s v dir t \<equiv> shift_var_at (SHIFT s v dir) (shift_index (SHIFT s v dir) t)"

definition cell_vars :: "teg_agent \<Rightarrow> int set" where
  "cell_vars c =
     (if first_variable c = 0 then {}
      else {first_variable c .. first_variable c + (last_timestep c - first_timestep c)})"

definition shift_vars :: "shift_t \<Rightarrow> int set" where
  "shift_vars c = {first_varaible c ..< first_varaible c + int (length (timestep c))}"

lemma var_at_cell: "in_window c t \<Longrightarrow> var_at c t \<in> cell_vars c"
  by (auto simp: in_window_def var_at_def cell_vars_def)

lemma var_at_inj: "var_at c t = var_at c t' \<Longrightarrow> t = t'"
  by (simp add: var_at_def)

lemma shift_found_iff: "shift_found c t \<longleftrightarrow> t \<in> set (timestep c)"
  unfolding shift_found_def shift_index_def by (rule find_index_found)

lemma shift_var_cell: "shift_found c t \<Longrightarrow> shift_var_at c (shift_index c t) \<in> shift_vars c"
  using find_index_less [of t "timestep c"]
  by (auto simp: shift_found_iff shift_vars_def shift_var_at_def shift_index_def)

lemma shift_var_inj:
  assumes "shift_found c t" "shift_found c t'"
    and "shift_var_at c (shift_index c t) = shift_var_at c (shift_index c t')"
  shows "t = t'"
proof -
  have "shift_index c t = shift_index c t'" using assms(3) by (simp add: shift_var_at_def)
  then show ?thesis using assms(1,2) unfolding shift_found_def by metis
qed

section \<open>Allocation\<close>

interpretation at_cell: allocator "create_at_cell s n a" cell_vars for s n a
  by unfold_locales (auto simp: create_at_cell_def cell_vars_def no_agent_def Let_def)

interpretation at_row: allocator "\<lambda>a. thread (create_at_cell s n a) [0..<vertices s]"
  "\<lambda>row. \<Union>c \<in> set row. cell_vars c" for s n
  by unfold_locales (rule at_cell.thread_mono at_cell.thread_vars, assumption)+

interpretation pass_cell: allocator "create_pass_cell s n a v" cell_vars for s n a v
  by unfold_locales (auto simp: create_pass_cell_def cell_vars_def no_agent_def Let_def)

interpretation pass_row: allocator "\<lambda>v. thread (create_pass_cell s n a v) [0..<5]"
  "\<lambda>row. \<Union>c \<in> set row. cell_vars c" for s n a
  by unfold_locales (rule pass_cell.thread_mono pass_cell.thread_vars, assumption)+

interpretation pass_block: allocator "\<lambda>a. thread (\<lambda>v. thread (create_pass_cell s n a v) [0..<5]) [0..<vertices s]"
  "\<lambda>rows. \<Union>row \<in> set rows. \<Union>c \<in> set row. cell_vars c" for s n
  by unfold_locales (rule pass_row.thread_mono pass_row.thread_vars, assumption)+

interpretation shift_cell: allocator "create_shift_cell s n v" shift_vars for s n v
  by unfold_locales (auto simp: create_shift_cell_def shift_vars_def)

interpretation shift_row: allocator "\<lambda>v. thread (create_shift_cell s n v) [0..<5]"
  "\<lambda>row. \<Union>c \<in> set row. shift_vars c" for s n
  by unfold_locales (rule shift_cell.thread_mono shift_cell.thread_vars, assumption)+


text \<open>The cells of the tables the three operations build.\<close>

definition at_rows :: "solver \<Rightarrow> int \<Rightarrow> int \<Rightarrow> teg_agent list list \<times> int" where
  "at_rows s n = thread (\<lambda>a. thread (create_at_cell s n a) [0..<vertices s]) [0..<agents s]"

definition pass_rows :: "solver \<Rightarrow> int \<Rightarrow> int \<Rightarrow> teg_agent list list list \<times> int" where
  "pass_rows s n = thread (\<lambda>a. thread (\<lambda>v. thread (create_pass_cell s n a v) [0..<5]) [0..<vertices s]) [0..<agents s]"

definition shift_rows :: "solver \<Rightarrow> int \<Rightarrow> int \<Rightarrow> shift_t list list \<times> int" where
  "shift_rows s n = thread (\<lambda>v. thread (create_shift_cell s n v) [0..<5]) [0..<vertices s]"

lemma at_rows_cell:
  assumes "1 \<le> l" "a < agents s" "v < vertices s"
  shows "\<exists>m. l \<le> m \<and> fst (at_rows s n l) ! a ! v = fst (create_at_cell s n a v m) \<and>
    snd (create_at_cell s n a v m) \<le> snd (at_rows s n l)"
proof -
  obtain m where m: "l \<le> m" "fst (at_rows s n l) ! a = fst (thread (create_at_cell s n a) [0..<vertices s] m)"
    "snd (thread (create_at_cell s n a) [0..<vertices s] m) \<le> snd (at_rows s n l)"
    using at_row.thread_nth [OF assms(1), of a "[0..<agents s]" s n] assms(2) by (auto simp: at_rows_def)
  obtain k where "m \<le> k" "fst (at_rows s n l) ! a ! v = fst (create_at_cell s n a v k)"
    "snd (create_at_cell s n a v k) \<le> snd (thread (create_at_cell s n a) [0..<vertices s] m)"
    using at_cell.thread_nth [of m v "[0..<vertices s]" s n a] assms(1,3) m(1,2) by auto
  then show ?thesis using m by (intro exI [of _ k]) simp
qed

lemma pass_rows_cell:
  assumes "1 \<le> l" "a < agents s" "v < vertices s" "dir < 5"
  shows "\<exists>m. l \<le> m \<and> fst (pass_rows s n l) ! a ! v ! dir = fst (create_pass_cell s n a v dir m) \<and>
    snd (create_pass_cell s n a v dir m) \<le> snd (pass_rows s n l)"
proof -
  let ?row = "\<lambda>a v. thread (create_pass_cell s n a v) [0..<5]"
  let ?block = "\<lambda>a. thread (?row a) [0..<vertices s]"
  obtain m where m: "l \<le> m" "fst (pass_rows s n l) ! a = fst (?block a m)"
    "snd (?block a m) \<le> snd (pass_rows s n l)"
    using pass_block.thread_nth [OF assms(1), of a "[0..<agents s]" s n] assms(2) by (auto simp: pass_rows_def)
  obtain k where k: "m \<le> k" "fst (?block a m) ! v = fst (?row a v k)" "snd (?row a v k) \<le> snd (?block a m)"
    using pass_row.thread_nth [of m v "[0..<vertices s]" s n a] assms(1,3) m(1) by auto
  obtain j where "k \<le> j" "fst (?row a v k) ! dir = fst (create_pass_cell s n a v dir j)"
    "snd (create_pass_cell s n a v dir j) \<le> snd (?row a v k)"
    using pass_cell.thread_nth [of k dir "[0..<5]" s n a v] assms(1,4) m(1) k(1) by auto
  then show ?thesis using m k by (intro exI [of _ j]) simp
qed

lemma shift_rows_cell:
  assumes "1 \<le> l" "v < vertices s" "dir < 5"
  shows "\<exists>m. l \<le> m \<and> fst (shift_rows s n l) ! v ! dir = fst (create_shift_cell s n v dir m) \<and>
    snd (create_shift_cell s n v dir m) \<le> snd (shift_rows s n l)"
proof -
  let ?row = "\<lambda>v. thread (create_shift_cell s n v) [0..<5]"
  obtain m where m: "l \<le> m" "fst (shift_rows s n l) ! v = fst (?row v m)" "snd (?row v m) \<le> snd (shift_rows s n l)"
    using shift_row.thread_nth [OF assms(1), of v "[0..<vertices s]" s n] assms(2) by (auto simp: shift_rows_def)
  obtain k where "m \<le> k" "fst (?row v m) ! dir = fst (create_shift_cell s n v dir k)"
    "snd (create_shift_cell s n v dir k) \<le> snd (?row v m)"
    using shift_cell.thread_nth [of m dir "[0..<5]" s n v] assms(1,3) m(1) by auto
  then show ?thesis using m by (intro exI [of _ k]) simp
qed

lemma at_rows_disjoint:
  assumes l: "1 \<le> l" and a: "a < agents s" "v < vertices s" and b: "b < agents s" "u < vertices s"
    and neq: "(a, v) \<noteq> (b, u)"
  shows "cell_vars (fst (at_rows s n l) ! a ! v) \<inter> cell_vars (fst (at_rows s n l) ! b ! u) = {}"
proof (cases "a = b")
  case True
  obtain m where m: "l \<le> m" "fst (at_rows s n l) ! a = fst (thread (create_at_cell s n a) [0..<vertices s] m)"
    using at_row.thread_nth [OF l, of a "[0..<agents s]" s n] a(1) by (auto simp: at_rows_def)
  then show ?thesis
    using at_cell.thread_disjoint_neq [of m v u "[0..<vertices s]" s n a] l a b neq True by simp
next
  case False
  have len: "length (fst (at_rows s n l) ! c) = vertices s" if "c < agents s" for c
    using at_row.thread_nth [OF l, of c "[0..<agents s]" s n] that by (auto simp: at_rows_def)
  have "fst (at_rows s n l) ! a ! v \<in> set (fst (at_rows s n l) ! a)"
    "fst (at_rows s n l) ! b ! u \<in> set (fst (at_rows s n l) ! b)" using len a b by auto
  moreover have "(\<Union>c \<in> set (fst (at_rows s n l) ! a). cell_vars c) \<inter> (\<Union>c \<in> set (fst (at_rows s n l) ! b). cell_vars c) = {}"
    using at_row.thread_disjoint_neq [OF l False, of "[0..<agents s]" s n] a b by (simp add: at_rows_def)
  ultimately show ?thesis by blast
qed

section \<open>What the tables promise\<close>

text \<open>
  \<open>at_table s n lo hi\<close>: for every agent and vertex there is a variable for exactly the timesteps of
  its window, and the variables are distinct numbers from \<open>lo\<close> (inclusive) to \<open>hi\<close> (exclusive).
\<close>

definition at_table :: "solver \<Rightarrow> int \<Rightarrow> int \<Rightarrow> int \<Rightarrow> bool" where
  "at_table s n lo hi \<longleftrightarrow>
     1 \<le> lo \<and> lo \<le> hi \<and>
     (\<forall>a < agents s. \<forall>v < vertices s.
        (\<forall>t. at_window s a v t \<longleftrightarrow> first_time s a v \<le> t \<and> t \<le> last_time s n a v) \<and>
        (first_variable (AT s a v) \<noteq> 0 \<longrightarrow>
           first_timestep (AT s a v) = first_time s a v \<and> last_timestep (AT s a v) = last_time s n a v) \<and>
        (first_variable (AT s a v) \<noteq> 0 \<longleftrightarrow> first_time s a v \<le> last_time s n a v) \<and>
        (\<forall>t. at_window s a v t \<longrightarrow> lo \<le> at_var s a v t \<and> at_var s a v t < hi)) \<and>
     (\<forall>a < agents s. \<forall>v < vertices s. \<forall>b < agents s. \<forall>u < vertices s. \<forall>t t'.
        at_window s a v t \<longrightarrow> at_window s b u t' \<longrightarrow> at_var s a v t = at_var s b u t' \<longrightarrow>
        a = b \<and> v = u \<and> t = t')"

lemma create_at_cell_props:
  assumes "1 \<le> m" "c = fst (create_at_cell s n a v m)"
  shows "in_window c t \<longleftrightarrow> first_time s a v \<le> t \<and> t \<le> last_time s n a v"
    and "first_variable c \<noteq> 0 \<longrightarrow> first_timestep c = first_time s a v \<and> last_timestep c = last_time s n a v"
    and "first_variable c \<noteq> 0 \<longleftrightarrow> first_time s a v \<le> last_time s n a v"
    and "in_window c t \<longrightarrow> m \<le> var_at c t \<and> var_at c t < snd (create_at_cell s n a v m)"
  using assms by (auto simp: create_at_cell_def in_window_def var_at_def no_agent_def Let_def)

lemma CreateAt_eq:
  "CreateAt l n s = (snd (at_rows s n l), s\<lparr>at := Some (fst (at_rows s n l)), max_timestep := n, at_vars := snd (at_rows s n l)\<rparr>)"
  by (simp add: CreateAt_def at_rows_def split: prod.split)

lemma CreateAt_table:
  assumes l: "1 \<le> l"
  shows "at_table (snd (CreateAt l n s)) n l (fst (CreateAt l n s))"
proof -
  let ?s = "snd (CreateAt l n s)" and ?h = "fst (CreateAt l n s)"
  have cell: "AT ?s a v = fst (at_rows s n l) ! a ! v" for a v
    by (simp add: CreateAt_eq AT_def)
  have fl: "first_time ?s = first_time s" "last_time ?s = last_time s"
    by (simp_all add: fun_eq_iff CreateAt_eq first_time_def last_time_def)
  have one: "\<exists>m. l \<le> m \<and> AT ?s a v = fst (create_at_cell s n a v m) \<and> snd (create_at_cell s n a v m) \<le> ?h"
    if "a < agents s" "v < vertices s" for a v
    using at_rows_cell [OF l that, of n] cell by (simp add: CreateAt_eq)
  have props: "(\<forall>t. at_window ?s a v t \<longleftrightarrow> first_time s a v \<le> t \<and> t \<le> last_time s n a v) \<and>
      (first_variable (AT ?s a v) \<noteq> 0 \<longrightarrow>
         first_timestep (AT ?s a v) = first_time s a v \<and> last_timestep (AT ?s a v) = last_time s n a v) \<and>
      (first_variable (AT ?s a v) \<noteq> 0 \<longleftrightarrow> first_time s a v \<le> last_time s n a v) \<and>
      (\<forall>t. at_window ?s a v t \<longrightarrow> l \<le> at_var ?s a v t \<and> at_var ?s a v t < ?h)"
    if av: "a < agents s" "v < vertices s" for a v
  proof -
    obtain m where m: "l \<le> m" "AT ?s a v = fst (create_at_cell s n a v m)"
      "snd (create_at_cell s n a v m) \<le> ?h" using one [OF av] by blast
    have "1 \<le> m" using l m(1) by simp
    note P = create_at_cell_props [OF this m(2)]
    show ?thesis
    proof (intro conjI allI)
      fix t
      show "at_window ?s a v t \<longleftrightarrow> first_time s a v \<le> t \<and> t \<le> last_time s n a v" by (rule P(1))
      show "at_window ?s a v t \<longrightarrow> l \<le> at_var ?s a v t \<and> at_var ?s a v t < ?h"
        using P(4) [of t] m(1,3) by linarith
    qed (use P(2,3) in blast)+
  qed
  have uniq: "a = b \<and> v = u \<and> t = t'"
    if ab: "a < agents s" "v < vertices s" "b < agents s" "u < vertices s"
      and w: "at_window ?s a v t" "at_window ?s b u t'" and eq: "at_var ?s a v t = at_var ?s b u t'"
    for a v b u t t'
  proof -
    have "at_var ?s a v t \<in> cell_vars (AT ?s a v) \<inter> cell_vars (AT ?s b u)"
      using var_at_cell [OF w(1)] var_at_cell [OF w(2)] eq by simp
    then have "(a, v) = (b, u)"
      using at_rows_disjoint [OF l ab, of n] unfolding cell by fast
    then show ?thesis using eq var_at_inj by auto
  qed
  have h: "l \<le> ?h" using at_row.thread_mono [OF l] by (simp add: CreateAt_eq at_rows_def)
  have frame: "agents ?s = agents s" "vertices ?s = vertices s" by (simp_all add: CreateAt_eq)
  show ?thesis
  proof (unfold at_table_def fl frame, intro conjI)
    show "1 \<le> l" "l \<le> ?h" using l h by auto
  qed (use props in simp, use uniq in blast)
qed

lemma at_tableD:
  assumes "at_table s n lo hi"
  shows "1 \<le> lo" "lo \<le> hi"
    and "a < agents s \<Longrightarrow> v < vertices s \<Longrightarrow> at_window s a v t \<longleftrightarrow> first_time s a v \<le> t \<and> t \<le> last_time s n a v"
    and "a < agents s \<Longrightarrow> v < vertices s \<Longrightarrow> first_variable (AT s a v) \<noteq> 0 \<longleftrightarrow> first_time s a v \<le> last_time s n a v"
    and "a < agents s \<Longrightarrow> v < vertices s \<Longrightarrow> first_variable (AT s a v) \<noteq> 0 \<Longrightarrow>
      first_timestep (AT s a v) = first_time s a v \<and> last_timestep (AT s a v) = last_time s n a v"
    and "a < agents s \<Longrightarrow> v < vertices s \<Longrightarrow> at_window s a v t \<Longrightarrow> lo \<le> at_var s a v t \<and> at_var s a v t < hi"
    and "a < agents s \<Longrightarrow> v < vertices s \<Longrightarrow> b < agents s \<Longrightarrow> u < vertices s \<Longrightarrow>
      at_window s a v t \<Longrightarrow> at_window s b u t' \<Longrightarrow> at_var s a v t = at_var s b u t' \<Longrightarrow> a = b \<and> v = u \<and> t = t'"
proof -
  show lo: "1 \<le> lo" "lo \<le> hi" using assms unfolding at_table_def by blast+
  have cells: "\<And>a v. a < agents s \<Longrightarrow> v < vertices s \<Longrightarrow>
      (\<forall>t. at_window s a v t \<longleftrightarrow> first_time s a v \<le> t \<and> t \<le> last_time s n a v) \<and>
      (first_variable (AT s a v) \<noteq> 0 \<longrightarrow>
         first_timestep (AT s a v) = first_time s a v \<and> last_timestep (AT s a v) = last_time s n a v) \<and>
      (first_variable (AT s a v) \<noteq> 0 \<longleftrightarrow> first_time s a v \<le> last_time s n a v) \<and>
      (\<forall>t. at_window s a v t \<longrightarrow> lo \<le> at_var s a v t \<and> at_var s a v t < hi)"
    using assms unfolding at_table_def by simp
  show "a < agents s \<Longrightarrow> v < vertices s \<Longrightarrow> at_window s a v t \<longleftrightarrow> first_time s a v \<le> t \<and> t \<le> last_time s n a v"
    and "a < agents s \<Longrightarrow> v < vertices s \<Longrightarrow> first_variable (AT s a v) \<noteq> 0 \<longleftrightarrow> first_time s a v \<le> last_time s n a v"
    and "a < agents s \<Longrightarrow> v < vertices s \<Longrightarrow> first_variable (AT s a v) \<noteq> 0 \<Longrightarrow>
      first_timestep (AT s a v) = first_time s a v \<and> last_timestep (AT s a v) = last_time s n a v"
    and "a < agents s \<Longrightarrow> v < vertices s \<Longrightarrow> at_window s a v t \<Longrightarrow> lo \<le> at_var s a v t \<and> at_var s a v t < hi"
    using cells by simp_all
  have "\<forall>a < agents s. \<forall>v < vertices s. \<forall>b < agents s. \<forall>u < vertices s. \<forall>t t'.
      at_window s a v t \<longrightarrow> at_window s b u t' \<longrightarrow> at_var s a v t = at_var s b u t' \<longrightarrow> a = b \<and> v = u \<and> t = t'"
    using assms unfolding at_table_def by (elim conjE)
  then show "a < agents s \<Longrightarrow> v < vertices s \<Longrightarrow> b < agents s \<Longrightarrow> u < vertices s \<Longrightarrow>
      at_window s a v t \<Longrightarrow> at_window s b u t' \<Longrightarrow> at_var s a v t = at_var s b u t' \<Longrightarrow> a = b \<and> v = u \<and> t = t'"
    by simp
qed

end
