(* ===== verification/Conflicts.thy ===== *)
theory Conflicts
  imports Variables
begin

text \<open>
  The collision constraints of \<open>src/src/encodings/solver_common.cpp\<close>: the eager \<open>CreateConf_*\<close>
  operations, which forbid every possible collision, and their \<open>*_OnDemand\<close> versions, which forbid
  the collisions found in the last plan. Each operation emits the clauses listed, in loop order, by
  the definition of the same name with the suffix \<open>_clauses\<close>.
\<close>

text \<open>\<open>for_to i j\<close> is the range of the loop \<open>for (t = i; t < j; t++)\<close>.\<close>

abbreviation for_to :: "int \<Rightarrow> int \<Rightarrow> int list" where
  "for_to i j \<equiv> [i..j - 1]"

definition used :: "teg_agent \<Rightarrow> bool" where
  "used c \<longleftrightarrow> first_variable c \<noteq> 0"

section \<open>Eager collision constraints\<close>

definition conf_vertex_clauses :: "solver \<Rightarrow> cnf" where
  "conf_vertex_clauses s =
     [[- at_var s a1 v t, - at_var s a2 v t].
        v \<leftarrow> [0..<vertices s],
        a1 \<leftarrow> [0..<agents s], used (AT s a1 v),
        a2 \<leftarrow> [a1 + 1..<agents s], used (AT s a2 v),
        t \<leftarrow> for_to (max (first_timestep (AT s a1 v)) (first_timestep (AT s a2 v)))
                   (min (last_timestep (AT s a1 v)) (last_timestep (AT s a2 v)) + 1)]"

definition CreateConf_Vertex :: "solver \<Rightarrow> solver" where
  "CreateConf_Vertex s = emit Conflict (conf_vertex_clauses s) s"

definition conf_swapping_at_clauses :: "solver \<Rightarrow> cnf" where
  "conf_swapping_at_clauses s =
     [[- at_var s a1 v t, - at_var s a1 u (t + 1), - at_var s a2 v (t + 1), - at_var s a2 u t].
        v \<leftarrow> [0..<vertices s],
        dir \<leftarrow> [1..<5], has_nb s v dir,
        u \<leftarrow> [nb s v dir],
        a1 \<leftarrow> [0..<agents s], used (AT s a1 v), used (AT s a1 u),
        a2 \<leftarrow> [a1 + 1..<agents s], used (AT s a2 u), used (AT s a2 v),
        t \<leftarrow> for_to (max (max (first_timestep (AT s a1 v)) (first_timestep (AT s a1 u) - 1))
                        (max (first_timestep (AT s a2 u)) (first_timestep (AT s a2 v) - 1)))
                   (min (min (last_timestep (AT s a1 v)) (last_timestep (AT s a1 u) - 1))
                        (min (last_timestep (AT s a2 u)) (last_timestep (AT s a2 v) - 1)) + 1)]"

definition CreateConf_Swapping_At :: "solver \<Rightarrow> solver" where
  "CreateConf_Swapping_At s = emit Conflict (conf_swapping_at_clauses s) s"

definition conf_swapping_pass_clauses :: "solver \<Rightarrow> cnf" where
  "conf_swapping_pass_clauses s =
     [[- pass_var s a1 v dir t, - pass_var s a2 (nb s v dir) (opp dir) t].
        v \<leftarrow> [0..<vertices s],
        dir \<leftarrow> [1..<5], has_nb s v dir,
        a1 \<leftarrow> [0..<agents s], used (PASS s a1 v dir),
        a2 \<leftarrow> [a1 + 1..<agents s], used (PASS s a2 (nb s v dir) (opp dir)),
        t \<leftarrow> for_to (max (first_timestep (PASS s a1 v dir)) (first_timestep (PASS s a2 (nb s v dir) (opp dir))))
                   (min (last_timestep (PASS s a1 v dir)) (last_timestep (PASS s a2 (nb s v dir) (opp dir))) + 1)]"

definition CreateConf_Swapping_Pass :: "solver \<Rightarrow> solver" where
  "CreateConf_Swapping_Pass s = emit Conflict (conf_swapping_pass_clauses s) s"

definition conf_swapping_shift_clauses :: "solver \<Rightarrow> cnf" where
  "conf_swapping_shift_clauses s =
     [[- shift_var_at (SHIFT s v dir) t_ind, - shift_var s (nb s v dir) (opp dir) (timestep (SHIFT s v dir) ! t_ind)].
        v \<leftarrow> [0..<vertices s],
        dir \<leftarrow> [2..<4], has_nb s v dir,
        t_ind \<leftarrow> [0..<length (timestep (SHIFT s v dir))],
        shift_found (SHIFT s (nb s v dir) (opp dir)) (timestep (SHIFT s v dir) ! t_ind)]"

definition CreateConf_Swapping_Shift :: "solver \<Rightarrow> solver" where
  "CreateConf_Swapping_Shift s = emit Conflict (conf_swapping_shift_clauses s) s"

definition conf_pebble_at_clauses :: "solver \<Rightarrow> cnf" where
  "conf_pebble_at_clauses s =
     [[- at_var s a1 v t, - at_var s a2 v (t - 1)].
        v \<leftarrow> [0..<vertices s],
        a1 \<leftarrow> [0..<agents s], used (AT s a1 v),
        a2 \<leftarrow> [0..<agents s], a1 \<noteq> a2, used (AT s a2 v),
        t \<leftarrow> for_to (max (first_timestep (AT s a1 v)) (first_timestep (AT s a2 v) + 1))
                   (min (last_timestep (AT s a1 v)) (last_timestep (AT s a2 v) + 1) + 1)]"

definition CreateConf_Pebble_At :: "solver \<Rightarrow> solver" where
  "CreateConf_Pebble_At s = emit Conflict (conf_pebble_at_clauses s) s"

definition conf_pebble_pass_clauses :: "solver \<Rightarrow> cnf" where
  "conf_pebble_pass_clauses s =
     [[- pass_var s a1 v dir t, - at_var s a2 (nb s v dir) t].
        v \<leftarrow> [0..<vertices s],
        dir \<leftarrow> [1..<5], has_nb s v dir,
        a1 \<leftarrow> [0..<agents s], used (PASS s a1 v dir),
        a2 \<leftarrow> [0..<agents s], a1 \<noteq> a2, used (AT s a2 (nb s v dir)),
        t \<leftarrow> for_to (max (first_timestep (PASS s a1 v dir)) (first_timestep (AT s a2 (nb s v dir))))
                   (min (last_timestep (PASS s a1 v dir)) (last_timestep (AT s a2 (nb s v dir))) + 1)]"

definition CreateConf_Pebble_Pass :: "solver \<Rightarrow> solver" where
  "CreateConf_Pebble_Pass s = emit Conflict (conf_pebble_pass_clauses s) s"

definition conf_pebble_shift_clauses :: "solver \<Rightarrow> cnf" where
  "conf_pebble_shift_clauses s =
     [[- shift_var_at (SHIFT s v dir) t_ind, - shift_var s (nb s v dir) u_dir (timestep (SHIFT s v dir) ! t_ind)].
        v \<leftarrow> [0..<vertices s],
        dir \<leftarrow> [0..<5], has_nb s v dir,
        t_ind \<leftarrow> [0..<length (timestep (SHIFT s v dir))],
        u_dir \<leftarrow> [1..<5],
        shift_found (SHIFT s (nb s v dir) u_dir) (timestep (SHIFT s v dir) ! t_ind)]"

definition CreateConf_Pebble_Shift :: "solver \<Rightarrow> solver" where
  "CreateConf_Pebble_Shift s = emit Conflict (conf_pebble_shift_clauses s) s"

section \<open>Collision constraints on demand\<close>

text \<open>
  The conflicts of the last plan: \<open>(a1, a2, v, t)\<close> and \<open>(a1, a2, v, u, t)\<close>. \<open>find_dir s v u\<close> is the
  first direction (not the waiting loop) leading from \<open>v\<close> to \<open>u\<close>; the code keeps \<open>-1\<close> when there is
  none and would then index out of range.
\<close>

definition find_dir :: "solver \<Rightarrow> nat \<Rightarrow> nat \<Rightarrow> nat" where
  "find_dir s v u = the (List.find (\<lambda>d. GetNeighbor (inst s) v d = int u) [1..<5])"

definition conf_vertex_on_demand_clauses :: "solver \<Rightarrow> cnf" where
  "conf_vertex_on_demand_clauses s =
     map (\<lambda>(a1, a2, v, t). [- at_var s a1 v t, - at_var s a2 v t]) (vertex_conflicts s)"

definition CreateConf_Vertex_OnDemand :: "solver \<Rightarrow> solver" where
  "CreateConf_Vertex_OnDemand s = emit Conflict (conf_vertex_on_demand_clauses s) s"

definition conf_swapping_at_on_demand_clauses :: "solver \<Rightarrow> cnf" where
  "conf_swapping_at_on_demand_clauses s =
     map (\<lambda>(a1, a2, v, u, t).
       [- at_var s a1 v t, - at_var s a1 u (t + 1), - at_var s a2 v (t + 1), - at_var s a2 u t]) (swap_conflicts s)"

definition CreateConf_Swapping_At_OnDemand :: "solver \<Rightarrow> solver" where
  "CreateConf_Swapping_At_OnDemand s = emit Conflict (conf_swapping_at_on_demand_clauses s) s"

definition conf_swapping_pass_on_demand_clauses :: "solver \<Rightarrow> cnf" where
  "conf_swapping_pass_on_demand_clauses s =
     map (\<lambda>(a1, a2, v, u, t). let dir = find_dir s v u in
       [- pass_var s a1 v dir t, - pass_var s a2 u (opp dir) t]) (swap_conflicts s)"

definition CreateConf_Swapping_Pass_OnDemand :: "solver \<Rightarrow> solver" where
  "CreateConf_Swapping_Pass_OnDemand s = emit Conflict (conf_swapping_pass_on_demand_clauses s) s"

definition conf_swapping_shift_on_demand_clauses :: "solver \<Rightarrow> cnf" where
  "conf_swapping_shift_on_demand_clauses s =
     map (\<lambda>(a1, a2, v, u, t). let dir = find_dir s v u in
       [- shift_var s v dir t, - shift_var s u (opp dir) t]) (swap_conflicts s)"

definition CreateConf_Swapping_Shift_OnDemand :: "solver \<Rightarrow> solver" where
  "CreateConf_Swapping_Shift_OnDemand s = emit Conflict (conf_swapping_shift_on_demand_clauses s) s"

text \<open>
  The tuples are written \<open>(a1, a2, from, to, t)\<close> by \<open>GenerateConflicts\<close>; the \<open>at\<close> version reads the
  third component into \<open>u\<close> and the fourth into \<open>v\<close>, the others the other way round.
\<close>

definition conf_pebble_at_on_demand_clauses :: "solver \<Rightarrow> cnf" where
  "conf_pebble_at_on_demand_clauses s =
     map (\<lambda>(a1, a2, u, v, t). [- at_var s a1 v t, - at_var s a2 v (t - 1)]) (pebble_conflicts s)"

definition CreateConf_Pebble_At_OnDemand :: "solver \<Rightarrow> solver" where
  "CreateConf_Pebble_At_OnDemand s = emit Conflict (conf_pebble_at_on_demand_clauses s) s"

definition conf_pebble_pass_on_demand_clauses :: "solver \<Rightarrow> cnf" where
  "conf_pebble_pass_on_demand_clauses s =
     map (\<lambda>(a1, a2, v, u, t). let t' = t - 1; dir = find_dir s v u in
       [- pass_var s a1 v dir t', - at_var s a2 u t']) (pebble_conflicts s)"

definition CreateConf_Pebble_Pass_OnDemand :: "solver \<Rightarrow> solver" where
  "CreateConf_Pebble_Pass_OnDemand s = emit Conflict (conf_pebble_pass_on_demand_clauses s) s"

definition conf_pebble_shift_on_demand_clauses :: "solver \<Rightarrow> cnf" where
  "conf_pebble_shift_on_demand_clauses s =
     concat (map (\<lambda>(a1, a2, v, u, t).
       let t' = t - 1; dir = find_dir s v u; t_ind = shift_index (SHIFT s v dir) t' in
       [[- shift_var_at (SHIFT s v dir) t_ind, - shift_var s u u_dir (timestep (SHIFT s v dir) ! t_ind)].
          u_dir \<leftarrow> [1..<5],
          shift_found (SHIFT s u u_dir) (timestep (SHIFT s v dir) ! t_ind)]) (pebble_conflicts s))"

definition CreateConf_Pebble_Shift_OnDemand :: "solver \<Rightarrow> solver" where
  "CreateConf_Pebble_Shift_OnDemand s = emit Conflict (conf_pebble_shift_on_demand_clauses s) s"

end
