(* ===== verification/Movement.thy ===== *)
theory Movement
  imports Conflicts
begin

text \<open>
  The start, goal and movement constraints of \<open>src/src/encodings/solver_common.cpp\<close>
  (\<open>CreatePossition_*\<close> and \<open>CreateMove_*\<close>).
\<close>

section \<open>Positions\<close>

definition start_clauses :: "solver \<Rightarrow> cnf" where
  "start_clauses s = [[first_variable (AT s a (start_id (inst s) a))]. a \<leftarrow> [0..<agents s]]"

definition CreatePossition_Start :: "solver \<Rightarrow> solver" where
  "CreatePossition_Start s = emit Unit (start_clauses s) s"

definition goal_clauses :: "solver \<Rightarrow> cnf" where
  "goal_clauses s =
     [[first_variable c + (last_timestep c - first_timestep c)].
        a \<leftarrow> [0..<agents s], c \<leftarrow> [AT s a (goal_id (inst s) a)]]"

definition CreatePossition_Goal :: "solver \<Rightarrow> solver" where
  "CreatePossition_Goal s = emit Unit (goal_clauses s) s"

definition none_at_goal_clauses :: "solver \<Rightarrow> cnf" where
  "none_at_goal_clauses s =
     [[- at_var s a2 v t].
        a \<leftarrow> [0..<agents s], v \<leftarrow> [goal_id (inst s) a],
        a2 \<leftarrow> [0..<agents s], used (AT s a2 v),
        t \<leftarrow> for_to (max (first_timestep (AT s a2 v)) (last_timestep (AT s a v) + 1))
                   (last_timestep (AT s a2 v) + 1)]"

definition CreatePossition_NoneAtGoal :: "solver \<Rightarrow> solver" where
  "CreatePossition_NoneAtGoal s = emit Unit (none_at_goal_clauses s) s"

definition none_at_goal_shift_clauses :: "solver \<Rightarrow> cnf" where
  "none_at_goal_shift_clauses s =
     [[- shift_var s v dir t].
        a \<leftarrow> [0..<agents s], v \<leftarrow> [goal_id (inst s) a],
        the (shift_times_start s) ! v \<noteq> -1,
        t \<leftarrow> for_to (max (last_time s (max_timestep s) a v) (the (shift_times_start s) ! v))
                   (the (shift_times_end s) ! v + 1),
        dir \<leftarrow> [0..<5], has_nb s v dir, shift_found (SHIFT s v dir) t]"

definition CreatePossition_NoneAtGoal_Shift :: "solver \<Rightarrow> solver" where
  "CreatePossition_NoneAtGoal_Shift s = emit Unit (none_at_goal_shift_clauses s) s"

section \<open>At most one vertex per agent\<close>

text \<open>
  \<open>enc lits k first_aux\<close> stands for \<open>PB2CNF::encodeAtMostK\<close> of PBLib, which the sources only call:
  it returns the clauses it appends to the formula and the largest variable it has used. The two
  configurations the sources set (\<open>KPRODUCT\<close>, and \<open>KPRODUCT\<close> with \<open>CARD\<close>) promise the same.
\<close>

type_synonym amk_encoder = "int list \<Rightarrow> int \<Rightarrow> int \<Rightarrow> cnf \<times> int"

definition present_vars :: "solver \<Rightarrow> nat \<Rightarrow> int \<Rightarrow> int list" where
  "present_vars s a t =
     [at_var s a v t. v \<leftarrow> [0..<vertices s], used (AT s a v),
        \<not> (first_timestep (AT s a v) > t \<or> last_timestep (AT s a v) < t)]"

definition no_duplicates_step :: "amk_encoder \<Rightarrow> solver \<Rightarrow> nat \<times> int \<Rightarrow> int \<Rightarrow> cnf \<times> int" where
  "no_duplicates_step enc s = (\<lambda>(a, t) lit.
     let vars = present_vars s a t in
     if length vars > 1 then let (formula, biggest) = enc vars 1 lit in (formula, biggest + 1)
     else ([], lit))"

definition no_duplicates :: "amk_encoder \<Rightarrow> int \<Rightarrow> solver \<Rightarrow> cnf \<times> int" where
  "no_duplicates enc lit s =
     (let (formulas, lit') = thread (no_duplicates_step enc s)
            [(a, t). a \<leftarrow> [0..<agents s], t \<leftarrow> for_to 0 (max_timestep s)] lit in
      (concat formulas, lit'))"

definition CreateMove_NoDuplicates :: "amk_encoder \<Rightarrow> int \<Rightarrow> solver \<Rightarrow> int \<times> solver" where
  "CreateMove_NoDuplicates enc lit s =
     (let (F, lit') = no_duplicates enc lit s in (lit', emit Dupli F s))"

section \<open>Moving along edges\<close>

definition next_vertices :: "solver \<Rightarrow> nat \<Rightarrow> nat \<Rightarrow> int \<Rightarrow> int list" where
  "next_vertices s a v t =
     [at_var s a (nb s v dir) (t + 1).
        dir \<leftarrow> [0..<5], has_nb s v dir, used (AT s a (nb s v dir)),
        first_timestep (AT s a (nb s v dir)) \<le> t + 1 \<and> last_timestep (AT s a (nb s v dir)) \<ge> t + 1]"

definition next_vertex_at_clauses :: "solver \<Rightarrow> cnf" where
  "next_vertex_at_clauses s =
     [next_vertices s a v t @ [- at_var s a v t].
        a \<leftarrow> [0..<agents s], v \<leftarrow> [0..<vertices s], used (AT s a v),
        t \<leftarrow> for_to (first_timestep (AT s a v)) (last_timestep (AT s a v) + 1),
        next_vertices s a v t \<noteq> []]"

definition CreateMove_NextVertex_At :: "solver \<Rightarrow> solver" where
  "CreateMove_NextVertex_At s = emit Move (next_vertex_at_clauses s) s"

definition enter_vertex_pass_clauses :: "solver \<Rightarrow> cnf" where
  "enter_vertex_pass_clauses s =
     [[- pass_var s a v dir t, at_var s a (nb s v dir) (t + 1)].
        v \<leftarrow> [0..<vertices s], dir \<leftarrow> [0..<5], has_nb s v dir,
        a \<leftarrow> [0..<agents s], used (PASS s a v dir),
        t \<leftarrow> for_to (first_timestep (PASS s a v dir)) (last_timestep (PASS s a v dir) + 1)]"

definition CreateMove_EnterVertex_Pass :: "solver \<Rightarrow> solver" where
  "CreateMove_EnterVertex_Pass s = emit Move (enter_vertex_pass_clauses s) s"

definition leave_vertex_pass_clauses :: "solver \<Rightarrow> cnf" where
  "leave_vertex_pass_clauses s =
     [[- pass_var s a v dir t, at_var s a v t].
        v \<leftarrow> [0..<vertices s], dir \<leftarrow> [0..<5], has_nb s v dir,
        a \<leftarrow> [0..<agents s], used (PASS s a v dir),
        t \<leftarrow> for_to (first_timestep (PASS s a v dir)) (last_timestep (PASS s a v dir) + 1)]"

definition CreateMove_LeaveVertex_Pass :: "solver \<Rightarrow> solver" where
  "CreateMove_LeaveVertex_Pass s = emit Move (leave_vertex_pass_clauses s) s"

definition next_edges :: "solver \<Rightarrow> nat \<Rightarrow> nat \<Rightarrow> int \<Rightarrow> int list" where
  "next_edges s a v t =
     [pass_var s a v dir t.
        dir \<leftarrow> [0..<5], used (PASS s a v dir),
        first_timestep (PASS s a v dir) \<le> t \<and> last_timestep (PASS s a v dir) \<ge> t]"

definition next_edge_pass_clauses :: "solver \<Rightarrow> cnf" where
  "next_edge_pass_clauses s =
     [next_edges s a v t @ [- at_var s a v t].
        a \<leftarrow> [0..<agents s], v \<leftarrow> [0..<vertices s], used (AT s a v),
        t \<leftarrow> for_to (first_timestep (AT s a v)) (last_timestep (AT s a v) + 1),
        next_edges s a v t \<noteq> []]"

definition CreateMove_NextEdge_Pass :: "solver \<Rightarrow> solver" where
  "CreateMove_NextEdge_Pass s = emit Move (next_edge_pass_clauses s) s"

section \<open>Shifts\<close>

definition pair_clauses :: "int list \<Rightarrow> cnf" where
  "pair_clauses vc = [[- (vc ! i), - (vc ! j)]. i \<leftarrow> [0..<length vc], j \<leftarrow> [i + 1..<length vc]]"

definition exactly_one_shift_clauses :: "solver \<Rightarrow> cnf" where
  "exactly_one_shift_clauses s =
     concat [pair_clauses [shift_var s v dir t. dir \<leftarrow> [0..<5], has_nb s v dir, shift_found (SHIFT s v dir) t].
        v \<leftarrow> [0..<vertices s], the (shift_times_start s) ! v \<noteq> -1,
        t \<leftarrow> for_to (the (shift_times_start s) ! v) (the (shift_times_end s) ! v + 1)]"

definition CreateMove_ExactlyOne_Shift :: "solver \<Rightarrow> solver" where
  "CreateMove_ExactlyOne_Shift s = emit Move (exactly_one_shift_clauses s) s"

text \<open>
  For the incoming shifts the code emits the pairs inside the loop over the directions, so the pairs
  found so far are emitted again for every further neighbour.
\<close>

fun incoming_clauses :: "solver \<Rightarrow> nat \<Rightarrow> int \<Rightarrow> nat list \<Rightarrow> int list \<Rightarrow> cnf" where
  "incoming_clauses s v t [] vc = []"
| "incoming_clauses s v t (dir # dirs) vc =
     (if \<not> has_nb s v dir then incoming_clauses s v t dirs vc
      else let u = nb s v dir;
               vc' = (if shift_found (SHIFT s u (opp dir)) t then vc @ [shift_var s u (opp dir) t] else vc) in
        pair_clauses vc' @ incoming_clauses s v t dirs vc')"

definition incoming_bounds :: "solver \<Rightarrow> nat \<Rightarrow> int \<times> int" where
  "incoming_bounds s v =
     fold (\<lambda>dir (lo, hi).
        if has_nb s v dir \<and> the (shift_times_start s) ! nb s v dir \<noteq> -1 then
          (min lo (the (shift_times_start s) ! nb s v dir), max hi (the (shift_times_end s) ! nb s v dir))
        else (lo, hi)) [0..<5] (2 ^ 31 - 1, -1)"

definition exactly_one_incoming_shift_clauses :: "solver \<Rightarrow> cnf" where
  "exactly_one_incoming_shift_clauses s =
     concat [incoming_clauses s v t [0..<5] [].
        v \<leftarrow> [0..<vertices s],
        t \<leftarrow> for_to (fst (incoming_bounds s v)) (snd (incoming_bounds s v) + 1)]"

definition CreateMove_ExactlyOneIncoming_Shift :: "solver \<Rightarrow> solver" where
  "CreateMove_ExactlyOneIncoming_Shift s = emit Move (exactly_one_incoming_shift_clauses s) s"

definition next_vertex_shift_clauses :: "solver \<Rightarrow> cnf" where
  "next_vertex_shift_clauses s =
     [c. a \<leftarrow> [0..<agents s], v \<leftarrow> [0..<vertices s], used (AT s a v),
        t \<leftarrow> for_to (first_timestep (AT s a v)) (last_timestep (AT s a v) + 1),
        dir \<leftarrow> [0..<5], has_nb s v dir, used (AT s a (nb s v dir)),
        \<not> (first_timestep (AT s a (nb s v dir)) > t + 1 \<or> last_timestep (AT s a (nb s v dir)) < t + 1),
        shift_found (SHIFT s v dir) t,
        c \<leftarrow> [[- at_var s a v t, - shift_var s v dir t, at_var s a (nb s v dir) (t + 1)],
             [- at_var s a v t, - at_var s a (nb s v dir) (t + 1), shift_var s v dir t]]]"

definition CreateMove_NextVertex_Shift :: "solver \<Rightarrow> solver" where
  "CreateMove_NextVertex_Shift s = emit Move (next_vertex_shift_clauses s) s"

end
