(* ===== verification/Costs.thy ===== *)
theory Costs
  imports Movement
begin

text \<open>
  The cost constraints of \<open>src/src/encodings/solver_common.cpp\<close>: the three \<open>CreateConst_LimitSoc*\<close>
  operations bound the sum of the delays, and \<open>CreateConst_Avoid\<close> forbids given positions.
\<close>

section \<open>Cost\<close>

text \<open>
  The variable \<open>lit\<close> of an agent and a delay \<open>d\<close> says that the agent is late by more than \<open>d\<close>
  timesteps. \<open>late_chain\<close> is the clause that makes lateness a prefix of the delays.
\<close>

definition late_chain :: "solver \<Rightarrow> int \<Rightarrow> int \<Rightarrow> cnf" where
  "late_chain s d lit = (if d < delta s - 1 then [[lit, - (lit + 1)]] else [])"

definition limit_soc_step :: "solver \<Rightarrow> nat \<times> int \<Rightarrow> int \<Rightarrow> (cnf \<times> int) \<times> int" where
  "limit_soc_step s = (\<lambda>(a, d) lit.
     (([first_variable (AT s a (goal_id (inst s) a)) + d, lit] # late_chain s d lit, lit), lit + 1))"

definition limit_soc_all_at_step :: "solver \<Rightarrow> nat \<times> int \<Rightarrow> int \<Rightarrow> (cnf \<times> int) \<times> int" where
  "limit_soc_all_at_step s = (\<lambda>(a, d) lit.
     let goal_v = goal_id (inst s) a; t = first_timestep (AT s a goal_v) in
     (([[- at_var s a v (t + d), lit]. v \<leftarrow> [0..<vertices s], v \<noteq> goal_v, used (AT s a v),
          \<not> first_timestep (AT s a v) > t + d, \<not> last_timestep (AT s a v) < t + d]
       @ late_chain s d lit, lit), lit + 1))"

definition limit_soc_shift_step :: "solver \<Rightarrow> nat \<times> int \<Rightarrow> int \<Rightarrow> (cnf \<times> int) \<times> int" where
  "limit_soc_shift_step s = (\<lambda>(a, d) lit.
     let goal_v = goal_id (inst s) a; t = first_time s a goal_v in
     (([[- shift_var s (nb s goal_v dir) (opp dir) (t + d), lit]. dir \<leftarrow> [1..<5], has_nb s goal_v dir,
          shift_found (SHIFT s (nb s goal_v dir) (opp dir)) (t + d)]
       @ late_chain s d lit, lit), lit + 1))"

definition limit_soc :: "(solver \<Rightarrow> nat \<times> int \<Rightarrow> int \<Rightarrow> (cnf \<times> int) \<times> int) \<Rightarrow> amk_encoder \<Rightarrow> int \<Rightarrow> solver \<Rightarrow> cnf \<times> int" where
  "limit_soc step enc lit s =
     (let (parts, lit1) = thread (step s) [(a, d). a \<leftarrow> [0..<agents s], d \<leftarrow> for_to 0 (delta s)] lit;
          late_variables = map snd parts;
          (formula, biggest) = enc late_variables (delta s) lit1 in
      (concat (map fst parts) @ formula, biggest + 1))"

definition CreateConst_LimitSoc :: "amk_encoder \<Rightarrow> int \<Rightarrow> solver \<Rightarrow> int \<times> solver" where
  "CreateConst_LimitSoc enc lit s =
     (let (F, lit') = limit_soc limit_soc_step enc lit s in (lit', emit Soc F s))"

definition CreateConst_LimitSoc_AllAt :: "amk_encoder \<Rightarrow> int \<Rightarrow> solver \<Rightarrow> int \<times> solver" where
  "CreateConst_LimitSoc_AllAt enc lit s =
     (let (F, lit') = limit_soc limit_soc_all_at_step enc lit s in (lit', emit Soc F s))"

definition CreateConst_LimitSoc_Shift :: "amk_encoder \<Rightarrow> int \<Rightarrow> solver \<Rightarrow> int \<times> solver" where
  "CreateConst_LimitSoc_Shift enc lit s =
     (let (F, lit') = limit_soc limit_soc_shift_step enc lit s in (lit', emit Soc F s))"

section \<open>Avoided locations\<close>

text \<open>The code reads the map with the coordinates of the location exchanged.\<close>

definition avoid_clauses :: "solver \<Rightarrow> cnf" where
  "avoid_clauses s =
     [[- at_var s a v (avoid_t l)].
        l \<leftarrow> avoid_locations (inst s), avoid_t l < max_timestep s,
        v \<leftarrow> [nat (imap (inst s) ! vy (avoid_v l) ! vx (avoid_v l))],
        a \<leftarrow> [0..<agents s], used (AT s a v)]"

definition CreateConst_Avoid :: "solver \<Rightarrow> solver" where
  "CreateConst_Avoid s = emit Conflict (avoid_clauses s) s"

end
