(* ===== verification/Semantics.thy ===== *)
theory Semantics
  imports Costs
begin

text \<open>
  What the clauses say. \<open>occ s I a v t\<close> reads an assignment: agent \<open>a\<close> has a variable for vertex \<open>v\<close>
  at timestep \<open>t\<close> and the assignment makes it true. Every lemma \<open>*_sem\<close> gives the meaning of one
  clause family over \<open>occ\<close>, so the encodings can be proved without looking at variable numbers.
\<close>

named_theorems clause_sem

definition occ :: "solver \<Rightarrow> assignment \<Rightarrow> nat \<Rightarrow> nat \<Rightarrow> int \<Rightarrow> bool" where
  "occ s I a v t \<longleftrightarrow> at_window s a v t \<and> I (at_var s a v t)"

lemma at_var_pos: "at_table s n lo hi \<Longrightarrow> a < agents s \<Longrightarrow> v < vertices s \<Longrightarrow> at_window s a v t \<Longrightarrow> 0 < at_var s a v t"
  using at_tableD(1,6) [of s n lo hi] by fastforce

lemma neg_occ:
  "at_table s n lo hi \<Longrightarrow> a < agents s \<Longrightarrow> v < vertices s \<Longrightarrow> at_window s a v t \<Longrightarrow>
   lit_true I (- at_var s a v t) \<longleftrightarrow> \<not> occ s I a v t"
  using at_var_pos [of s n lo hi a v t] by (simp add: occ_def cnf_simps)

lemma pos_occ:
  "at_table s n lo hi \<Longrightarrow> a < agents s \<Longrightarrow> v < vertices s \<Longrightarrow> at_window s a v t \<Longrightarrow>
   lit_true I (at_var s a v t) \<longleftrightarrow> occ s I a v t"
  using at_var_pos [of s n lo hi a v t] by (simp add: occ_def cnf_simps)

text \<open>Conditions on the first and last timestep of a cell, as the loops state them, are windows.\<close>

lemma window_iff: "used c \<and> first_timestep c \<le> t \<and> t \<le> last_timestep c \<longleftrightarrow> in_window c t"
  by (auto simp: used_def in_window_def)

lemma window_used: "in_window c t \<Longrightarrow> used c"
  by (simp add: used_def in_window_def)

definition nb_ok :: "solver \<Rightarrow> bool" where
  "nb_ok s \<longleftrightarrow> (\<forall>v < vertices s. \<forall>dir < 5. has_nb s v dir \<longrightarrow> nb s v dir < vertices s)"

text \<open>The shape of the clause lists: list comprehensions.\<close>

lemma cnf_true_loops [cnf_simps]:
  "cnf_true I (concat (map f xs)) \<longleftrightarrow> (\<forall>x \<in> set xs. cnf_true I (f x))"
  "cnf_true I (map g xs) \<longleftrightarrow> (\<forall>x \<in> set xs. clause_true I (g x))"
  "cnf_true I (if P then F else []) \<longleftrightarrow> (P \<longrightarrow> cnf_true I F)"
  by (auto simp: cnf_true_def)

section \<open>Collisions\<close>

lemma conf_vertex_sem [clause_sem]:
  assumes T: "at_table s n lo hi"
  shows "cnf_true I (conf_vertex_clauses s) \<longleftrightarrow>
    (\<forall>v < vertices s. \<forall>a1 < agents s. \<forall>a2 \<in> {a1 + 1..<agents s}. \<forall>t. \<not> (occ s I a1 v t \<and> occ s I a2 v t))"
proof -
  have clause: "clause_true I [- at_var s a1 v t, - at_var s a2 v t] \<longleftrightarrow> \<not> (occ s I a1 v t \<and> occ s I a2 v t)"
    if "v < vertices s" "a1 < agents s" "a2 < agents s" "at_window s a1 v t" "at_window s a2 v t" for v a1 a2 t
    using that neg_occ [OF T] by simp
  have "cnf_true I (conf_vertex_clauses s) \<longleftrightarrow>
    (\<forall>v < vertices s. \<forall>a1 < agents s. \<forall>a2 \<in> {a1 + 1..<agents s}. \<forall>t.
       at_window s a1 v t \<longrightarrow> at_window s a2 v t \<longrightarrow> clause_true I [- at_var s a1 v t, - at_var s a2 v t])"
    unfolding conf_vertex_clauses_def cnf_simps in_window_def used_def
    by (simp del: clause_true_Cons add: Ball_def) (auto simp del: clause_true_Cons)
  then show ?thesis using clause by (simp add: occ_def del: clause_true_Cons cong: imp_cong) blast
qed

lemma conf_swapping_at_sem [clause_sem]:
  assumes T: "at_table s n lo hi" and nb: "nb_ok s"
  shows "cnf_true I (conf_swapping_at_clauses s) \<longleftrightarrow>
    (\<forall>v < vertices s. \<forall>dir \<in> {1..<5}. has_nb s v dir \<longrightarrow> (\<forall>a1 < agents s. \<forall>a2 \<in> {a1 + 1..<agents s}. \<forall>t.
       \<not> (occ s I a1 v t \<and> occ s I a1 (nb s v dir) (t + 1) \<and> occ s I a2 v (t + 1) \<and> occ s I a2 (nb s v dir) t)))"
proof -
  have clause: "clause_true I [- at_var s a1 v t, - at_var s a1 u (t + 1), - at_var s a2 v (t + 1), - at_var s a2 u t] \<longleftrightarrow>
      \<not> (occ s I a1 v t \<and> occ s I a1 u (t + 1) \<and> occ s I a2 v (t + 1) \<and> occ s I a2 u t)"
    if "v < vertices s" "u < vertices s" "a1 < agents s" "a2 < agents s" "at_window s a1 v t" "at_window s a1 u (t + 1)"
      "at_window s a2 v (t + 1)" "at_window s a2 u t" for v u a1 a2 t
    using that neg_occ [OF T] by simp
  have "cnf_true I (conf_swapping_at_clauses s) \<longleftrightarrow>
    (\<forall>v < vertices s. \<forall>dir \<in> {1..<5}. has_nb s v dir \<longrightarrow> (\<forall>a1 < agents s. \<forall>a2 \<in> {a1 + 1..<agents s}. \<forall>t.
       at_window s a1 v t \<longrightarrow> at_window s a1 (nb s v dir) (t + 1) \<longrightarrow> at_window s a2 v (t + 1) \<longrightarrow>
       at_window s a2 (nb s v dir) t \<longrightarrow>
       clause_true I [- at_var s a1 v t, - at_var s a1 (nb s v dir) (t + 1), - at_var s a2 v (t + 1), - at_var s a2 (nb s v dir) t]))"
    unfolding conf_swapping_at_clauses_def cnf_simps in_window_def used_def
    by (simp del: clause_true_Cons add: Ball_def) (auto simp del: clause_true_Cons)
  then show ?thesis using clause nb by (auto simp: occ_def nb_ok_def)
qed

lemma conf_pebble_at_sem [clause_sem]:
  assumes T: "at_table s n lo hi"
  shows "cnf_true I (conf_pebble_at_clauses s) \<longleftrightarrow>
    (\<forall>v < vertices s. \<forall>a1 < agents s. \<forall>a2 < agents s. a1 \<noteq> a2 \<longrightarrow>
       (\<forall>t. \<not> (occ s I a1 v t \<and> occ s I a2 v (t - 1))))"
proof -
  have clause: "clause_true I [- at_var s a1 v t, - at_var s a2 v (t - 1)] \<longleftrightarrow> \<not> (occ s I a1 v t \<and> occ s I a2 v (t - 1))"
    if "v < vertices s" "a1 < agents s" "a2 < agents s" "at_window s a1 v t" "at_window s a2 v (t - 1)" for v a1 a2 t
    using that neg_occ [OF T] by simp
  have "cnf_true I (conf_pebble_at_clauses s) \<longleftrightarrow>
    (\<forall>v < vertices s. \<forall>a1 < agents s. \<forall>a2 < agents s. a1 \<noteq> a2 \<longrightarrow> (\<forall>t.
       at_window s a1 v t \<longrightarrow> at_window s a2 v (t - 1) \<longrightarrow> clause_true I [- at_var s a1 v t, - at_var s a2 v (t - 1)]))"
    unfolding conf_pebble_at_clauses_def cnf_simps in_window_def used_def
    by (simp del: clause_true_Cons add: Ball_def) (auto simp del: clause_true_Cons)
  then show ?thesis using clause by (simp add: occ_def del: clause_true_Cons cong: imp_cong) blast
qed

section \<open>Positions and moves\<close>

lemma start_sem [clause_sem]:
  assumes T: "at_table s n lo hi"
    and start: "\<And>a. a < agents s \<Longrightarrow> start_id (inst s) a < vertices s \<and> first_time s a (start_id (inst s) a) = 0 \<and>
      at_window s a (start_id (inst s) a) 0"
  shows "cnf_true I (start_clauses s) \<longleftrightarrow> (\<forall>a < agents s. occ s I a (start_id (inst s) a) 0)"
proof -
  have "lit_true I (first_variable (AT s a (start_id (inst s) a))) \<longleftrightarrow> occ s I a (start_id (inst s) a) 0"
    if a: "a < agents s" for a
  proof -
    have "first_timestep (AT s a (start_id (inst s) a)) = 0"
      using at_tableD(5) [OF T a] start [OF a] window_used by (auto simp: used_def)
    then have "first_variable (AT s a (start_id (inst s) a)) = at_var s a (start_id (inst s) a) 0"
      by (simp add: var_at_def)
    then show ?thesis using pos_occ [OF T a] start [OF a] by simp
  qed
  then show ?thesis by (simp add: start_clauses_def cnf_simps Ball_def)
qed

lemma goal_sem [clause_sem]:
  assumes T: "at_table s n lo hi"
    and goal: "\<And>a. a < agents s \<Longrightarrow> goal_id (inst s) a < vertices s \<and>
      first_time s a (goal_id (inst s) a) \<le> last_time s n a (goal_id (inst s) a)"
  shows "cnf_true I (goal_clauses s) \<longleftrightarrow>
    (\<forall>a < agents s. occ s I a (goal_id (inst s) a) (last_time s n a (goal_id (inst s) a)))"
proof -
  have "lit_true I (first_variable c + (last_timestep c - first_timestep c)) \<longleftrightarrow>
      occ s I a (goal_id (inst s) a) (last_time s n a (goal_id (inst s) a))"
    if a: "a < agents s" and c: "c = AT s a (goal_id (inst s) a)" for a c
  proof -
    let ?v = "goal_id (inst s) a"
    have v: "?v < vertices s" and le: "first_time s a ?v \<le> last_time s n a ?v" using goal [OF a] by auto
    have eq: "last_timestep c = last_time s n a ?v"
      using at_tableD(4,5) [OF T a v] le c by auto
    have w: "at_window s a ?v (last_time s n a ?v)" using at_tableD(3) [OF T a v] le by simp
    show ?thesis using pos_occ [OF T a v w, of I] eq c by (simp add: var_at_def)
  qed
  then show ?thesis by (simp add: goal_clauses_def cnf_simps Ball_def)
qed

lemma none_at_goal_sem [clause_sem]:
  assumes T: "at_table s n lo hi"
    and goal: "\<And>a. a < agents s \<Longrightarrow> goal_id (inst s) a < vertices s \<and>
      first_time s a (goal_id (inst s) a) \<le> last_time s n a (goal_id (inst s) a)"
  shows "cnf_true I (none_at_goal_clauses s) \<longleftrightarrow>
    (\<forall>a < agents s. \<forall>b < agents s. \<forall>t > last_time s n a (goal_id (inst s) a). \<not> occ s I b (goal_id (inst s) a) t)"
proof -
  have last: "last_timestep (AT s a (goal_id (inst s) a)) = last_time s n a (goal_id (inst s) a)"
    if a: "a < agents s" for a
    using at_tableD(4,5) [OF T a] goal [OF a] by auto
  have clause: "clause_true I [- at_var s b v t] \<longleftrightarrow> \<not> occ s I b v t"
    if "b < agents s" "v < vertices s" "at_window s b v t" for b v t
    using that neg_occ [OF T] by simp
  have "cnf_true I (none_at_goal_clauses s) \<longleftrightarrow>
    (\<forall>a < agents s. \<forall>b < agents s. \<forall>t. at_window s b (goal_id (inst s) a) t \<longrightarrow>
       last_timestep (AT s a (goal_id (inst s) a)) < t \<longrightarrow> clause_true I [- at_var s b (goal_id (inst s) a) t])"
    unfolding none_at_goal_clauses_def cnf_simps in_window_def used_def
    by (simp del: clause_true_Cons add: Ball_def) (auto simp del: clause_true_Cons)
  then show ?thesis using clause goal last by (auto simp: occ_def)
qed

lemma set_next_vertices:
  "set (next_vertices s a v t) =
     {at_var s a (nb s v dir) (t + 1) | dir. dir < 5 \<and> has_nb s v dir \<and> at_window s a (nb s v dir) (t + 1)}"
  by (auto simp: next_vertices_def used_def in_window_def)

lemma next_vertex_at_sem [clause_sem]:
  assumes T: "at_table s n lo hi" and nb: "nb_ok s"
  shows "cnf_true I (next_vertex_at_clauses s) \<longleftrightarrow>
    (\<forall>a < agents s. \<forall>v < vertices s. \<forall>t. occ s I a v t \<longrightarrow>
       (\<exists>dir < 5. has_nb s v dir \<and> at_window s a (nb s v dir) (t + 1)) \<longrightarrow>
       (\<exists>dir < 5. has_nb s v dir \<and> occ s I a (nb s v dir) (t + 1)))"
proof -
  have clause: "clause_true I (next_vertices s a v t @ [- at_var s a v t]) \<longleftrightarrow>
      (occ s I a v t \<longrightarrow> (\<exists>dir < 5. has_nb s v dir \<and> occ s I a (nb s v dir) (t + 1)))"
    if av: "a < agents s" "v < vertices s" "at_window s a v t" for a v t
  proof -
    have "clause_true I (next_vertices s a v t) \<longleftrightarrow>
        (\<exists>dir < 5. has_nb s v dir \<and> at_window s a (nb s v dir) (t + 1) \<and> lit_true I (at_var s a (nb s v dir) (t + 1)))"
      unfolding clause_true_def set_next_vertices by blast
    also have "\<dots> \<longleftrightarrow> (\<exists>dir < 5. has_nb s v dir \<and> occ s I a (nb s v dir) (t + 1))"
      using pos_occ [OF T av(1)] nb av(2) by (auto simp: nb_ok_def occ_def)
    finally show ?thesis using neg_occ [OF T av] by auto
  qed
  have ne: "next_vertices s a v t \<noteq> [] \<longleftrightarrow>
      (\<exists>dir < 5. has_nb s v dir \<and> at_window s a (nb s v dir) (t + 1))" for a v t
    using set_next_vertices [of s a v t] by (simp flip: set_empty) blast
  have "cnf_true I (next_vertex_at_clauses s) \<longleftrightarrow>
    (\<forall>a < agents s. \<forall>v < vertices s. \<forall>t. at_window s a v t \<longrightarrow> next_vertices s a v t \<noteq> [] \<longrightarrow>
       clause_true I (next_vertices s a v t @ [- at_var s a v t]))"
    unfolding next_vertex_at_clauses_def cnf_simps in_window_def used_def
    by (simp del: clause_true_Cons clause_true_append add: Ball_def) (auto simp del: clause_true_Cons clause_true_append)
  then show ?thesis using clause ne by (simp add: occ_def del: clause_true_append cong: imp_cong) blast
qed

end
