(* ===== verification/Cardinality.thy ===== *)
theory Cardinality
  imports Semantics
begin

text \<open>
  The parts of the formula with auxiliary variables: the at-most-one constraints of
  \<open>CreateMove_NoDuplicates\<close> and the cost limits \<open>CreateConst_LimitSoc\<close> and
  \<open>CreateConst_LimitSoc_AllAt\<close>. A gadget is a block of clauses whose own variables are new: it
  implies a condition on the old variables, and every assignment that meets the condition extends
  to the new ones.
\<close>

section \<open>Gadgets\<close>

definition depends_below :: "int \<Rightarrow> (assignment \<Rightarrow> bool) \<Rightarrow> bool" where
  "depends_below b P \<longleftrightarrow> (\<forall>I J. (\<forall>x < b. I x = J x) \<longrightarrow> P I = P J)"

definition gadget :: "cnf \<Rightarrow> int \<Rightarrow> int \<Rightarrow> (assignment \<Rightarrow> bool) \<Rightarrow> bool" where
  "gadget F lo hi P \<longleftrightarrow>
     lo \<le> hi \<and> cnf_vars F \<subseteq> {..<hi} \<and> (\<forall>I. cnf_true I F \<longrightarrow> P I) \<and>
     (\<forall>I. P I \<longrightarrow> (\<exists>J. (\<forall>x < lo. J x = I x) \<and> cnf_true J F))"

lemma gadgetD:
  assumes "gadget F lo hi P"
  shows "lo \<le> hi" "cnf_vars F \<subseteq> {..<hi}" "cnf_true I F \<Longrightarrow> P I"
    "P I \<Longrightarrow> \<exists>J. (\<forall>x < lo. J x = I x) \<and> cnf_true J F"
  using assms unfolding gadget_def by blast+

lemma gadget_empty: "gadget [] lo lo (\<lambda>I. True)"
  by (auto simp: gadget_def)

lemma gadget_append:
  assumes F: "gadget F lo mid P" and G: "gadget G mid hi Q"
    and P: "depends_below b P" and Q: "depends_below b Q" and b: "b \<le> lo"
  shows "gadget (F @ G) lo hi (\<lambda>I. P I \<and> Q I)"
  unfolding gadget_def
proof (intro conjI allI impI)
  show "lo \<le> hi" using gadgetD(1) [OF F] gadgetD(1) [OF G] by simp
  show "cnf_vars (F @ G) \<subseteq> {..<hi}"
    using gadgetD(2) [OF F] gadgetD(2) [OF G] gadgetD(1) [OF G] by fastforce
  show "P I" "Q I" if "cnf_true I (F @ G)" for I
    using that gadgetD(3) [OF F] gadgetD(3) [OF G] by auto
  show "\<exists>J. (\<forall>x < lo. J x = I x) \<and> cnf_true J (F @ G)" if PQ: "P I \<and> Q I" for I
  proof -
    obtain J where J: "\<forall>x < lo. J x = I x" "cnf_true J F" using gadgetD(4) [OF F] PQ by blast
    have "Q J" using Q J(1) PQ b unfolding depends_below_def by (metis order_less_le_trans)
    then obtain K where K: "\<forall>x < mid. K x = J x" "cnf_true K G" using gadgetD(4) [OF G] by blast
    have "cnf_true K F"
      using J(2) K(1) gadgetD(2) [OF F] cnf_true_cong [of F K J] by blast
    then show ?thesis using J K gadgetD(1) [OF F] by (intro exI [of _ K]) auto
  qed
qed

lemma depends_below_all: "(\<And>k. k \<in> A \<Longrightarrow> depends_below b (P k)) \<Longrightarrow> depends_below b (\<lambda>I. \<forall>k \<in> A. P k I)"
  unfolding depends_below_def by blast

lemma gadget_thread:
  assumes "\<And>k l. k \<in> set ks \<Longrightarrow> b \<le> l \<Longrightarrow> gadget (fst (f k l)) l (snd (f k l)) (P k)"
    and "\<And>k. k \<in> set ks \<Longrightarrow> depends_below b (P k)" and "b \<le> l"
  shows "gadget (concat (fst (thread f ks l))) l (snd (thread f ks l)) (\<lambda>I. \<forall>k \<in> set ks. P k I)"
  using assms
proof (induction ks arbitrary: l)
  case Nil
  then show ?case by (simp add: gadget_empty)
next
  case (Cons k ks)
  have F: "gadget (fst (f k l)) l (snd (f k l)) (P k)" using Cons.prems by simp
  have le: "b \<le> snd (f k l)" using gadgetD(1) [OF F] Cons.prems(3) by simp
  have G: "gadget (concat (fst (thread f ks (snd (f k l))))) (snd (f k l)) (snd (thread f ks (snd (f k l))))
      (\<lambda>I. \<forall>k \<in> set ks. P k I)"
    using Cons.prems le by (intro Cons.IH) auto
  have "depends_below b (\<lambda>I. \<forall>k \<in> set ks. P k I)" using Cons.prems(2) by (intro depends_below_all) auto
  with gadget_append [OF F G _ this] Cons.prems show ?case
    by (simp add: fst_thread_Cons snd_thread_Cons)
qed

section \<open>The cardinality encoder\<close>

text \<open>
  What the sources rely on when they call PBLib: the clauses use the given literals and new
  variables from \<open>first_aux\<close> up to the returned one, they allow at most \<open>k\<close> of the literals, and
  every assignment with at most \<open>k\<close> of them extends to the new variables.
\<close>

definition amk_ok :: "amk_encoder \<Rightarrow> bool" where
  "amk_ok enc \<longleftrightarrow>
     (\<forall>xs k l. (\<forall>x \<in> set xs. 0 < x \<and> x < l) \<longrightarrow> 0 \<le> k \<longrightarrow> 1 \<le> l \<longrightarrow>
        gadget (fst (enc xs k l)) l (snd (enc xs k l) + 1) (\<lambda>I. int (length (filter I xs)) \<le> k))"

lemma amk_okD:
  "amk_ok enc \<Longrightarrow> (\<And>x. x \<in> set xs \<Longrightarrow> 0 < x \<and> x < l) \<Longrightarrow> 0 \<le> k \<Longrightarrow> 1 \<le> l \<Longrightarrow>
   gadget (fst (enc xs k l)) l (snd (enc xs k l) + 1) (\<lambda>I. int (length (filter I xs)) \<le> k)"
  by (simp add: amk_ok_def)

text \<open>
  An encoder with this behaviour: one clause for every choice of \<open>k + 1\<close> literals.
\<close>

definition naive_amk :: amk_encoder where
  "naive_amk xs k l = (map (map uminus) (filter (\<lambda>ys. int (length ys) = k + 1) (subseqs xs)), l - 1)"

lemma filter_subseq: "filter P xs \<in> set (subseqs xs)"
  by (induction xs) (auto simp: Let_def)

lemma take_subseq: "ys \<in> set (subseqs xs) \<Longrightarrow> take n ys \<in> set (subseqs xs)"
proof (induction xs arbitrary: ys n)
  case (Cons x xs)
  then consider ys' where "ys = x # ys'" "ys' \<in> set (subseqs xs)" | "ys \<in> set (subseqs xs)"
    by (auto simp: Let_def)
  then show ?case
  proof cases
    case 1
    then show ?thesis
    proof (cases n)
      case 0
      have "[] \<in> set (subseqs xs)" using filter_subseq [of "\<lambda>_. False" xs] by simp
      then show ?thesis using 0 by (simp add: Let_def)
    next
      case (Suc m)
      then show ?thesis using 1 Cons.IH [of ys' m] by (auto simp: Let_def)
    qed
  next
    case 2
    then show ?thesis using Cons.IH by (auto simp: Let_def)
  qed
qed simp

lemma subseq_filter_length: "ys \<in> set (subseqs xs) \<Longrightarrow> length (filter P ys) \<le> length (filter P xs)"
  by (induction xs arbitrary: ys) (auto simp: Let_def le_SucI)

lemma subseq_set: "ys \<in> set (subseqs xs) \<Longrightarrow> set ys \<subseteq> set xs"
  by (induction xs arbitrary: ys) (fastforce simp: Let_def)+

lemma naive_amk_sem:
  assumes "\<And>x. x \<in> set xs \<Longrightarrow> 0 < x" and k: "0 \<le> k"
  shows "cnf_true I (fst (naive_amk xs k l)) \<longleftrightarrow> int (length (filter I xs)) \<le> k"
proof -
  have clause: "clause_true I (map uminus ys) \<longleftrightarrow> \<not> (\<forall>y \<in> set ys. I y)" if "ys \<in> set (subseqs xs)" for ys
  proof -
    have "lit_true I (- y) = (\<not> I y)" if "y \<in> set ys" for y
      using that subseq_set [OF \<open>ys \<in> set (subseqs xs)\<close>] assms(1) by (intro lit_true_neg) blast
    then show ?thesis by (simp add: clause_true_def)
  qed
  have "cnf_true I (fst (naive_amk xs k l)) \<longleftrightarrow>
      (\<forall>ys \<in> set (subseqs xs). int (length ys) = k + 1 \<longrightarrow> \<not> (\<forall>y \<in> set ys. I y))"
    using clause by (auto simp: naive_amk_def cnf_true_def)
  also have "\<dots> \<longleftrightarrow> int (length (filter I xs)) \<le> k"
  proof
    assume all: "\<forall>ys \<in> set (subseqs xs). int (length ys) = k + 1 \<longrightarrow> \<not> (\<forall>y \<in> set ys. I y)"
    show "int (length (filter I xs)) \<le> k"
    proof (rule ccontr)
      assume "\<not> int (length (filter I xs)) \<le> k"
      then have "int (length (take (nat (k + 1)) (filter I xs))) = k + 1" using k by simp
      moreover have "take (nat (k + 1)) (filter I xs) \<in> set (subseqs xs)"
        using filter_subseq by (rule take_subseq)
      moreover have "\<forall>y \<in> set (take (nat (k + 1)) (filter I xs)). I y" by (auto dest: in_set_takeD)
      ultimately show False using all by blast
    qed
  next
    assume le: "int (length (filter I xs)) \<le> k"
    show "\<forall>ys \<in> set (subseqs xs). int (length ys) = k + 1 \<longrightarrow> \<not> (\<forall>y \<in> set ys. I y)"
    proof (intro ballI impI notI)
      fix ys assume ys: "ys \<in> set (subseqs xs)" "int (length ys) = k + 1" "\<forall>y \<in> set ys. I y"
      then have "length (filter I ys) = length ys" by simp
      then show False using subseq_filter_length [OF ys(1), of I] ys(2) le by simp
    qed
  qed
  finally show ?thesis .
qed

lemma naive_amk_ok: "amk_ok naive_amk"
  unfolding amk_ok_def gadget_def
proof (intro allI impI conjI)
  fix xs and k l :: int assume xs: "\<forall>x \<in> set xs. 0 < x \<and> x < l" and k: "0 \<le> k" and l: "1 \<le> l"
  show "l \<le> snd (naive_amk xs k l) + 1" by (simp add: naive_amk_def)
  have sub: "\<And>ys. ys \<in> set (subseqs xs) \<Longrightarrow> set ys \<subseteq> set xs" by (rule subseq_set)
  have "x < l" if "x \<in> cnf_vars (fst (naive_amk xs k l))" for x
    using that xs sub by (fastforce simp: naive_amk_def cnf_vars_def clause_vars_def)
  then show "cnf_vars (fst (naive_amk xs k l)) \<subseteq> {..<snd (naive_amk xs k l) + 1}"
    by (auto simp: naive_amk_def)
  have sem: "cnf_true I (fst (naive_amk xs k l)) \<longleftrightarrow> int (length (filter I xs)) \<le> k" for I
    using naive_amk_sem xs k by simp
  show "int (length (filter I xs)) \<le> k" if "cnf_true I (fst (naive_amk xs k l))" for I
    using sem that by simp
  show "\<exists>J. (\<forall>x < l. J x = I x) \<and> cnf_true J (fst (naive_amk xs k l))"
    if "int (length (filter I xs)) \<le> k" for I
    using sem that by blast
qed

section \<open>One vertex per agent\<close>

definition single_at :: "solver \<Rightarrow> nat \<Rightarrow> int \<Rightarrow> assignment \<Rightarrow> bool" where
  "single_at s a t I \<longleftrightarrow> (\<forall>v < vertices s. \<forall>u < vertices s. occ s I a v t \<longrightarrow> occ s I a u t \<longrightarrow> v = u)"

lemma present_vars_eq:
  "present_vars s a t = map (\<lambda>v. at_var s a v t) (filter (\<lambda>v. at_window s a v t) [0..<vertices s])"
proof -
  have "concat (map (\<lambda>v. if used (AT s a v) then if \<not> (first_timestep (AT s a v) > t \<or> last_timestep (AT s a v) < t)
        then [at_var s a v t] else [] else []) vs) = map (\<lambda>v. at_var s a v t) (filter (\<lambda>v. at_window s a v t) vs)" for vs
    by (induction vs) (auto simp: used_def in_window_def)
  then show ?thesis by (simp add: present_vars_def)
qed

lemma present_vars_count:
  "length (filter I (present_vars s a t)) \<le> 1 \<longleftrightarrow> single_at s a t I"
proof -
  have "length (filter I (present_vars s a t)) = card {v. v < vertices s \<and> occ s I a v t}"
  proof -
    have "length (filter I (present_vars s a t)) = length (filter (\<lambda>v. occ s I a v t) [0..<vertices s])"
      by (simp add: present_vars_eq filter_map comp_def occ_def conj_commute)
    also have "\<dots> = card (set (filter (\<lambda>v. occ s I a v t) [0..<vertices s]))"
      by (intro distinct_card [symmetric]) simp
    also have "set (filter (\<lambda>v. occ s I a v t) [0..<vertices s]) = {v. v < vertices s \<and> occ s I a v t}" by auto
    finally show ?thesis .
  qed
  then show ?thesis by (auto simp: card_le_Suc0_iff_eq single_at_def)
qed

lemma occ_depends:
  assumes "at_table s n lo hi" "a < agents s" "v < vertices s" "\<forall>x < hi. I x = J x"
  shows "occ s I a v t = occ s J a v t"
  using at_tableD(6) [OF assms(1-3)] assms(4) by (auto simp: occ_def)

lemma single_at_depends:
  assumes "at_table s n lo hi" "a < agents s"
  shows "depends_below hi (single_at s a t)"
  unfolding depends_below_def
proof (intro allI impI)
  fix I J :: assignment assume eq: "\<forall>x < hi. I x = J x"
  have "occ s I a v t = occ s J a v t" if "v < vertices s" for v
    by (rule occ_depends [OF assms that eq])
  then show "single_at s a t I = single_at s a t J" by (simp add: single_at_def)
qed

lemma no_duplicates_gadget:
  assumes T: "at_table s n lo hi" and enc: "amk_ok enc" and l: "hi \<le> l"
  shows "gadget (fst (no_duplicates enc l s)) l (snd (no_duplicates enc l s))
    (\<lambda>I. \<forall>a < agents s. \<forall>t \<in> {0..<max_timestep s}. single_at s a t I)"
proof -
  let ?ks = "[(a, t). a \<leftarrow> [0..<agents s], t \<leftarrow> for_to 0 (max_timestep s)]"
  let ?P = "\<lambda>(a, t). single_at s a t"
  have ks: "(a, t) \<in> set ?ks \<longleftrightarrow> a < agents s \<and> t \<in> {0..<max_timestep s}" for a t
    by (auto simp: image_iff)
  have step: "gadget (fst (no_duplicates_step enc s k m)) m (snd (no_duplicates_step enc s k m)) (?P k)"
    if k: "k \<in> set ?ks" and m: "hi \<le> m" for k m
  proof -
    obtain a t where at: "k = (a, t)" "a < agents s"
      using k ks [of "fst k" "snd k"] by (metis prod.collapse)
    have range: "0 < x \<and> x < m" if "x \<in> set (present_vars s a t)" for x
      using that at_tableD(6) [OF T at(2)] at_var_pos [OF T at(2)] m by (fastforce simp: present_vars_eq)
    show ?thesis
    proof (cases "length (present_vars s a t) > 1")
      case True
      have "gadget (fst (enc (present_vars s a t) 1 m)) m (snd (enc (present_vars s a t) 1 m) + 1)
          (\<lambda>I. int (length (filter I (present_vars s a t))) \<le> 1)"
        using at_tableD(1,2) [OF T] m by (intro amk_okD [OF enc] range) auto
      moreover have "(\<lambda>I. int (length (filter I (present_vars s a t))) \<le> 1) = single_at s a t"
        using present_vars_count by (intro ext) simp
      ultimately show ?thesis
        using True at by (simp add: no_duplicates_step_def Let_def case_prod_beta)
    next
      case False
      then have "length (filter I (present_vars s a t)) \<le> 1" for I
        using length_filter_le [of I "present_vars s a t"] by linarith
      then have "single_at s a t = (\<lambda>I. True)" using present_vars_count by blast
      then show ?thesis using False at by (simp add: no_duplicates_step_def gadget_empty)
    qed
  qed
  have dep: "depends_below hi (?P k)" if k: "k \<in> set ?ks" for k
    using k ks [of "fst k" "snd k"] single_at_depends [OF T, of "fst k" "snd k"] by (simp add: case_prod_beta)
  have "gadget (concat (fst (thread (no_duplicates_step enc s) ?ks l))) l
      (snd (thread (no_duplicates_step enc s) ?ks l)) (\<lambda>I. \<forall>k \<in> set ?ks. ?P k I)"
    using step dep l by (rule gadget_thread)
  moreover have "(\<lambda>I. \<forall>k \<in> set ?ks. ?P k I) =
      (\<lambda>I. \<forall>a < agents s. \<forall>t \<in> {0..<max_timestep s}. single_at s a t I)"
    using ks by (intro ext) auto
  ultimately show ?thesis by (simp add: no_duplicates_def case_prod_beta Let_def)
qed

end
