(* ===== verification/Sum_Of_Costs.thy ===== *)
theory Sum_Of_Costs
  imports Cardinality
begin

text \<open>
  The meaning of the cost limits: \<open>CreateConst_LimitSoc\<close> and \<open>CreateConst_LimitSoc_AllAt\<close> allow
  exactly the assignments in which the agents can be given delays, at most \<open>delta\<close> in sum, such that
  every agent is on time once its delay is over.
\<close>

section \<open>Counting\<close>

lemma thread_counter:
  assumes "\<And>k m. f k m = (g k m, m + (1::int))"
  shows "thread f ks l = (map (\<lambda>i. g (ks ! i) (l + int i)) [0..<length ks], l + int (length ks))"
proof (induction ks arbitrary: l)
  case (Cons k ks)
  have "map (\<lambda>i. g ((k # ks) ! i) (l + int i)) [0..<length (k # ks)] =
      g k l # map (\<lambda>i. g (ks ! i) (l + 1 + int i)) [0..<length ks]"
    unfolding length_Cons upt_conv_Cons [OF zero_less_Suc] map_Suc_upt [symmetric]
    by (simp add: comp_def algebra_simps)
  then show ?case using Cons.IH [of "l + 1"] by (simp add: thread.simps(2) assms)
qed simp

lemma agent_delay_keys:
  "[(a, d). a \<leftarrow> [0..<n], d \<leftarrow> [0..int D - 1]] = map (\<lambda>i. (i div D, int (i mod D))) [0..<n * D]"
proof (induction n)
  case (Suc n)
  have "[0..int D - 1] = map int [0..<D]"
  proof (induction D)
    case (Suc D)
    then show ?case using upto_rec2 [of 0 "int D"] by simp
  qed simp
  then have "map (Pair n) [0..int D - 1] = map (\<lambda>i. (i div D, int (i mod D))) (map (\<lambda>d. d + n * D) [0..<D])"
    by simp
  moreover have "[0..<Suc n * D] = [0..<n * D] @ map (\<lambda>d. d + n * D) [0..<D]"
    using upt_add_eq_append [of 0 "n * D" D] by (simp add: map_add_upt add.commute)
  ultimately show ?case using Suc by simp
qed simp

lemma count_rows:
  "length (filter P [0..<n * D]) = (\<Sum>a<n. card {d. d < D \<and> P (a * D + d)})"
proof (induction n)
  case (Suc n)
  have "[0..<Suc n * D] = [0..<n * D] @ map (\<lambda>d. d + n * D) [0..<D]"
    using upt_add_eq_append [of 0 "n * D" D] by (simp add: map_add_upt add.commute)
  moreover have "length (filter (\<lambda>d. P (n * D + d)) [0..<D]) = card {d. d < D \<and> P (n * D + d)}"
    using distinct_card [of "filter (\<lambda>d. P (n * D + d)) [0..<D]"]
    by (simp add: Int_def conj_commute)
  ultimately show ?case using Suc by (simp add: filter_map comp_def add.commute)
qed simp

lemma card_below: "card {d. d < D \<and> P d} \<le> (D::nat)"
  using card_mono [of "{..<D}" "{d. d < D \<and> P d}"] by auto

lemma prefix_card:
  assumes "\<And>d. Suc d < D \<Longrightarrow> f (Suc d) \<Longrightarrow> f d" and "d < (D::nat)"
  shows "f d \<longleftrightarrow> d < card {e. e < D \<and> f e}"
proof -
  let ?S = "{e. e < D \<and> f e}"
  have down: "j \<le> e \<Longrightarrow> f j" if "e < D" "f e" for e j
    using that by (induction e) (use assms(1) le_Suc_eq Suc_lessD in auto)
  have "?S = {..<card ?S}"
  proof (cases "?S = {}")
    case False
    then have M: "Max ?S \<in> ?S" by (intro Max_in) auto
    have "?S = {..Max ?S}"
    proof
      show "?S \<subseteq> {..Max ?S}" by (auto intro: Max_ge)
      show "{..Max ?S} \<subseteq> ?S" using M down by (auto intro: order_le_less_trans)
    qed
    then show ?thesis by (metis card_atMost lessThan_Suc_atMost)
  next
    case True
    then show ?thesis by (metis card.empty lessThan_0)
  qed
  then show ?thesis using assms(2) by blast
qed

section \<open>The cost limit as a gadget\<close>

definition within_delay :: "solver \<Rightarrow> (nat \<Rightarrow> nat \<Rightarrow> assignment \<Rightarrow> bool) \<Rightarrow> assignment \<Rightarrow> bool" where
  "within_delay s on_time I \<longleftrightarrow>
     (\<exists>k. (\<forall>a < agents s. k a \<le> nat (delta s)) \<and> (\<Sum>a<agents s. k a) \<le> nat (delta s) \<and>
        (\<forall>a < agents s. \<forall>d. k a \<le> d \<longrightarrow> d < nat (delta s) \<longrightarrow> on_time a d I))"

text \<open>The steps of both operations: clauses that force the late variable unless the agent is on time.\<close>

definition late_step ::
  "(solver \<Rightarrow> nat \<times> int \<Rightarrow> int \<Rightarrow> (cnf \<times> int) \<times> int) \<Rightarrow> solver \<Rightarrow> int \<Rightarrow> (nat \<Rightarrow> nat \<Rightarrow> assignment \<Rightarrow> bool) \<Rightarrow> bool" where
  "late_step step s hi on_time \<longleftrightarrow>
     (\<exists>C. (\<forall>k m. step s k m = ((C k m @ late_chain s (snd k) m, m), m + 1)) \<and>
        (\<forall>a < agents s. \<forall>d < nat (delta s). \<forall>m \<ge> hi.
           cnf_vars (C (a, int d) m) \<subseteq> {..<hi} \<union> {m} \<and>
           (\<forall>I. cnf_true I (C (a, int d) m) \<longleftrightarrow> on_time a d I \<or> I m))) \<and>
     (\<forall>a < agents s. \<forall>d < nat (delta s). depends_below hi (on_time a d))"

lemma late_chain_sem:
  "1 \<le> m \<Longrightarrow> cnf_true I (late_chain s d m) \<longleftrightarrow> (d < delta s - 1 \<longrightarrow> I (m + 1) \<longrightarrow> I m)"
  using lit_true_neg [of "m + 1" I] lit_true_pos [of m I] by (auto simp: late_chain_def)

lemma late_chain_vars: "1 \<le> m \<Longrightarrow> cnf_vars (late_chain s d m) \<subseteq> {m, m + 1}"
  by (auto simp: late_chain_def clause_vars_def)

lemma row_index:
  assumes "i < n * (D::nat)"
  shows "i div D < n" "i mod D < D" "i = i div D * D + i mod D"
proof -
  have "0 < D" using assms by (cases D) auto
  then show "i mod D < D" "i = i div D * D + i mod D" by auto
  show "i div D < n" using assms by (simp add: less_mult_imp_div_less)
qed

lemma index_row: "a < n \<Longrightarrow> d < D \<Longrightarrow> a * D + d < n * (D::nat)"
  by (metis add_less_cancel_left less_le_trans mult_Suc_right mult.commute mult_le_mono1 Suc_leI add.commute)

lemma late_row_last:
  assumes "a < n" "Suc d < D"
  shows "(a * D + d) div D = a" "(a * D + d) mod D = d"
  using assms by simp_all

lemma limit_soc_gadget:
  assumes step: "late_step step s hi on_time" and enc: "amk_ok enc" and l: "hi \<le> l" "1 \<le> hi"
    and delta: "0 \<le> delta s"
  shows "gadget (fst (limit_soc step enc l s)) l (snd (limit_soc step enc l s)) (within_delay s on_time)"
proof -
  let ?n = "agents s" and ?D = "nat (delta s)"
  define N where "N = ?n * ?D"
  note row_index = row_index [where n = ?n and D = ?D, folded N_def]
  note index_row = index_row [where n = ?n and D = ?D, folded N_def]
  from step obtain C where C': "\<forall>k m. step s k m = ((C k m @ late_chain s (snd k) m, m), m + 1)"
    and sem': "\<forall>a < ?n. \<forall>d < ?D. \<forall>m \<ge> hi. cnf_vars (C (a, int d) m) \<subseteq> {..<hi} \<union> {m} \<and>
           (\<forall>I. cnf_true I (C (a, int d) m) \<longleftrightarrow> on_time a d I \<or> I m)"
    and dep': "\<forall>a < ?n. \<forall>d < ?D. depends_below hi (on_time a d)"
    unfolding late_step_def by (elim conjE exE)
  from C' have C: "step s k m = ((C k m @ late_chain s (snd k) m, m), m + 1)" for k m by blast
  from sem' have vars: "cnf_vars (C (a, int d) m) \<subseteq> {..<hi} \<union> {m}"
    and sem: "cnf_true I (C (a, int d) m) \<longleftrightarrow> on_time a d I \<or> I m"
    if "a < ?n" "d < ?D" "hi \<le> m" for a d m I using that by simp_all
  from dep' have dep: "depends_below hi (on_time a d)" if "a < ?n" "d < ?D" for a d using that by simp
  let ?part = "\<lambda>i. C (i div ?D, int (i mod ?D)) (l + int i) @ late_chain s (int (i mod ?D)) (l + int i)"
  let ?late = "map (\<lambda>i. l + int i) [0..<N]" and ?l1 = "l + int N"
  define F1 where "F1 = concat (map ?part [0..<N])"
  define F2 where "F2 = fst (enc ?late (delta s) ?l1)"
  define hi2 where "hi2 = snd (enc ?late (delta s) ?l1) + 1"
  have keys: "[(a, d). a \<leftarrow> [0..<?n], d \<leftarrow> for_to 0 (delta s)] = map (\<lambda>i. (i div ?D, int (i mod ?D))) [0..<N]"
    using agent_delay_keys [where n = ?n and D = ?D] delta by (simp add: N_def)
  have thr: "thread (step s) (map (\<lambda>i. (i div ?D, int (i mod ?D))) [0..<N]) l =
      (map (\<lambda>i. (?part i, l + int i)) [0..<N], ?l1)"
    unfolding thread_counter [where f = "step s" and g = "\<lambda>k m. (C k m @ late_chain s (snd k) m, m)", OF C] by simp
  have eq: "limit_soc step enc l s = (F1 @ F2, hi2)"
    by (simp only: limit_soc_def keys thr) (simp add: F1_def F2_def hi2_def comp_def case_prod_beta Let_def)
  have G: "gadget F2 ?l1 hi2 (\<lambda>I. int (length (filter I ?late)) \<le> delta s)"
    unfolding F2_def hi2_def using l delta by (intro amk_okD [OF enc]) auto
  have count: "length (filter I ?late) = (\<Sum>a<?n. card {d. d < ?D \<and> I (l + int (a * ?D + d))})" for I
    by (simp add: filter_map comp_def N_def count_rows)
  have F1_sem: "cnf_true I F1 \<longleftrightarrow>
      (\<forall>i < N. (on_time (i div ?D) (i mod ?D) I \<or> I (l + int i)) \<and>
         (int (i mod ?D) < delta s - 1 \<longrightarrow> I (l + int i + 1) \<longrightarrow> I (l + int i)))" for I
    using row_index sem l by (simp add: F1_def cnf_simps late_chain_sem Ball_def)
  have F1_vars: "cnf_vars F1 \<subseteq> {..<?l1}"
  proof -
    have "x < ?l1" if i: "i < N" and x: "x \<in> cnf_vars (?part i)" for i x
    proof -
      have "x \<in> {..<hi} \<union> {l + int i} \<or> x \<in> cnf_vars (late_chain s (int (i mod ?D)) (l + int i))"
        using x vars [of "i div ?D" "i mod ?D" "l + int i"] row_index [OF i] l by auto
      moreover have "x < ?l1" if "x \<in> cnf_vars (late_chain s (int (i mod ?D)) (l + int i))"
      proof -
        have "Suc (i mod ?D) < ?D" using that by (auto simp: late_chain_def split: if_splits)
        then have "i div ?D * ?D + Suc (i mod ?D) < N" using row_index(1) [OF i] by (intro index_row)
        then have "Suc i < N" using row_index(3) [OF i] by simp
        then show ?thesis using that late_chain_vars [of "l + int i" s "int (i mod ?D)"] l by auto
      qed
      ultimately show ?thesis using i l by auto
    qed
    then show ?thesis unfolding F1_def cnf_vars_concat by auto
  qed
  show ?thesis
    unfolding eq fst_conv snd_conv gadget_def
  proof (intro conjI allI impI)
    show "l \<le> hi2" using gadgetD(1) [OF G] by simp
    show "cnf_vars (F1 @ F2) \<subseteq> {..<hi2}" using F1_vars gadgetD(1,2) [OF G] by fastforce
  next
    fix I assume I: "cnf_true I (F1 @ F2)"
    let ?k = "\<lambda>a. card {d. d < ?D \<and> I (l + int (a * ?D + d))}"
    have F1: "cnf_true I F1" and le: "int (length (filter I ?late)) \<le> delta s"
      using I gadgetD(3) [OF G] by auto
    have "(\<Sum>a<?n. ?k a) \<le> ?D" using le unfolding count by linarith
    moreover have "?k a \<le> ?D" for a
      by (rule card_below)
    moreover have "on_time a d I" if ad: "a < ?n" "?k a \<le> d" "d < ?D" for a d
    proof -
      have chain: "I (l + int (a * ?D + e))" if "Suc e < ?D" "I (l + int (a * ?D + Suc e))" for e
      proof -
        have i: "a * ?D + e < N" using ad(1) that(1) by (intro index_row) auto
        have "int ((a * ?D + e) mod ?D) < delta s - 1" using that(1) by simp
        then show ?thesis using F1 i that(2) unfolding F1_sem by (auto simp: algebra_simps)
      qed
      have "\<not> I (l + int (a * ?D + d))"
        using prefix_card [of ?D "\<lambda>e. I (l + int (a * ?D + e))" d] chain ad(2,3) by simp
      moreover have "a * ?D + d < N" using ad by (intro index_row)
      ultimately show ?thesis using F1 ad(3) unfolding F1_sem by force
    qed
    ultimately show "within_delay s on_time I" unfolding within_delay_def by (intro exI [of _ ?k]) blast
  next
    fix I assume "within_delay s on_time I"
    then obtain k where k: "(\<Sum>a<?n. k a) \<le> ?D" "\<And>a. a < ?n \<Longrightarrow> k a \<le> ?D"
      "\<And>a d. a < ?n \<Longrightarrow> k a \<le> d \<Longrightarrow> d < ?D \<Longrightarrow> on_time a d I"
      unfolding within_delay_def by blast
    define J where "J x = (if l \<le> x \<and> x < ?l1 then nat (x - l) mod ?D < k (nat (x - l) div ?D) else I x)" for x
    have late: "J (l + int (a * ?D + d)) \<longleftrightarrow> d < k a" if "a < ?n" "d < ?D" for a d
    proof -
      have "int (a * ?D + d) < int N" using index_row [OF that] by (simp only: of_nat_less_iff)
      then show ?thesis using that unfolding J_def by (simp add: nat_int_add del: of_nat_add of_nat_mult)
    qed
    have old: "on_time a d J = on_time a d I" if "a < ?n" "d < ?D" for a d
      using dep [OF that] l unfolding depends_below_def by (metis J_def order_less_le_trans linorder_not_less)
    have "{d. d < ?D \<and> J (l + int (a * ?D + d))} = {..<k a}" if "a < ?n" for a
      using late [OF that] k(2) [OF that] by auto
    then have "length (filter J ?late) = (\<Sum>a<?n. k a)" unfolding count by (intro sum.cong) simp_all
    then have "int (length (filter J ?late)) \<le> delta s" using k(1) delta by linarith
    then obtain K where K: "\<forall>x < ?l1. K x = J x" "cnf_true K F2" using gadgetD(4) [OF G] by blast
    have "cnf_true J F1"
      unfolding F1_sem
    proof (intro allI impI conjI)
      fix i assume i: "i < N"
      note r = row_index [OF i]
      have now: "J (l + int i) \<longleftrightarrow> i mod ?D < k (i div ?D)" using late [OF r(1,2)] r(3) by simp
      show "on_time (i div ?D) (i mod ?D) J \<or> J (l + int i)"
        using now old [OF r(1,2)] k(3) [OF r(1) _ r(2)] by linarith
      assume "int (i mod ?D) < delta s - 1" and nxt: "J (l + int i + 1)"
      then have "Suc (i mod ?D) < ?D" by simp
      from late [OF r(1) this] have "J (l + int (i div ?D * ?D + Suc (i mod ?D))) \<longleftrightarrow> Suc (i mod ?D) < k (i div ?D)" .
      moreover have "l + int (i div ?D * ?D + Suc (i mod ?D)) = l + int i + 1" using r(3) by simp
      ultimately have "Suc (i mod ?D) < k (i div ?D)" using nxt by (simp only:)
      then show "J (l + int i)" using now Suc_lessD by blast
    qed
    moreover have "cnf_true K F1 = cnf_true J F1" using K(1) F1_vars by (intro cnf_true_cong) auto
    ultimately have "cnf_true K (F1 @ F2)" using K(2) by simp
    then show "\<exists>J. (\<forall>x < l. J x = I x) \<and> cnf_true J (F1 @ F2)"
      using K(1) by (intro exI [of _ K]) (auto simp: J_def)
  qed
qed

section \<open>The two operations\<close>

definition goal_delay :: "solver \<Rightarrow> int \<Rightarrow> bool" where
  "goal_delay s n \<longleftrightarrow>
     (\<forall>a < agents s. goal_id (inst s) a < vertices s \<and>
        last_time s n a (goal_id (inst s) a) = first_time s a (goal_id (inst s) a) + delta s)"

definition at_goal_by :: "solver \<Rightarrow> nat \<Rightarrow> nat \<Rightarrow> assignment \<Rightarrow> bool" where
  "at_goal_by s a d I \<longleftrightarrow> occ s I a (goal_id (inst s) a) (first_time s a (goal_id (inst s) a) + int d)"

definition not_elsewhere_by :: "solver \<Rightarrow> nat \<Rightarrow> nat \<Rightarrow> assignment \<Rightarrow> bool" where
  "not_elsewhere_by s a d I \<longleftrightarrow>
     (\<forall>v < vertices s. v \<noteq> goal_id (inst s) a \<longrightarrow> \<not> occ s I a v (first_time s a (goal_id (inst s) a) + int d))"

lemma limit_soc_step_late:
  assumes T: "at_table s n lo hi" and g: "goal_delay s n"
  shows "late_step limit_soc_step s hi (at_goal_by s)"
proof -
  let ?C = "\<lambda>k m. [[first_variable (AT s (fst k) (goal_id (inst s) (fst k))) + snd k, m]]"
  have var: "at_window s a v (first_time s a v + int d) \<and>
      first_variable (AT s a v) + int d = at_var s a v (first_time s a v + int d) \<and> v < vertices s"
    if ad: "a < agents s" "d < nat (delta s)" and v: "v = goal_id (inst s) a" for a d v
  proof -
    have v': "v < vertices s" "last_time s n a v = first_time s a v + delta s"
      using g ad(1) v unfolding goal_delay_def by auto
    then have w: "at_window s a v (first_time s a v + int d)" using at_tableD(3) [OF T ad(1)] ad(2) by simp
    then have "first_timestep (AT s a v) = first_time s a v"
      using at_tableD(5) [OF T ad(1) v'(1)] by (simp add: in_window_def)
    then show ?thesis using w v' by (simp add: var_at_def)
  qed
  have sem: "cnf_true I (?C (a, int d) m) \<longleftrightarrow> at_goal_by s a d I \<or> I m"
    and vars: "cnf_vars (?C (a, int d) m) \<subseteq> {..<hi} \<union> {m}"
    if ad: "a < agents s" "d < nat (delta s)" "hi \<le> m" for a d m I
  proof -
    note V = var [OF ad(1,2) refl]
    have m: "0 < m" using at_tableD(1,2) [OF T] ad(3) by simp
    have "0 < first_variable (AT s a (goal_id (inst s) a)) + int d \<and> first_variable (AT s a (goal_id (inst s) a)) + int d < hi"
      using at_tableD(1) [OF T] at_tableD(6) [OF T ad(1)] V by fastforce
    then show "cnf_vars (?C (a, int d) m) \<subseteq> {..<hi} \<union> {m}" using m by (auto simp: clause_vars_def)
    show "cnf_true I (?C (a, int d) m) \<longleftrightarrow> at_goal_by s a d I \<or> I m"
      using V pos_occ [OF T ad(1)] m by (simp add: at_goal_by_def lit_true_pos)
  qed
  have dep: "depends_below hi (at_goal_by s a d)" if "a < agents s" "d < nat (delta s)" for a d
    unfolding depends_below_def at_goal_by_def
    using occ_depends [OF T that(1)] var [OF that refl] by blast
  show ?thesis
    unfolding late_step_def
  proof (intro conjI exI [of _ ?C])
    show "\<forall>k m. limit_soc_step s k m = ((?C k m @ late_chain s (snd k) m, m), m + 1)"
      by (simp add: limit_soc_step_def)
  qed (intro allI impI conjI vars sem dep; assumption)+
qed

lemma limit_soc_all_at_step_late:
  assumes T: "at_table s n lo hi" and g: "goal_delay s n" and delta: "0 \<le> delta s"
  shows "late_step limit_soc_all_at_step s hi (not_elsewhere_by s)"
proof -
  let ?t = "\<lambda>k. first_timestep (AT s (fst k) (goal_id (inst s) (fst k))) + snd k"
  let ?C = "\<lambda>k m. [[- at_var s (fst k) v (?t k), m]. v \<leftarrow> [0..<vertices s], v \<noteq> goal_id (inst s) (fst k), used (AT s (fst k) v),
          \<not> first_timestep (AT s (fst k) v) > ?t k, \<not> last_timestep (AT s (fst k) v) < ?t k]"
  have first: "first_timestep (AT s a (goal_id (inst s) a)) = first_time s a (goal_id (inst s) a)"
    if "a < agents s" for a
    using at_tableD(4,5) [OF T that] g delta that unfolding goal_delay_def by force
  have set: "set (?C (a, int d) m) = {[- at_var s a v (first_time s a (goal_id (inst s) a) + int d), m] | v.
      v < vertices s \<and> v \<noteq> goal_id (inst s) a \<and> at_window s a v (first_time s a (goal_id (inst s) a) + int d)}"
    if "a < agents s" for a d m
    using first [OF that] by (auto simp: used_def in_window_def linorder_not_less image_iff)
  have sem: "cnf_true I (?C (a, int d) m) \<longleftrightarrow> not_elsewhere_by s a d I \<or> I m"
    and vars: "cnf_vars (?C (a, int d) m) \<subseteq> {..<hi} \<union> {m}"
    if ad: "a < agents s" "d < nat (delta s)" "hi \<le> m" for a d m I
  proof -
    have m: "0 < m" using at_tableD(1,2) [OF T] ad(3) by simp
    have clause: "clause_true I [- at_var s a v t, m] \<longleftrightarrow> \<not> occ s I a v t \<or> I m"
      if "v < vertices s" "at_window s a v t" for v t
      using neg_occ [OF T ad(1) that] m by (simp add: lit_true_pos)
    show "cnf_true I (?C (a, int d) m) \<longleftrightarrow> not_elsewhere_by s a d I \<or> I m"
      unfolding cnf_true_def set [OF ad(1)] not_elsewhere_by_def using clause by (auto simp: occ_def)
    have "\<bar>- at_var s a v t\<bar> < hi" if "v < vertices s" "at_window s a v t" for v t
      using at_tableD(6) [OF T ad(1) that] at_var_pos [OF T ad(1) that] by simp
    then show "cnf_vars (?C (a, int d) m) \<subseteq> {..<hi} \<union> {m}"
      unfolding cnf_vars_def set [OF ad(1)] using m by (auto simp: clause_vars_def)
  qed
  have dep: "depends_below hi (not_elsewhere_by s a d)" if "a < agents s" "d < nat (delta s)" for a d
    unfolding depends_below_def not_elsewhere_by_def
    using occ_depends [OF T that(1)] by blast
  show ?thesis
    unfolding late_step_def
  proof (intro conjI exI [of _ ?C])
    show "\<forall>k m. limit_soc_all_at_step s k m = ((?C k m @ late_chain s (snd k) m, m), m + 1)"
      by (intro allI) (simp add: limit_soc_all_at_step_def Let_def case_prod_unfold)
  qed (intro allI impI conjI vars sem dep; assumption)+
qed

end
