(* ===== verification/Plans.thy ===== *)
theory Plans
  imports Variables
begin

text \<open>
  The plan functions of \<open>src/src/encodings/solver_common.cpp\<close> (\<open>NormalizePlan\<close>, \<open>VerifyPlan\<close>,
  \<open>GenerateConflicts\<close>, \<open>GetPlan\<close>), and the specification of a plan: trajectories on the map, free of
  collisions, whose cost is bounded.
\<close>

section \<open>The operations\<close>

text \<open>\<open>vector::resize\<close>: cut, or fill with zeros.\<close>

definition resize :: "nat \<Rightarrow> int list \<Rightarrow> int list" where
  "resize n xs = take n xs @ replicate (n - length xs) 0"

text \<open>
  The backward loop of \<open>NormalizePlan\<close> over the timesteps below the given bound: entries \<open>-1\<close> become
  the goal, and the loop stops at the first position that is not the goal.
\<close>

fun normalize_row :: "int \<Rightarrow> nat \<Rightarrow> int list \<Rightarrow> nat \<Rightarrow> int list \<times> nat" where
  "normalize_row g 0 row max_t = (row, max_t)"
| "normalize_row g (Suc t) row max_t =
     (let row' = (if row ! t = -1 then row[t := g] else row) in
      if row' ! t \<noteq> g then (row', max max_t (t + 2)) else normalize_row g t row' max_t)"

definition NormalizePlan :: "solver \<Rightarrow> nat \<times> solver" where
  "NormalizePlan s =
     (let (rows, max_t) = thread (\<lambda>a m. normalize_row (int (goal_id (inst s) a)) (length (plan s ! a)) (plan s ! a) m)
            [0..<length (plan s)] 1 in
      (max_t, s\<lparr>plan := map (resize max_t) rows\<rparr>))"

definition GetPlan :: "solver \<Rightarrow> int list list" where
  "GetPlan s = plan s"

text \<open>What \<open>VerifyPlan\<close> prints, one value for each message.\<close>

datatype report =
    VertexReport nat nat nat int
  | SwapReport nat nat nat int int
  | PebbleReport nat int nat nat

definition verify_at :: "nat \<Rightarrow> int list list \<Rightarrow> nat \<Rightarrow> nat \<Rightarrow> nat \<Rightarrow> report list" where
  "verify_at mv P a1 a2 t =
     (if P ! a1 ! t = P ! a2 ! t then [VertexReport a1 a2 t (P ! a1 ! t)] else []) @
     (if t < length (P ! a1) - 1 \<and> P ! a1 ! t = P ! a2 ! (t + 1) \<and> P ! a1 ! (t + 1) = P ! a2 ! t
      then [SwapReport a1 a2 t (P ! a1 ! t) (P ! a1 ! (t + 1))] else []) @
     (if mv = 2 \<and> t < length (P ! a1) - 1 \<and> P ! a1 ! t = P ! a2 ! (t + 1)
      then [PebbleReport a2 (P ! a2 ! (t + 1)) (t + 1) a1] else []) @
     (if mv = 2 \<and> t < length (P ! a1) - 1 \<and> P ! a1 ! (t + 1) = P ! a2 ! t
      then [PebbleReport a1 (P ! a1 ! (t + 1)) (t + 1) a2] else [])"

definition VerifyPlan :: "solver \<Rightarrow> report list" where
  "VerifyPlan s =
     concat [verify_at (movement s) (plan s) a1 a2 t.
        a1 \<leftarrow> [0..<length (plan s)], a2 \<leftarrow> [a1 + 1..<length (plan s)], t \<leftarrow> [0..<length (plan s ! a1)]]"

text \<open>
  \<open>GenerateConflicts\<close>: the body of the loop appends the conflicts of two agents at one timestep to
  the three lists and records that there is one.
\<close>

definition conflicts_at :: "nat \<times> nat \<times> nat \<Rightarrow> solver \<Rightarrow> solver" where
  "conflicts_at = (\<lambda>(a1, a2, t) s.
     let p1 = plan s ! a1; p2 = plan s ! a2;
         s1 = (if p1 ! t = p2 ! t then
                 s\<lparr>conflicts_present := True,
                   vertex_conflicts := vertex_conflicts s @ [(a1, a2, nat (p1 ! t), int t)]\<rparr> else s);
         s2 = (if t < length p1 - 1 \<and> p1 ! t = p2 ! (t + 1) \<and> p1 ! (t + 1) = p2 ! t \<and> p1 ! t \<noteq> p2 ! t then
                 s1\<lparr>conflicts_present := True,
                    swap_conflicts := swap_conflicts s1 @ [(a1, a2, nat (p1 ! t), nat (p1 ! (t + 1)), int t)]\<rparr> else s1);
         s3 = (if movement s = 2 \<and> t < length p1 - 1 \<and> p1 ! t = p2 ! (t + 1) \<and> p2 ! t \<noteq> p2 ! (t + 1) then
                 s2\<lparr>conflicts_present := True,
                    pebble_conflicts := pebble_conflicts s2 @ [(a2, a1, nat (p2 ! t), nat (p2 ! (t + 1)), int t + 1)]\<rparr> else s2)
     in if movement s = 2 \<and> t < length p1 - 1 \<and> p1 ! (t + 1) = p2 ! t \<and> p1 ! t \<noteq> p1 ! (t + 1) then
          s3\<lparr>conflicts_present := True,
             pebble_conflicts := pebble_conflicts s3 @ [(a1, a2, nat (p1 ! t), nat (p1 ! (t + 1)), int t + 1)]\<rparr> else s3)"

definition plan_triples :: "int list list \<Rightarrow> (nat \<times> nat \<times> nat) list" where
  "plan_triples P =
     [(a1, a2, t). a1 \<leftarrow> [0..<length P], a2 \<leftarrow> [a1 + 1..<length P], t \<leftarrow> [0..<length (P ! a1)]]"

definition GenerateConflicts :: "solver \<Rightarrow> solver" where
  "GenerateConflicts s =
     fold conflicts_at (plan_triples (plan s)) (s\<lparr>vertex_conflicts := [], swap_conflicts := [], pebble_conflicts := []\<rparr>)"

section \<open>The specification of a plan\<close>

text \<open>\<open>p a t\<close> is the vertex of agent \<open>a\<close> at timestep \<open>t\<close>.\<close>

type_synonym trajectories = "nat \<Rightarrow> nat \<Rightarrow> nat"

definition on_map :: "instance_t \<Rightarrow> nat \<Rightarrow> trajectories \<Rightarrow> bool" where
  "on_map i n p \<longleftrightarrow>
     (\<forall>a < n. p a 0 = start_id i a \<and> (\<forall>t. p a (Suc t) = p a t \<or> (p a t, p a (Suc t)) \<in> moves i))"

text \<open>Movement 1 (parallel) forbids swaps, movement 2 (pebble) entering a vertex just left.\<close>

definition collision_free :: "nat \<Rightarrow> nat \<Rightarrow> trajectories \<Rightarrow> bool" where
  "collision_free mv n p \<longleftrightarrow>
     (\<forall>a < n. \<forall>b < n. a \<noteq> b \<longrightarrow> (\<forall>t. p a t \<noteq> p b t \<and>
        (mv = 1 \<longrightarrow> \<not> (p a t = p b (Suc t) \<and> p a (Suc t) = p b t)) \<and>
        (mv = 2 \<longrightarrow> p a (Suc t) \<noteq> p b t)))"

definition arrives :: "instance_t \<Rightarrow> trajectories \<Rightarrow> nat \<Rightarrow> nat \<Rightarrow> bool" where
  "arrives i p a c \<longleftrightarrow> (\<forall>t \<ge> c. p a t = goal_id i a)"

text \<open>
  Costs count timesteps as the lower bounds of the instance do: the makespan of a plan that arrives
  at timestep \<open>c\<close> is \<open>c + 1\<close>, the sum of costs adds \<open>c + 1\<close> for every agent.
\<close>

definition within_cost :: "instance_t \<Rightarrow> nat \<Rightarrow> nat \<Rightarrow> int \<Rightarrow> trajectories \<Rightarrow> bool" where
  "within_cost i n cf k p \<longleftrightarrow>
     (\<exists>c. (\<forall>a < n. arrives i p a (c a)) \<and>
        (if cf = 1 then \<forall>a < n. int (c a) + 1 \<le> k else (\<Sum>a<n. int (c a) + 1) \<le> k))"

definition solution :: "instance_t \<Rightarrow> nat \<Rightarrow> nat \<Rightarrow> nat \<Rightarrow> int \<Rightarrow> trajectories \<Rightarrow> bool" where
  "solution i n mv cf k p \<longleftrightarrow> on_map i n p \<and> collision_free mv n p \<and> within_cost i n cf k p"

text \<open>
  The cost a solver asks for: the lower bound of the instance plus \<open>delta\<close>.
\<close>

definition cost_bound :: "solver \<Rightarrow> int" where
  "cost_bound s =
     (if cost_function s = 1 then GetMksLB (inst s) (agents s) else GetSocLB (inst s) (agents s)) + delta s"

definition has_solution :: "solver \<Rightarrow> int \<Rightarrow> bool" where
  "has_solution s k \<longleftrightarrow> (\<exists>p. solution (inst s) (agents s) (movement s) (cost_function s) k p)"

text \<open>The trajectories of a plan: after its last position an agent stays at its goal.\<close>

definition plan_traj :: "instance_t \<Rightarrow> int list list \<Rightarrow> trajectories" where
  "plan_traj i P a t = (if t < length (P ! a) then nat (P ! a ! t) else goal_id i a)"

text \<open>
  \<open>plan_follows i n P p\<close>: the plan has one row per agent, all of the same length, and lists the
  trajectories \<open>p\<close> up to a timestep from which every agent rests at its goal.
\<close>

definition plan_follows :: "instance_t \<Rightarrow> nat \<Rightarrow> int list list \<Rightarrow> trajectories \<Rightarrow> bool" where
  "plan_follows i n P p \<longleftrightarrow>
     length P = n \<and> (\<exists>M \<ge> 1. \<forall>a < n. P ! a = map (\<lambda>t. int (p a t)) [0..<M] \<and>
       (\<forall>t. M \<le> t + 1 \<longrightarrow> p a t = goal_id i a))"

text \<open>A plan of the solver's agents that lists a solution of the given cost.\<close>

definition good_plan :: "solver \<Rightarrow> int \<Rightarrow> int list list \<Rightarrow> bool" where
  "good_plan s k P \<longleftrightarrow>
     (\<exists>p. solution (inst s) (agents s) (movement s) (cost_function s) k p \<and> plan_follows (inst s) (agents s) P p)"

end
