(* ===== verification/Sat_Encoding.thy ===== *)
theory Sat_Encoding
  imports Costs Plans
begin

text \<open>
  The SAT back end, \<open>src/src/encodings/SAT_encoding.cpp\<close>: the constructor, \<open>CreateFormula\<close>, reading
  a plan off a model (\<open>GetNextVertex\<close>, \<open>InvokeSolverImplementation\<close>) and the watchdog thread
  \<open>WaitForTerminate\<close>. The SAT solver CaDiCaL is a parameter: called with the number of the clock reading that
  follows the call (which identifies the call), the time limit and the clauses added so far it returns its status (10 satisfiable, 20 unsatisfiable,
  0 interrupted) and the value of every variable.
\<close>

section \<open>Construction\<close>

text \<open>
  The members not named by the constructor are uninitialised. The assertions abort the program, which
  is the result \<open>None\<close>.
\<close>

definition encoding_args_ok :: "nat \<Rightarrow> nat \<Rightarrow> nat \<Rightarrow> nat \<Rightarrow> nat \<Rightarrow> bool" where
  "encoding_args_ok var cost mv lz dupli \<longleftrightarrow>
     var \<in> {1, 2, 3} \<and> cost \<in> {1, 2} \<and> mv \<in> {1, 2} \<and> lz \<in> {1, 2} \<and> dupli \<in> {1, 2}"

definition new_MAPFSAT_SAT ::
  "nat \<Rightarrow> nat \<Rightarrow> nat \<Rightarrow> nat \<Rightarrow> nat \<Rightarrow> nat \<Rightarrow> string \<Rightarrow> solver \<Rightarrow> solver option" where
  "new_MAPFSAT_SAT var cost mv lz dupli slv sol_name s =
     (if encoding_args_ok var cost mv lz dupli \<and> slv = 1 then
        Some (s\<lparr>class_of := MAPFSAT_SAT, solver_name := sol_name, variables := var, cost_function := cost,
                movement := mv, lazy_const := lz, duplicates := dupli, solver_to_use := slv\<rparr>)
      else None)"

section \<open>The formula\<close>

text \<open>
  A stage is a piece of \<open>CreateFormula\<close> between two time checks: it gets and returns the next free
  variable. \<open>run_stages\<close> runs them, reading the clock after each; \<open>None\<close> is the early return.
\<close>

type_synonym stage = "int \<Rightarrow> solver \<Rightarrow> int \<times> solver"

definition check_time :: "clock \<Rightarrow> int \<Rightarrow> int \<Rightarrow> solver \<Rightarrow> bool \<times> solver" where
  "check_time clk start_time time_left s = (let (current, s1) = now clk s in TimesUp start_time current time_left s1)"

fun run_stages :: "clock \<Rightarrow> int \<Rightarrow> int \<Rightarrow> stage list \<Rightarrow> int \<Rightarrow> solver \<Rightarrow> int option \<times> solver" where
  "run_stages clk start_time time_left [] lit s = (Some lit, s)"
| "run_stages clk start_time time_left (f # fs) lit s =
     (let (lit1, s1) = f lit s; (up, s2) = check_time clk start_time time_left s1 in
      if up then (None, s2) else run_stages clk start_time time_left fs lit1 s2)"

definition create_variables :: "int \<Rightarrow> stage" where
  "create_variables timesteps lit s =
     (if first_try s then
        let (lit1, s1) = CreateAt lit timesteps s in
        if variables s = 2 then CreatePass lit1 timesteps s1
        else if variables s = 3 then CreateShift lit1 timesteps s1
        else (lit1, s1)
      else (lit, s))"

definition by_variables :: "(solver \<Rightarrow> solver) \<Rightarrow> (solver \<Rightarrow> solver) \<Rightarrow> (solver \<Rightarrow> solver) \<Rightarrow> solver \<Rightarrow> solver" where
  "by_variables f_at f_pass f_shift s =
     (if variables s = 1 then f_at s else if variables s = 2 then f_pass s
      else if variables s = 3 then f_shift s else s)"

definition eager_conflicts :: "solver \<Rightarrow> solver" where
  "eager_conflicts s =
     (let s1 = CreateConf_Vertex s in
      if movement s1 = 1 then by_variables CreateConf_Swapping_At CreateConf_Swapping_Pass CreateConf_Swapping_Shift s1
      else if movement s1 = 2 then by_variables CreateConf_Pebble_At CreateConf_Pebble_Pass CreateConf_Pebble_Shift s1
      else s1)"

definition on_demand_conflicts :: "solver \<Rightarrow> solver" where
  "on_demand_conflicts s =
     (let s1 = CreateConf_Vertex_OnDemand s in
      if movement s1 = 1 then
        by_variables CreateConf_Swapping_At_OnDemand CreateConf_Swapping_Pass_OnDemand CreateConf_Swapping_Shift_OnDemand s1
      else if movement s1 = 2 then
        by_variables CreateConf_Pebble_At_OnDemand CreateConf_Pebble_Pass_OnDemand CreateConf_Pebble_Shift_OnDemand s1
      else s1)"

definition create_conflicts :: stage where
  "create_conflicts lit s =
     (lit, if lazy_const s = 1 then eager_conflicts s else if lazy_const s = 2 then on_demand_conflicts s else s)"

definition create_positions :: stage where
  "create_positions lit s =
     (let s1 = CreatePossition_Goal (CreatePossition_Start s) in
      (lit, if cost_function s1 = 2 then CreatePossition_NoneAtGoal s1 else s1))"

definition create_moves :: "amk_encoder \<Rightarrow> stage" where
  "create_moves enc lit s =
     (let (lit1, s1) = (if duplicates s = 1 then CreateMove_NoDuplicates enc lit s else (lit, s)) in
      (lit1, by_variables CreateMove_NextVertex_At
               (\<lambda>s. CreateMove_NextEdge_Pass (CreateMove_EnterVertex_Pass s))
               (\<lambda>s. CreateMove_NextVertex_Shift (CreateMove_ExactlyOne_Shift (CreateMove_NextVertex_At s))) s1))"

definition create_cost :: "amk_encoder \<Rightarrow> stage" where
  "create_cost enc lit s =
     (if cost_function s = 2 \<and> delta s > 0 then
        if duplicates s = 1 then CreateConst_LimitSoc enc lit s
        else if duplicates s = 2 then CreateConst_LimitSoc_AllAt enc lit s
        else (lit, s)
      else (lit, s))"

definition create_avoids :: stage where
  "create_avoids lit s = (lit, if use_avoid s then CreateConst_Avoid s else s)"

definition CreateFormula_SAT :: "amk_encoder \<Rightarrow> clock \<Rightarrow> int \<Rightarrow> solver \<Rightarrow> int \<times> solver" where
  "CreateFormula_SAT enc clk time_left s =
     (let timesteps = GetMksLB (inst s) (agents s) + delta s; lit = nr_vars s; (start_time, s0) = now clk s in
      case run_stages clk start_time time_left [create_variables timesteps] lit s0 of
        (None, s1) \<Rightarrow> (-1, s1)
      | (Some lit1, s1) \<Rightarrow>
          if \<not> first_try s1 then create_conflicts lit1 s1
          else (case run_stages clk start_time time_left
                 [create_conflicts, create_positions, create_moves enc, create_cost enc, create_avoids] lit1 s1 of
            (None, s2) \<Rightarrow> (-1, s2)
          | (Some lit2, s2) \<Rightarrow> (lit2, s2)))"

section \<open>Solving and reading the plan\<close>

type_synonym sat_solver = "nat \<Rightarrow> int \<Rightarrow> cnf \<Rightarrow> int \<times> (int \<Rightarrow> int)"

text \<open>The loop over the five directions that returns the first neighbour meeting a condition.\<close>

definition first_neighbor :: "solver \<Rightarrow> nat \<Rightarrow> (nat \<Rightarrow> bool) \<Rightarrow> int" where
  "first_neighbor s v Q =
     (case List.find (\<lambda>dir. has_nb s v dir \<and> Q dir) [0..<5] of Some dir \<Rightarrow> int (nb s v dir) | None \<Rightarrow> -1)"

definition GetNextVertex_SAT :: "(int \<Rightarrow> int) \<Rightarrow> solver \<Rightarrow> nat \<Rightarrow> int \<Rightarrow> int \<Rightarrow> int" where
  "GetNextVertex_SAT val s a ver t =
     (if ver = -1 then -1
      else let v = nat ver; leave_t = t - 1 in
        if variables s = 1 then
          first_neighbor s v (\<lambda>dir. let u = nb s v dir in
            used (AT s a u) \<and> \<not> (first_timestep (AT s a u) > t \<or> last_timestep (AT s a u) < t) \<and>
            val (at_var s a u t) > 0)
        else if variables s = 2 then
          first_neighbor s v (\<lambda>dir.
            used (PASS s a v dir) \<and>
            \<not> (first_timestep (PASS s a v dir) > leave_t \<or> last_timestep (PASS s a v dir) < leave_t) \<and>
            val (pass_var s a v dir leave_t) > 0)
        else if variables s = 3 then
          first_neighbor s v (\<lambda>dir. let u = nb s v dir in
            used (AT s a u) \<and> \<not> (first_timestep (AT s a u) > t \<or> last_timestep (AT s a u) < t) \<and>
            shift_found (SHIFT s v dir) leave_t \<and> val (shift_var s v dir leave_t) > 0)
        else -1)"

fun walk :: "(int \<Rightarrow> int \<Rightarrow> int) \<Rightarrow> int \<Rightarrow> int list \<Rightarrow> int list" where
  "walk nxt v [] = []"
| "walk nxt v (t # ts) = nxt v t # walk nxt (nxt v t) ts"

definition read_row :: "(nat \<Rightarrow> int \<Rightarrow> int \<Rightarrow> int) \<Rightarrow> solver \<Rightarrow> nat \<Rightarrow> int list" where
  "read_row nxt s a =
     (let v = int (start_id (inst s) a) in v # walk (nxt a) v (for_to 1 (max_timestep s)))"

definition read_plan :: "(nat \<Rightarrow> int \<Rightarrow> int \<Rightarrow> int) \<Rightarrow> solver \<Rightarrow> solver" where
  "read_plan nxt s =
     (let s1 = s\<lparr>plan := map (read_row nxt s) [0..<agents s]\<rparr> in
      if cost_function s1 = 2 then snd (NormalizePlan s1) else s1)"

definition InvokeSolverImplementation_SAT :: "sat_solver \<Rightarrow> int \<Rightarrow> solver \<Rightarrow> int \<times> solver" where
  "InvokeSolverImplementation_SAT cadical timelimit s =
     (let (ret, val) = cadical (clock_reads s) timelimit (the (SAT_solver s));
          s1 = (if (print_plan s \<or> keep_plan s \<or> lazy_const s = 2) \<and> ret = 10
                then read_plan (GetNextVertex_SAT val s) s else s)
      in (if ret = 10 then 0 else 1, s1))"

text \<open>
  \<open>WaitForTerminate\<close> polls the flag \<open>ended\<close> every 50 ms: \<open>ended i\<close> is what the poll number \<open>i\<close> reads.
  The result tells whether the solver is told to terminate.
\<close>

function WaitForTerminate :: "int \<Rightarrow> (nat \<Rightarrow> bool) \<Rightarrow> nat \<Rightarrow> bool" where
  "WaitForTerminate time_left_ms ended i =
     (if time_left_ms > 0 then
        if ended i then False else WaitForTerminate (time_left_ms - 50) ended (Suc i)
      else if ended i then False else True)"
  by auto
termination by (relation "measure (\<lambda>(t, e, i). nat t)") auto

declare WaitForTerminate.simps [simp del]

text \<open>The solver is interrupted when none of the polls up to the time limit sees the flag.\<close>

lemma WaitForTerminate_polls:
  "WaitForTerminate t ended i \<longleftrightarrow> (\<forall>j \<le> nat ((t + 49) div 50). \<not> ended (i + j))"
proof (induction t ended i rule: WaitForTerminate.induct)
  case (1 t ended i)
  show ?case
  proof (cases "t > 0")
    case True
    let ?n = "nat ((t - 50 + 49) div 50)"
    have "(t + 49) div 50 = (t - 1) div 50 + 1" using div_add_self2 [of 50 "t - 1"] by (simp add: algebra_simps)
    then have n: "nat ((t + 49) div 50) = Suc ?n" using True by (simp add: nat_add_distrib pos_imp_zdiv_nonneg_iff)
    have split: "(\<forall>j \<le> Suc m. P j) \<longleftrightarrow> P 0 \<and> (\<forall>j \<le> m. P (Suc j))" for P :: "nat \<Rightarrow> bool" and m
      using All_less_Suc2 [of "Suc m" P] by (simp add: less_Suc_eq_le)
    show ?thesis
      unfolding n split WaitForTerminate.simps [of t] using 1 True by auto
  next
    case False
    then have "nat ((t + 49) div 50) = 0" by (simp add: div_le_dividend)
    then show ?thesis using False by (simp add: WaitForTerminate.simps [of t])
  qed
qed

end
