(* ===== verification/Edge_Tables.thy ===== *)
theory Edge_Tables
  imports Variables
begin

text \<open>
  What the tables of the edge variables promise, in the form of \<open>at_table\<close>: which timesteps have a
  variable, and that the numbers are distinct. The pass variables belong to an agent, the shift
  variables to an edge and are shared by the agents.
\<close>

section \<open>The pass variables\<close>

definition pass_table :: "solver \<Rightarrow> int \<Rightarrow> int \<Rightarrow> int \<Rightarrow> bool" where
  "pass_table s n lo hi \<longleftrightarrow>
     1 \<le> lo \<and> lo \<le> hi \<and>
     (\<forall>a < agents s. \<forall>v < vertices s. \<forall>d < 5.
        (\<forall>t. pass_window s a v d t \<longleftrightarrow>
           has_nb s v d \<and> first_time s a v \<le> t \<and> t < last_time s n a (nb s v d)) \<and>
        (\<forall>t. pass_window s a v d t \<longrightarrow> lo \<le> pass_var s a v d t \<and> pass_var s a v d t < hi)) \<and>
     (\<forall>a < agents s. \<forall>v < vertices s. \<forall>d < 5. \<forall>b < agents s. \<forall>u < vertices s. \<forall>e < 5. \<forall>t t'.
        pass_window s a v d t \<longrightarrow> pass_window s b u e t' \<longrightarrow> pass_var s a v d t = pass_var s b u e t' \<longrightarrow>
        a = b \<and> v = u \<and> d = e \<and> t = t')"

lemma create_pass_cell_props:
  assumes "1 \<le> m" "c = fst (create_pass_cell s n a v d m)"
  shows "in_window c t \<longleftrightarrow> has_nb s v d \<and> first_time s a v \<le> t \<and> t < last_time s n a (nb s v d)"
    and "in_window c t \<longrightarrow> m \<le> var_at c t \<and> var_at c t < snd (create_pass_cell s n a v d m)"
  using assms by (auto simp: create_pass_cell_def in_window_def var_at_def no_agent_def Let_def)

lemma CreatePass_eq:
  "CreatePass l n s = (snd (pass_rows s n l), s\<lparr>pass := Some (fst (pass_rows s n l))\<rparr>)"
  by (simp add: CreatePass_def pass_rows_def split: prod.split)

lemma pass_rows_block:
  assumes "1 \<le> l" "a < agents s"
  shows "\<exists>m \<ge> l. fst (pass_rows s n l) ! a = fst (thread (\<lambda>v. thread (create_pass_cell s n a v) [0..<5]) [0..<vertices s] m)"
  using pass_block.thread_nth [OF assms(1), of a "[0..<agents s]" s n] assms(2) by (auto simp: pass_rows_def)

lemma pass_rows_row:
  assumes "1 \<le> l" "a < agents s" "v < vertices s"
  shows "\<exists>m \<ge> l. fst (pass_rows s n l) ! a ! v = fst (thread (create_pass_cell s n a v) [0..<5] m)"
proof -
  obtain m where m: "l \<le> m"
    "fst (pass_rows s n l) ! a = fst (thread (\<lambda>v. thread (create_pass_cell s n a v) [0..<5]) [0..<vertices s] m)"
    using pass_rows_block [OF assms(1,2)] by blast
  then obtain k where "m \<le> k" "fst (pass_rows s n l) ! a ! v = fst (thread (create_pass_cell s n a v) [0..<5] k)"
    using pass_row.thread_nth [of m v "[0..<vertices s]" s n a] assms(1,3) by auto
  then show ?thesis using m(1) by (intro exI [of _ k]) simp
qed

lemma pass_rows_length:
  assumes "1 \<le> l" "a < agents s"
  shows "length (fst (pass_rows s n l) ! a) = vertices s"
    and "v < vertices s \<Longrightarrow> length (fst (pass_rows s n l) ! a ! v) = 5"
proof -
  show "length (fst (pass_rows s n l) ! a) = vertices s" using pass_rows_block [OF assms, of n] by force
  show "length (fst (pass_rows s n l) ! a ! v) = 5" if v: "v < vertices s"
    using pass_rows_row [OF assms v, of n] by force
qed

lemma disjoint_sub: "A \<subseteq> A' \<Longrightarrow> B \<subseteq> B' \<Longrightarrow> A' \<inter> B' = {} \<Longrightarrow> A \<inter> B = {}"
  by blast

lemma pass_rows_disjoint:
  assumes l: "1 \<le> l" and a: "a < agents s" "v < vertices s" "d < 5" and b: "b < agents s" "u < vertices s" "e < 5"
    and neq: "(a, v, d) \<noteq> (b, u, e)"
  shows "cell_vars (fst (pass_rows s n l) ! a ! v ! d) \<inter> cell_vars (fst (pass_rows s n l) ! b ! u ! e) = {}"
proof -
  let ?T = "fst (pass_rows s n l)"
  let ?row = "\<lambda>r. \<Union>c \<in> set r. cell_vars c" and ?block = "\<lambda>B. \<Union>r \<in> set B. \<Union>c \<in> set r. cell_vars c"
  have len: "length (?T ! a) = vertices s" "length (?T ! b) = vertices s" "length (?T ! a ! v) = 5" "length (?T ! b ! u) = 5"
    using pass_rows_length [OF l] a b by auto
  have mem: "?T ! a ! v ! d \<in> set (?T ! a ! v)" "?T ! b ! u ! e \<in> set (?T ! b ! u)"
    "?T ! a ! v \<in> set (?T ! a)" "?T ! b ! u \<in> set (?T ! b)" using len a b by simp_all
  have sub: "cell_vars (?T ! a ! v ! d) \<subseteq> ?row (?T ! a ! v)" "cell_vars (?T ! b ! u ! e) \<subseteq> ?row (?T ! b ! u)"
    by (rule UN_upper [OF mem(1)], rule UN_upper [OF mem(2)])
  have sub2: "?row (?T ! a ! v) \<subseteq> ?block (?T ! a)" "?row (?T ! b ! u) \<subseteq> ?block (?T ! b)"
    by (rule UN_upper [OF mem(3)], rule UN_upper [OF mem(4)])
  consider "a \<noteq> b" | "a = b" "v \<noteq> u" | "a = b" "v = u" "d \<noteq> e" using neq by blast
  then show ?thesis
  proof cases
    case 1
    have "?block (?T ! a) \<inter> ?block (?T ! b) = {}"
      using pass_block.thread_disjoint_neq [OF l 1, of "[0..<agents s]" s n] a(1) b(1) by (simp add: pass_rows_def)
    then show ?thesis by (rule disjoint_sub [OF subset_trans [OF sub(1) sub2(1)] subset_trans [OF sub(2) sub2(2)]])
  next
    case 2
    obtain m where m: "l \<le> m" "?T ! a = fst (thread (\<lambda>v. thread (create_pass_cell s n a v) [0..<5]) [0..<vertices s] m)"
      using pass_rows_block [OF l a(1)] by blast
    have "1 \<le> m" using l m(1) by simp
    from pass_row.thread_disjoint_neq [OF this 2(2), of "[0..<vertices s]" s n a]
    have "?row (?T ! a ! v) \<inter> ?row (?T ! a ! u) = {}" using a(2) b(2) m(2) by simp
    then show ?thesis using disjoint_sub [OF sub] 2(1) by simp
  next
    case 3
    obtain m where m: "l \<le> m" "?T ! a ! v = fst (thread (create_pass_cell s n a v) [0..<5] m)"
      using pass_rows_row [OF l a(1,2)] by blast
    have "1 \<le> m" using l m(1) by simp
    from pass_cell.thread_disjoint_neq [OF this 3(3), of "[0..<5]" s n a v]
    show ?thesis using a(3) b(3) m(2) 3(1,2) by simp
  qed
qed

lemma CreatePass_table:
  assumes l: "1 \<le> l"
  shows "pass_table (snd (CreatePass l n s)) n l (fst (CreatePass l n s))"
proof -
  let ?s = "snd (CreatePass l n s)" and ?h = "fst (CreatePass l n s)"
  have cell: "PASS ?s a v d = fst (pass_rows s n l) ! a ! v ! d" for a v d
    by (simp add: CreatePass_eq PASS_def)
  have frame: "first_time ?s = first_time s" "last_time ?s = last_time s" "has_nb ?s = has_nb s" "nb ?s = nb s"
    "agents ?s = agents s" "vertices ?s = vertices s"
    by (simp_all add: fun_eq_iff CreatePass_eq first_time_def last_time_def has_nb_def nb_def)
  have props: "(\<forall>t. pass_window ?s a v d t \<longleftrightarrow> has_nb s v d \<and> first_time s a v \<le> t \<and> t < last_time s n a (nb s v d)) \<and>
      (\<forall>t. pass_window ?s a v d t \<longrightarrow> l \<le> pass_var ?s a v d t \<and> pass_var ?s a v d t < ?h)"
    if av: "a < agents s" "v < vertices s" "d < 5" for a v d
  proof -
    obtain m where m: "l \<le> m" "PASS ?s a v d = fst (create_pass_cell s n a v d m)"
      "snd (create_pass_cell s n a v d m) \<le> ?h"
      using pass_rows_cell [OF l av, of n] cell by (auto simp: CreatePass_eq)
    have "1 \<le> m" using l m(1) by simp
    note P = create_pass_cell_props [OF this m(2)]
    show ?thesis
    proof (intro conjI allI)
      fix t
      show "pass_window ?s a v d t \<longleftrightarrow> has_nb s v d \<and> first_time s a v \<le> t \<and> t < last_time s n a (nb s v d)" by (rule P(1))
      show "pass_window ?s a v d t \<longrightarrow> l \<le> pass_var ?s a v d t \<and> pass_var ?s a v d t < ?h"
        using P(2) [of t] m(1,3) by linarith
    qed
  qed
  have uniq: "a = b \<and> v = u \<and> d = e \<and> t = t'"
    if ab: "a < agents s" "v < vertices s" "d < 5" "b < agents s" "u < vertices s" "e < 5"
      and w: "pass_window ?s a v d t" "pass_window ?s b u e t'" and eq: "pass_var ?s a v d t = pass_var ?s b u e t'"
    for a v d b u e t t'
  proof -
    have "pass_var ?s a v d t \<in> cell_vars (PASS ?s a v d) \<inter> cell_vars (PASS ?s b u e)"
      using var_at_cell [OF w(1)] var_at_cell [OF w(2)] eq by simp
    then have "(a, v, d) = (b, u, e)"
      using pass_rows_disjoint [OF l ab, of n] unfolding cell by fast
    then show ?thesis using eq var_at_inj by auto
  qed
  have h: "l \<le> ?h" using pass_block.thread_mono [OF l] by (simp add: CreatePass_eq pass_rows_def)
  show ?thesis
  proof (unfold pass_table_def frame, intro conjI)
    show "1 \<le> l" "l \<le> ?h" using l h by auto
  qed (use props in simp, use uniq in blast)
qed

lemma pass_tableD:
  assumes "pass_table s n lo hi"
  shows "1 \<le> lo" "lo \<le> hi"
    and "a < agents s \<Longrightarrow> v < vertices s \<Longrightarrow> d < 5 \<Longrightarrow>
      pass_window s a v d t \<longleftrightarrow> has_nb s v d \<and> first_time s a v \<le> t \<and> t < last_time s n a (nb s v d)"
    and "a < agents s \<Longrightarrow> v < vertices s \<Longrightarrow> d < 5 \<Longrightarrow> pass_window s a v d t \<Longrightarrow>
      lo \<le> pass_var s a v d t \<and> pass_var s a v d t < hi"
    and "a < agents s \<Longrightarrow> v < vertices s \<Longrightarrow> d < 5 \<Longrightarrow> b < agents s \<Longrightarrow> u < vertices s \<Longrightarrow> e < 5 \<Longrightarrow>
      pass_window s a v d t \<Longrightarrow> pass_window s b u e t' \<Longrightarrow> pass_var s a v d t = pass_var s b u e t' \<Longrightarrow>
      a = b \<and> v = u \<and> d = e \<and> t = t'"
proof -
  show "1 \<le> lo" "lo \<le> hi" using assms unfolding pass_table_def by blast+
  have cells: "\<And>a v d. a < agents s \<Longrightarrow> v < vertices s \<Longrightarrow> d < 5 \<Longrightarrow>
      (\<forall>t. pass_window s a v d t \<longleftrightarrow> has_nb s v d \<and> first_time s a v \<le> t \<and> t < last_time s n a (nb s v d)) \<and>
      (\<forall>t. pass_window s a v d t \<longrightarrow> lo \<le> pass_var s a v d t \<and> pass_var s a v d t < hi)"
    using assms unfolding pass_table_def by simp
  show "a < agents s \<Longrightarrow> v < vertices s \<Longrightarrow> d < 5 \<Longrightarrow>
      pass_window s a v d t \<longleftrightarrow> has_nb s v d \<and> first_time s a v \<le> t \<and> t < last_time s n a (nb s v d)"
    and "a < agents s \<Longrightarrow> v < vertices s \<Longrightarrow> d < 5 \<Longrightarrow> pass_window s a v d t \<Longrightarrow>
      lo \<le> pass_var s a v d t \<and> pass_var s a v d t < hi"
    using cells by simp_all
  have "\<forall>a < agents s. \<forall>v < vertices s. \<forall>d < 5. \<forall>b < agents s. \<forall>u < vertices s. \<forall>e < 5. \<forall>t t'.
      pass_window s a v d t \<longrightarrow> pass_window s b u e t' \<longrightarrow> pass_var s a v d t = pass_var s b u e t' \<longrightarrow>
      a = b \<and> v = u \<and> d = e \<and> t = t'"
    using assms unfolding pass_table_def by (elim conjE)
  then show "a < agents s \<Longrightarrow> v < vertices s \<Longrightarrow> d < 5 \<Longrightarrow> b < agents s \<Longrightarrow> u < vertices s \<Longrightarrow> e < 5 \<Longrightarrow>
      pass_window s a v d t \<Longrightarrow> pass_window s b u e t' \<Longrightarrow> pass_var s a v d t = pass_var s b u e t' \<Longrightarrow>
      a = b \<and> v = u \<and> d = e \<and> t = t'"
    by simp
qed

section \<open>The shift variables\<close>

text \<open>Some agent may leave \<open>v\<close> in direction \<open>d\<close> at \<open>t\<close>.\<close>

definition may_shift :: "solver \<Rightarrow> int \<Rightarrow> nat \<Rightarrow> nat \<Rightarrow> int \<Rightarrow> bool" where
  "may_shift s n v d t \<longleftrightarrow>
     has_nb s v d \<and> 0 \<le> t \<and> t < n \<and> (\<exists>a < agents s. first_time s a v \<le> t \<and> t < last_time s n a (nb s v d))"

definition shift_table :: "solver \<Rightarrow> int \<Rightarrow> int \<Rightarrow> int \<Rightarrow> bool" where
  "shift_table s n lo hi \<longleftrightarrow>
     1 \<le> lo \<and> lo \<le> hi \<and>
     (\<forall>v < vertices s. \<forall>d < 5. distinct (timestep (SHIFT s v d)) \<and>
        (\<forall>t. shift_found (SHIFT s v d) t \<longleftrightarrow> may_shift s n v d t) \<and>
        (\<forall>t. shift_found (SHIFT s v d) t \<longrightarrow> lo \<le> shift_var s v d t \<and> shift_var s v d t < hi \<and>
           the (shift_times_start s) ! v \<noteq> -1 \<and> the (shift_times_start s) ! v \<le> t \<and> t \<le> the (shift_times_end s) ! v)) \<and>
     (\<forall>v < vertices s. \<forall>d < 5. \<forall>u < vertices s. \<forall>e < 5. \<forall>t t'.
        shift_found (SHIFT s v d) t \<longrightarrow> shift_found (SHIFT s u e) t' \<longrightarrow> shift_var s v d t = shift_var s u e t' \<longrightarrow>
        v = u \<and> d = e \<and> t = t')"

lemma set_shift_timesteps: "t \<in> set (shift_timesteps s n v d) \<longleftrightarrow> may_shift s n v d t"
  by (auto simp: shift_timesteps_def may_shift_def list_ex_iff)

text \<open>The running minimum and maximum, with \<open>-1\<close> for none.\<close>

lemma shift_bounds_fold:
  "\<forall>t \<in> set ts. 0 \<le> t \<Longrightarrow> fst b = -1 \<and> snd b = -1 \<or> 0 \<le> fst b \<and> fst b \<le> snd b \<Longrightarrow>
   t \<in> set ts \<or> fst b \<noteq> -1 \<and> fst b \<le> t \<and> t \<le> snd b \<Longrightarrow>
   fst (fold shift_bounds ts b) \<noteq> -1 \<and> fst (fold shift_bounds ts b) \<le> t \<and> t \<le> snd (fold shift_bounds ts b)"
proof (induction ts arbitrary: b)
  case (Cons x ts)
  have "fst (shift_bounds x b) = -1 \<and> snd (shift_bounds x b) = -1 \<or>
      0 \<le> fst (shift_bounds x b) \<and> fst (shift_bounds x b) \<le> snd (shift_bounds x b)"
    and "t \<in> set ts \<or> fst (shift_bounds x b) \<noteq> -1 \<and> fst (shift_bounds x b) \<le> t \<and> t \<le> snd (shift_bounds x b)"
    using Cons.prems by (auto simp: shift_bounds_def)
  from Cons.IH [OF _ this] Cons.prems(1) show ?case by simp
qed simp

lemma vertex_bounds_timestep:
  assumes "d < 5" "may_shift s n v d t"
  shows "fst (vertex_bounds s n v) \<noteq> -1 \<and> fst (vertex_bounds s n v) \<le> t \<and> t \<le> snd (vertex_bounds s n v)"
  unfolding vertex_bounds_def
proof (rule shift_bounds_fold)
  show "\<forall>t \<in> set (concat (map (shift_timesteps s n v) [0..<5])). 0 \<le> t"
    by (auto simp: set_shift_timesteps may_shift_def)
  have "\<exists>x \<in> set [0..<5]. t \<in> set (shift_timesteps s n v x)"
    using assms by (intro bexI [of _ d]) (auto simp: set_shift_timesteps)
  then show "t \<in> set (concat (map (shift_timesteps s n v) [0..<5])) \<or>
      fst (-1, -1) \<noteq> (-1::int) \<and> fst (-1, -1) \<le> t \<and> t \<le> snd (-1, -1)" by simp
qed simp

lemma distinct_upto_filter: "distinct (filter P [i..j])"
  by simp

lemma create_shift_cell_props:
  assumes "c = fst (create_shift_cell s n v d m)"
  shows "distinct (timestep c)" and "shift_found c t \<longleftrightarrow> may_shift s n v d t"
    and "shift_found c t \<longrightarrow> m \<le> shift_var_at c (shift_index c t) \<and>
      shift_var_at c (shift_index c t) < snd (create_shift_cell s n v d m)"
proof -
  have c: "timestep c = shift_timesteps s n v d" "first_varaible c = m"
    "snd (create_shift_cell s n v d m) = m + int (length (timestep c))"
    using assms by (simp_all add: create_shift_cell_def)
  show "distinct (timestep c)" unfolding c(1) shift_timesteps_def by simp
  show "shift_found c t \<longleftrightarrow> may_shift s n v d t" by (simp add: shift_found_iff c(1) set_shift_timesteps)
  show "shift_found c t \<longrightarrow> m \<le> shift_var_at c (shift_index c t) \<and>
      shift_var_at c (shift_index c t) < snd (create_shift_cell s n v d m)"
    using shift_var_cell [of c t] c by (auto simp: shift_vars_def)
qed

lemma CreateShift_eq:
  "CreateShift l n s = (snd (shift_rows s n l),
     s\<lparr>shift := Some (fst (shift_rows s n l)),
       shift_times_start := Some (map (\<lambda>v. fst (vertex_bounds s n v)) [0..<vertices s]),
       shift_times_end := Some (map (\<lambda>v. snd (vertex_bounds s n v)) [0..<vertices s]), max_timestep := n\<rparr>)"
  by (simp add: CreateShift_def shift_rows_def split: prod.split)

lemma shift_rows_row:
  assumes "1 \<le> l" "v < vertices s"
  shows "\<exists>m \<ge> l. fst (shift_rows s n l) ! v = fst (thread (create_shift_cell s n v) [0..<5] m)"
  using shift_row.thread_nth [OF assms(1), of v "[0..<vertices s]" s n] assms(2) by (auto simp: shift_rows_def)

lemma shift_rows_disjoint:
  assumes l: "1 \<le> l" and a: "v < vertices s" "d < 5" and b: "u < vertices s" "e < 5" and neq: "(v, d) \<noteq> (u, e)"
  shows "shift_vars (fst (shift_rows s n l) ! v ! d) \<inter> shift_vars (fst (shift_rows s n l) ! u ! e) = {}"
proof (cases "v = u")
  case True
  obtain m where m: "l \<le> m" "fst (shift_rows s n l) ! v = fst (thread (create_shift_cell s n v) [0..<5] m)"
    using shift_rows_row [OF l a(1)] by blast
  then show ?thesis
    using shift_cell.thread_disjoint_neq [of m d e "[0..<5]" s n v] l a b neq True by simp
next
  case False
  have len: "length (fst (shift_rows s n l) ! w) = 5" if "w < vertices s" for w
    using shift_rows_row [OF l that, of n] by force
  have "fst (shift_rows s n l) ! v ! d \<in> set (fst (shift_rows s n l) ! v)"
    "fst (shift_rows s n l) ! u ! e \<in> set (fst (shift_rows s n l) ! u)" using len a b by auto
  moreover have "(\<Union>c \<in> set (fst (shift_rows s n l) ! v). shift_vars c) \<inter> (\<Union>c \<in> set (fst (shift_rows s n l) ! u). shift_vars c) = {}"
    using shift_row.thread_disjoint_neq [OF l False, of "[0..<vertices s]" s n] a b by (simp add: shift_rows_def)
  ultimately show ?thesis by blast
qed

lemma CreateShift_table:
  assumes l: "1 \<le> l"
  shows "shift_table (snd (CreateShift l n s)) n l (fst (CreateShift l n s))"
proof -
  let ?s = "snd (CreateShift l n s)" and ?h = "fst (CreateShift l n s)"
  have cell: "SHIFT ?s v d = fst (shift_rows s n l) ! v ! d" for v d
    by (simp add: CreateShift_eq SHIFT_def)
  have frame: "may_shift ?s n = may_shift s n" "agents ?s = agents s" "vertices ?s = vertices s"
    by (simp_all add: fun_eq_iff CreateShift_eq may_shift_def first_time_def last_time_def has_nb_def nb_def)
  have times: "the (shift_times_start ?s) ! v = fst (vertex_bounds s n v)" "the (shift_times_end ?s) ! v = snd (vertex_bounds s n v)"
    if "v < vertices s" for v using that by (simp_all add: CreateShift_eq)
  have props: "distinct (timestep (SHIFT ?s v d)) \<and>
      (\<forall>t. shift_found (SHIFT ?s v d) t \<longleftrightarrow> may_shift s n v d t) \<and>
      (\<forall>t. shift_found (SHIFT ?s v d) t \<longrightarrow> l \<le> shift_var ?s v d t \<and> shift_var ?s v d t < ?h \<and>
         the (shift_times_start ?s) ! v \<noteq> -1 \<and> the (shift_times_start ?s) ! v \<le> t \<and> t \<le> the (shift_times_end ?s) ! v)"
    if vd: "v < vertices s" "d < 5" for v d
  proof -
    obtain m where m: "l \<le> m" "SHIFT ?s v d = fst (create_shift_cell s n v d m)"
      "snd (create_shift_cell s n v d m) \<le> ?h"
      using shift_rows_cell [OF l vd, of n] cell by (auto simp: CreateShift_eq)
    note P = create_shift_cell_props [OF m(2)]
    have "l \<le> shift_var ?s v d t \<and> shift_var ?s v d t < ?h" if "shift_found (SHIFT ?s v d) t" for t
      using P(3) [of t] that m(1,3) by linarith
    then show ?thesis
      using P(1,2) vertex_bounds_timestep [OF vd(2)] times [OF vd(1)] by simp
  qed
  have uniq: "v = u \<and> d = e \<and> t = t'"
    if ab: "v < vertices s" "d < 5" "u < vertices s" "e < 5"
      and w: "shift_found (SHIFT ?s v d) t" "shift_found (SHIFT ?s u e) t'" and eq: "shift_var ?s v d t = shift_var ?s u e t'"
    for v d u e t t'
  proof -
    have "shift_var ?s v d t \<in> shift_vars (SHIFT ?s v d) \<inter> shift_vars (SHIFT ?s u e)"
      using shift_var_cell [OF w(1)] shift_var_cell [OF w(2)] eq by simp
    then have same: "(v, d) = (u, e)"
      using shift_rows_disjoint [OF l ab, of n] unfolding cell by fast
    then show ?thesis using shift_var_inj [OF w(1)] w(2) eq by auto
  qed
  have h: "l \<le> ?h" using shift_row.thread_mono [OF l] by (simp add: CreateShift_eq shift_rows_def)
  show ?thesis
  proof (unfold shift_table_def frame, intro conjI)
    show "1 \<le> l" "l \<le> ?h" using l h by auto
  qed (use props in simp, use uniq in blast)
qed

lemma shift_tableD:
  assumes "shift_table s n lo hi"
  shows "1 \<le> lo" "lo \<le> hi"
    and "v < vertices s \<Longrightarrow> d < 5 \<Longrightarrow> distinct (timestep (SHIFT s v d))"
    and "v < vertices s \<Longrightarrow> d < 5 \<Longrightarrow> shift_found (SHIFT s v d) t \<longleftrightarrow> may_shift s n v d t"
    and "v < vertices s \<Longrightarrow> d < 5 \<Longrightarrow> shift_found (SHIFT s v d) t \<Longrightarrow>
      lo \<le> shift_var s v d t \<and> shift_var s v d t < hi"
    and "v < vertices s \<Longrightarrow> d < 5 \<Longrightarrow> shift_found (SHIFT s v d) t \<Longrightarrow>
      the (shift_times_start s) ! v \<noteq> -1 \<and> the (shift_times_start s) ! v \<le> t \<and> t \<le> the (shift_times_end s) ! v"
    and "v < vertices s \<Longrightarrow> d < 5 \<Longrightarrow> u < vertices s \<Longrightarrow> e < 5 \<Longrightarrow>
      shift_found (SHIFT s v d) t \<Longrightarrow> shift_found (SHIFT s u e) t' \<Longrightarrow> shift_var s v d t = shift_var s u e t' \<Longrightarrow>
      v = u \<and> d = e \<and> t = t'"
proof -
  show "1 \<le> lo" "lo \<le> hi" using assms unfolding shift_table_def by blast+
  have cells: "\<And>v d. v < vertices s \<Longrightarrow> d < 5 \<Longrightarrow> distinct (timestep (SHIFT s v d)) \<and>
        (\<forall>t. shift_found (SHIFT s v d) t \<longleftrightarrow> may_shift s n v d t) \<and>
        (\<forall>t. shift_found (SHIFT s v d) t \<longrightarrow> lo \<le> shift_var s v d t \<and> shift_var s v d t < hi \<and>
           the (shift_times_start s) ! v \<noteq> -1 \<and> the (shift_times_start s) ! v \<le> t \<and> t \<le> the (shift_times_end s) ! v)"
    using assms unfolding shift_table_def by simp
  show "v < vertices s \<Longrightarrow> d < 5 \<Longrightarrow> distinct (timestep (SHIFT s v d))"
    and "v < vertices s \<Longrightarrow> d < 5 \<Longrightarrow> shift_found (SHIFT s v d) t \<longleftrightarrow> may_shift s n v d t"
    and "v < vertices s \<Longrightarrow> d < 5 \<Longrightarrow> shift_found (SHIFT s v d) t \<Longrightarrow>
      lo \<le> shift_var s v d t \<and> shift_var s v d t < hi"
    and "v < vertices s \<Longrightarrow> d < 5 \<Longrightarrow> shift_found (SHIFT s v d) t \<Longrightarrow>
      the (shift_times_start s) ! v \<noteq> -1 \<and> the (shift_times_start s) ! v \<le> t \<and> t \<le> the (shift_times_end s) ! v"
    using cells by simp_all
  have "\<forall>v < vertices s. \<forall>d < 5. \<forall>u < vertices s. \<forall>e < 5. \<forall>t t'.
      shift_found (SHIFT s v d) t \<longrightarrow> shift_found (SHIFT s u e) t' \<longrightarrow> shift_var s v d t = shift_var s u e t' \<longrightarrow>
      v = u \<and> d = e \<and> t = t'"
    using assms unfolding shift_table_def by (elim conjE)
  then show "v < vertices s \<Longrightarrow> d < 5 \<Longrightarrow> u < vertices s \<Longrightarrow> e < 5 \<Longrightarrow>
      shift_found (SHIFT s v d) t \<Longrightarrow> shift_found (SHIFT s u e) t' \<Longrightarrow> shift_var s v d t = shift_var s u e t' \<Longrightarrow>
      v = u \<and> d = e \<and> t = t'"
    by simp
qed

end
