(* ===== verification/Formula.thy ===== *)
theory Formula
  imports Sum_Of_Costs Sat_Encoding Edge_Tables
begin

text \<open>
  What \<open>CreateFormula\<close> of the SAT back end leaves in the solver. Emitting clauses and reading the clock
  do not change what the clause lists are computed from; \<open>view\<close> erases the rest of the state, so the
  formula is the concatenation of the clause lists of the state after the variables were created.
\<close>

definition view :: "solver \<Rightarrow> solver" where
  "view s = s\<lparr>nr_clauses := 0, nr_clauses_move := 0, nr_clauses_dupli := 0, nr_clauses_conflict := 0,
     nr_clauses_soc := 0, nr_clauses_unit := 0, SAT_solver := None, cnf_printable := [],
     clock_reads := 0, nr_vars := 0, plan := [], solver_calls := 0\<rparr>"

lemma view_fields [simp]:
  "class_of (view s) = class_of s" "inst (view s) = inst s" "variables (view s) = variables s"
  "cost_function (view s) = cost_function s" "movement (view s) = movement s"
  "lazy_const (view s) = lazy_const s" "use_avoid (view s) = use_avoid s"
  "duplicates (view s) = duplicates s" "agents (view s) = agents s" "vertices (view s) = vertices s"
  "delta (view s) = delta s" "max_timestep (view s) = max_timestep s" "at (view s) = at s"
  "pass (view s) = pass s" "shift (view s) = shift s" "shift_times_start (view s) = shift_times_start s"
  "shift_times_end (view s) = shift_times_end s" "first_try (view s) = first_try s"
  "print_plan (view s) = print_plan s" "keep_plan (view s) = keep_plan s"
  "timeout (view s) = timeout s" "solver_log (view s) = solver_log s"
  "vertex_conflicts (view s) = vertex_conflicts s" "swap_conflicts (view s) = swap_conflicts s"
  "pebble_conflicts (view s) = pebble_conflicts s" "conflicts_present (view s) = conflicts_present s"
  by (simp_all add: view_def)

lemma view_tables [simp]:
  "AT (view s) = AT s" "PASS (view s) = PASS s" "SHIFT (view s) = SHIFT s" "has_nb (view s) = has_nb s"
  "nb (view s) = nb s" "first_time (view s) = first_time s" "last_time (view s) = last_time s"
  by (simp_all add: fun_eq_iff AT_def PASS_def SHIFT_def has_nb_def nb_def first_time_def last_time_def)

lemma view_idem [simp]: "view (view s) = view s"
  by (simp add: view_def)

lemma view_bump: "view (bump k (AddClause c s)) = view s"
  by (cases k; cases "class_of s"; simp add: add_defs view_def)

lemma view_emit [simp]: "view (emit k cs s) = view s"
  by (induction cs arbitrary: s) (simp_all add: emit_Cons view_bump)

lemma view_now [simp]: "view (snd (now clk s)) = view s"
  by (simp add: now_def view_def)

text \<open>Everything the proofs read depends on the view only.\<close>

lemma view_clauses:
  "conf_vertex_clauses (view s) = conf_vertex_clauses s"
  "conf_swapping_at_clauses (view s) = conf_swapping_at_clauses s"
  "conf_swapping_pass_clauses (view s) = conf_swapping_pass_clauses s"
  "conf_swapping_shift_clauses (view s) = conf_swapping_shift_clauses s"
  "conf_pebble_at_clauses (view s) = conf_pebble_at_clauses s"
  "conf_pebble_pass_clauses (view s) = conf_pebble_pass_clauses s"
  "conf_pebble_shift_clauses (view s) = conf_pebble_shift_clauses s"
  unfolding conf_vertex_clauses_def conf_swapping_at_clauses_def conf_swapping_pass_clauses_def
    conf_swapping_shift_clauses_def conf_pebble_at_clauses_def conf_pebble_pass_clauses_def
    conf_pebble_shift_clauses_def view_fields view_tables
  by (rule refl)+

lemma view_demand_clauses:
  "conf_vertex_on_demand_clauses (view s) = conf_vertex_on_demand_clauses s"
  "conf_swapping_at_on_demand_clauses (view s) = conf_swapping_at_on_demand_clauses s"
  "conf_swapping_pass_on_demand_clauses (view s) = conf_swapping_pass_on_demand_clauses s"
  "conf_swapping_shift_on_demand_clauses (view s) = conf_swapping_shift_on_demand_clauses s"
  "conf_pebble_at_on_demand_clauses (view s) = conf_pebble_at_on_demand_clauses s"
  "conf_pebble_pass_on_demand_clauses (view s) = conf_pebble_pass_on_demand_clauses s"
  "conf_pebble_shift_on_demand_clauses (view s) = conf_pebble_shift_on_demand_clauses s"
  unfolding conf_vertex_on_demand_clauses_def conf_swapping_at_on_demand_clauses_def
    conf_swapping_pass_on_demand_clauses_def conf_swapping_shift_on_demand_clauses_def
    conf_pebble_at_on_demand_clauses_def conf_pebble_pass_on_demand_clauses_def
    conf_pebble_shift_on_demand_clauses_def find_dir_def view_fields view_tables
  by (rule refl)+

lemma view_walk_clauses:
  "start_clauses (view s) = start_clauses s"
  "goal_clauses (view s) = goal_clauses s"
  "none_at_goal_clauses (view s) = none_at_goal_clauses s"
  "next_vertex_at_clauses (view s) = next_vertex_at_clauses s"
  "enter_vertex_pass_clauses (view s) = enter_vertex_pass_clauses s"
  "next_edge_pass_clauses (view s) = next_edge_pass_clauses s"
  "exactly_one_shift_clauses (view s) = exactly_one_shift_clauses s"
  "next_vertex_shift_clauses (view s) = next_vertex_shift_clauses s"
  unfolding start_clauses_def goal_clauses_def none_at_goal_clauses_def next_vertex_at_clauses_def next_vertices_def
    enter_vertex_pass_clauses_def next_edge_pass_clauses_def next_edges_def exactly_one_shift_clauses_def
    next_vertex_shift_clauses_def view_fields view_tables
  by (rule refl)+

lemma view_steps:
  "no_duplicates_step enc (view s) = no_duplicates_step enc s"
  "limit_soc_step (view s) = limit_soc_step s"
  "limit_soc_all_at_step (view s) = limit_soc_all_at_step s"
  unfolding no_duplicates_step_def present_vars_def limit_soc_step_def
    limit_soc_all_at_step_def late_chain_def view_fields view_tables
  by (rule refl)+

lemma view_gadgets:
  "no_duplicates enc lit (view s) = no_duplicates enc lit s"
  "limit_soc limit_soc_step enc lit (view s) = limit_soc limit_soc_step enc lit s"
  "limit_soc limit_soc_all_at_step enc lit (view s) = limit_soc limit_soc_all_at_step enc lit s"
  by (simp_all add: no_duplicates_def limit_soc_def view_steps)

text \<open>
  \<open>adds s F s'\<close>: the state \<open>s'\<close> has the view of \<open>s\<close> and the clauses \<open>F\<close> were given to the SAT solver.
\<close>

definition adds :: "solver \<Rightarrow> cnf \<Rightarrow> solver \<Rightarrow> bool" where
  "adds s F s' \<longleftrightarrow> view s' = view s \<and> SAT_solver s' = map_option (\<lambda>G. G @ F) (SAT_solver s)"

lemma adds_refl: "adds s [] s"
  by (simp add: adds_def option.map_ident)

lemma adds_trans: "adds s F t \<Longrightarrow> adds t G u \<Longrightarrow> adds s (F @ G) u"
  by (simp add: adds_def option.map_comp comp_def)

lemma adds_emit: "class_of s = MAPFSAT_SAT \<Longrightarrow> adds s F (emit k F s)"
  by (simp add: adds_def emit_SAT_solver)

lemma adds_emit_after: "adds s F t \<Longrightarrow> class_of s = MAPFSAT_SAT \<Longrightarrow> adds s (F @ G) (emit k G t)"
  by (metis adds_def adds_emit adds_trans view_fields(1))

lemma check_time_adds:
  assumes "check_time clk b l s = (False, s')"
  shows "adds s [] s'"
proof -
  have "s' = snd (now clk s)" using assms by (auto simp: check_time_def TimesUp_def now_def split: if_splits)
  then show ?thesis using view_now [of clk s] by (simp add: adds_def now_def option.map_ident)
qed

text \<open>A stage that adds clauses computed from the view and the next free variable.\<close>

definition sat_mode :: "solver \<Rightarrow> bool" where
  "sat_mode s \<longleftrightarrow>
     class_of s = MAPFSAT_SAT \<and> variables s \<in> {1, 2, 3} \<and> lazy_const s \<in> {1, 2} \<and> \<not> use_avoid s"

lemma sat_mode_view: "view s = view t \<Longrightarrow> sat_mode s = sat_mode t"
  unfolding sat_mode_def by (metis view_fields(1,3,6,7))

definition stage_adds :: "stage \<Rightarrow> (int \<Rightarrow> solver \<Rightarrow> cnf \<times> int) \<Rightarrow> bool" where
  "stage_adds f G \<longleftrightarrow>
     (\<forall>lit s. sat_mode s \<longrightarrow>
        fst (f lit s) = snd (G lit (view s)) \<and> adds s (fst (G lit (view s))) (snd (f lit s)))"

fun stages_formula :: "(int \<Rightarrow> solver \<Rightarrow> cnf \<times> int) list \<Rightarrow> int \<Rightarrow> solver \<Rightarrow> cnf \<times> int" where
  "stages_formula [] lit s = ([], lit)"
| "stages_formula (G # Gs) lit s =
     (let (F, lit1) = G lit s; (F', lit2) = stages_formula Gs lit1 s in (F @ F', lit2))"

lemma run_stages_adds:
  "list_all2 stage_adds fs Gs \<Longrightarrow> sat_mode s \<Longrightarrow>
   run_stages clk b l fs lit s = (Some lit', s') \<Longrightarrow>
   lit' = snd (stages_formula Gs lit (view s)) \<and> adds s (fst (stages_formula Gs lit (view s))) s'"
proof (induction fs arbitrary: Gs lit s)
  case Nil
  then show ?case by (simp add: adds_refl)
next
  case (Cons f fs)
  obtain G Gs' where Gs: "Gs = G # Gs'" "stage_adds f G" "list_all2 stage_adds fs Gs'"
    using Cons.prems(1) by (auto simp: list_all2_Cons1)
  obtain lit1 s1 where f: "f lit s = (lit1, s1)" by fastforce
  obtain up s2 where c: "check_time clk b l s1 = (up, s2)" by fastforce
  have up: "\<not> up" and rest: "run_stages clk b l fs lit1 s2 = (Some lit', s')"
    using Cons.prems(3) f c by (auto split: if_splits)
  have 1: "lit1 = snd (G lit (view s))" "adds s (fst (G lit (view s))) s1"
    using Gs(2) Cons.prems(2) f unfolding stage_adds_def by (metis fst_conv snd_conv)+
  have 2: "adds s1 [] s2" using check_time_adds c up by (metis (full_types))
  have same: "view s2 = view s" using 1(2) 2 by (simp add: adds_def)
  have "sat_mode s2" using sat_mode_view [OF same] Cons.prems(2) by simp
  from Cons.IH [OF Gs(3) this rest] have
    3: "lit' = snd (stages_formula Gs' lit1 (view s))" "adds s2 (fst (stages_formula Gs' lit1 (view s))) s'"
    by (simp_all add: same)
  have "adds s (fst (G lit (view s)) @ [] @ fst (stages_formula Gs' lit1 (view s))) s'"
    using adds_trans [OF 1(2) adds_trans [OF 2 3(2)]] by simp
  then show ?case using 1(1) 3(1) Gs(1) by (simp add: case_prod_beta Let_def)
qed

section \<open>The stages\<close>

text \<open>A choice by the kind of variables: at, pass or shift.\<close>

definition by_kind :: "solver \<Rightarrow> 'a \<Rightarrow> 'a \<Rightarrow> 'a \<Rightarrow> 'a" where
  "by_kind s x y z = (if variables s = 1 then x else if variables s = 2 then y else z)"

text \<open>The conflict clauses of the eager mode, and those of the lazy mode for the conflicts found so far.\<close>

definition eager_cnf :: "solver \<Rightarrow> cnf" where
  "eager_cnf s = conf_vertex_clauses s @
     (if movement s = 1
      then by_kind s (conf_swapping_at_clauses s) (conf_swapping_pass_clauses s) (conf_swapping_shift_clauses s)
      else if movement s = 2
      then by_kind s (conf_pebble_at_clauses s) (conf_pebble_pass_clauses s) (conf_pebble_shift_clauses s)
      else [])"

definition demand_cnf :: "solver \<Rightarrow> cnf" where
  "demand_cnf s = conf_vertex_on_demand_clauses s @
     (if movement s = 1
      then by_kind s (conf_swapping_at_on_demand_clauses s) (conf_swapping_pass_on_demand_clauses s)
        (conf_swapping_shift_on_demand_clauses s)
      else if movement s = 2
      then by_kind s (conf_pebble_at_on_demand_clauses s) (conf_pebble_pass_on_demand_clauses s)
        (conf_pebble_shift_on_demand_clauses s)
      else [])"

definition conflicts_cnf :: "solver \<Rightarrow> cnf" where
  "conflicts_cnf s = (if lazy_const s = 1 then eager_cnf s else demand_cnf s)"

definition positions_cnf :: "solver \<Rightarrow> cnf" where
  "positions_cnf s = start_clauses s @ goal_clauses s @ (if cost_function s = 2 then none_at_goal_clauses s else [])"

definition steps_cnf :: "solver \<Rightarrow> cnf" where
  "steps_cnf s = by_kind s (next_vertex_at_clauses s) (enter_vertex_pass_clauses s @ next_edge_pass_clauses s)
     (next_vertex_at_clauses s @ exactly_one_shift_clauses s @ next_vertex_shift_clauses s)"

definition moves_cnf :: "amk_encoder \<Rightarrow> int \<Rightarrow> solver \<Rightarrow> cnf \<times> int" where
  "moves_cnf enc lit s =
     (let (F, lit1) = (if duplicates s = 1 then no_duplicates enc lit s else ([], lit)) in
      (F @ steps_cnf s, lit1))"

definition cost_cnf :: "amk_encoder \<Rightarrow> int \<Rightarrow> solver \<Rightarrow> cnf \<times> int" where
  "cost_cnf enc lit s =
     (if cost_function s = 2 \<and> delta s > 0 then
        if duplicates s = 1 then limit_soc limit_soc_step enc lit s
        else if duplicates s = 2 then limit_soc limit_soc_all_at_step enc lit s
        else ([], lit)
      else ([], lit))"

lemma adds_op:
  assumes "adds s F t" "class_of s = MAPFSAT_SAT" "\<And>x. C (view x) = C x"
  shows "adds s (F @ C (view s)) (emit k (C t) t)"
proof -
  have "C t = C (view s)" using assms(1,3) by (metis adds_def)
  then show ?thesis using adds_emit_after [OF assms(1,2), of "C t" k] by simp
qed

lemmas adds_first = adds_op [OF adds_refl, unfolded append_Nil]

lemma adds_fields:
  assumes "adds s F t"
  shows "class_of t = class_of s" "variables t = variables s" "cost_function t = cost_function s"
    "movement t = movement s" "lazy_const t = lazy_const s" "use_avoid t = use_avoid s"
    "duplicates t = duplicates s" "delta t = delta s" "inst t = inst s" "agents t = agents s"
    "vertices t = vertices s" "at t = at s" "max_timestep t = max_timestep s" "first_try t = first_try s"
    "AT t = AT s" "has_nb t = has_nb s" "nb t = nb s" "first_time t = first_time s" "last_time t = last_time s"
  using assms unfolding adds_def by (metis view_fields view_tables)+

lemma eager_stage:
  assumes c: "class_of s = MAPFSAT_SAT" and v: "variables s \<in> {1, 2, 3}"
  shows "adds s (eager_cnf (view s)) (eager_conflicts s)"
proof -
  have 1: "adds s (conf_vertex_clauses (view s)) (CreateConf_Vertex s)"
    unfolding CreateConf_Vertex_def by (rule adds_first [where C = conf_vertex_clauses, OF c view_clauses(1)])
  note more = adds_op [where k = Conflict, OF 1 c]
  show ?thesis
    using more [of conf_swapping_at_clauses] more [of conf_swapping_pass_clauses] more [of conf_swapping_shift_clauses]
      more [of conf_pebble_at_clauses] more [of conf_pebble_pass_clauses] more [of conf_pebble_shift_clauses]
      1 v adds_fields [OF 1]
    by (auto simp: eager_conflicts_def by_variables_def eager_cnf_def by_kind_def Let_def view_clauses
        CreateConf_Swapping_At_def CreateConf_Swapping_Pass_def CreateConf_Swapping_Shift_def
        CreateConf_Pebble_At_def CreateConf_Pebble_Pass_def CreateConf_Pebble_Shift_def)
qed

lemma demand_stage:
  assumes c: "class_of s = MAPFSAT_SAT" and v: "variables s \<in> {1, 2, 3}"
  shows "adds s (demand_cnf (view s)) (on_demand_conflicts s)"
proof -
  have 1: "adds s (conf_vertex_on_demand_clauses (view s)) (CreateConf_Vertex_OnDemand s)"
    unfolding CreateConf_Vertex_OnDemand_def
    by (rule adds_first [where C = conf_vertex_on_demand_clauses, OF c view_demand_clauses(1)])
  note more = adds_op [where k = Conflict, OF 1 c]
  show ?thesis
    using more [of conf_swapping_at_on_demand_clauses] more [of conf_swapping_pass_on_demand_clauses]
      more [of conf_swapping_shift_on_demand_clauses] more [of conf_pebble_at_on_demand_clauses]
      more [of conf_pebble_pass_on_demand_clauses] more [of conf_pebble_shift_on_demand_clauses]
      1 v adds_fields [OF 1]
    by (auto simp: on_demand_conflicts_def by_variables_def demand_cnf_def by_kind_def Let_def view_demand_clauses
        CreateConf_Swapping_At_OnDemand_def CreateConf_Swapping_Pass_OnDemand_def CreateConf_Swapping_Shift_OnDemand_def
        CreateConf_Pebble_At_OnDemand_def CreateConf_Pebble_Pass_OnDemand_def CreateConf_Pebble_Shift_OnDemand_def)
qed

lemma conflicts_stage:
  assumes "sat_mode s"
  shows "fst (create_conflicts lit s) = lit \<and> adds s (conflicts_cnf (view s)) (snd (create_conflicts lit s))"
  using eager_stage [of s] demand_stage [of s] assms
  by (auto simp: sat_mode_def create_conflicts_def conflicts_cnf_def)

lemma positions_stage:
  assumes "class_of s = MAPFSAT_SAT"
  shows "fst (create_positions lit s) = lit \<and> adds s (positions_cnf (view s)) (snd (create_positions lit s))"
proof -
  let ?t = "CreatePossition_Goal (CreatePossition_Start s)"
  have 1: "adds s (start_clauses (view s)) (CreatePossition_Start s)"
    unfolding CreatePossition_Start_def by (rule adds_first [where C = start_clauses, OF assms view_walk_clauses(1)])
  have 2: "adds s (start_clauses (view s) @ goal_clauses (view s)) ?t"
    unfolding CreatePossition_Goal_def by (rule adds_op [where C = goal_clauses, OF 1 assms view_walk_clauses(2)])
  have 3: "adds s ((start_clauses (view s) @ goal_clauses (view s)) @ none_at_goal_clauses (view s))
      (CreatePossition_NoneAtGoal ?t)"
    unfolding CreatePossition_NoneAtGoal_def by (rule adds_op [where C = none_at_goal_clauses, OF 2 assms view_walk_clauses(3)])
  show ?thesis
    using 2 3 adds_fields [OF 2] by (simp add: create_positions_def positions_cnf_def Let_def)
qed

text \<open>The step clauses, after any clauses \<open>F\<close>.\<close>

lemma steps_stage:
  assumes F: "adds s F t" and c: "class_of s = MAPFSAT_SAT" and v: "variables s \<in> {1, 2, 3}"
  shows "adds s (F @ steps_cnf (view s)) (by_variables CreateMove_NextVertex_At
      (\<lambda>s. CreateMove_NextEdge_Pass (CreateMove_EnterVertex_Pass s))
      (\<lambda>s. CreateMove_NextVertex_Shift (CreateMove_ExactlyOne_Shift (CreateMove_NextVertex_At s))) t)"
proof -
  have 1: "adds s (F @ next_vertex_at_clauses (view s)) (CreateMove_NextVertex_At t)"
    unfolding CreateMove_NextVertex_At_def by (rule adds_op [where C = next_vertex_at_clauses, OF F c view_walk_clauses(4)])
  have 2: "adds s (F @ enter_vertex_pass_clauses (view s)) (CreateMove_EnterVertex_Pass t)"
    unfolding CreateMove_EnterVertex_Pass_def by (rule adds_op [where C = enter_vertex_pass_clauses, OF F c view_walk_clauses(5)])
  have 3: "adds s ((F @ enter_vertex_pass_clauses (view s)) @ next_edge_pass_clauses (view s))
      (CreateMove_NextEdge_Pass (CreateMove_EnterVertex_Pass t))"
    unfolding CreateMove_NextEdge_Pass_def by (rule adds_op [where C = next_edge_pass_clauses, OF 2 c view_walk_clauses(6)])
  have 4: "adds s ((F @ next_vertex_at_clauses (view s)) @ exactly_one_shift_clauses (view s))
      (CreateMove_ExactlyOne_Shift (CreateMove_NextVertex_At t))"
    unfolding CreateMove_ExactlyOne_Shift_def by (rule adds_op [where C = exactly_one_shift_clauses, OF 1 c view_walk_clauses(7)])
  have 5: "adds s (((F @ next_vertex_at_clauses (view s)) @ exactly_one_shift_clauses (view s)) @ next_vertex_shift_clauses (view s))
      (CreateMove_NextVertex_Shift (CreateMove_ExactlyOne_Shift (CreateMove_NextVertex_At t)))"
    unfolding CreateMove_NextVertex_Shift_def by (rule adds_op [where C = next_vertex_shift_clauses, OF 4 c view_walk_clauses(8)])
  show ?thesis
    using 1 3 5 v adds_fields(2) [OF F] by (auto simp: by_variables_def steps_cnf_def by_kind_def)
qed

lemma moves_stage:
  assumes "class_of s = MAPFSAT_SAT" "variables s \<in> {1, 2, 3}"
  shows "fst (create_moves enc lit s) = snd (moves_cnf enc lit (view s)) \<and>
    adds s (fst (moves_cnf enc lit (view s))) (snd (create_moves enc lit s))"
proof -
  let ?F = "fst (no_duplicates enc lit s)"
  have "adds s ?F (emit Dupli ?F s)" by (rule adds_emit [OF assms(1)])
  note 1 = steps_stage [OF this assms] and 2 = steps_stage [OF adds_refl assms]
  show ?thesis
    using 1 2
    by (simp add: create_moves_def moves_cnf_def CreateMove_NoDuplicates_def view_gadgets case_prod_beta Let_def)
qed

lemma cost_stage:
  assumes "class_of s = MAPFSAT_SAT"
  shows "fst (create_cost enc lit s) = snd (cost_cnf enc lit (view s)) \<and>
    adds s (fst (cost_cnf enc lit (view s))) (snd (create_cost enc lit s))"
  using assms
  by (simp add: create_cost_def cost_cnf_def CreateConst_LimitSoc_def CreateConst_LimitSoc_AllAt_def
      view_gadgets case_prod_beta Let_def adds_emit adds_refl)

lemma avoids_stage:
  "\<not> use_avoid s \<Longrightarrow> fst (create_avoids lit s) = lit \<and> adds s [] (snd (create_avoids lit s))"
  by (simp add: create_avoids_def adds_refl)

section \<open>The formula\<close>

definition sat_stages :: "amk_encoder \<Rightarrow> (int \<Rightarrow> solver \<Rightarrow> cnf \<times> int) list" where
  "sat_stages enc = [\<lambda>l s. (conflicts_cnf s, l), \<lambda>l s. (positions_cnf s, l), moves_cnf enc, cost_cnf enc, \<lambda>l s. ([], l)]"

lemma sat_stages_adds:
  "list_all2 stage_adds [create_conflicts, create_positions, create_moves enc, create_cost enc, create_avoids] (sat_stages enc)"
  unfolding sat_stages_def stage_adds_def
  using conflicts_stage positions_stage moves_stage cost_stage avoids_stage by (simp add: sat_mode_def)

text \<open>The formula, given the state in which the variables have been created.\<close>

definition sat_formula :: "amk_encoder \<Rightarrow> int \<Rightarrow> solver \<Rightarrow> cnf \<times> int" where
  "sat_formula enc lit s =
     (let (M, lit1) = moves_cnf enc lit s; (C, lit2) = cost_cnf enc lit1 s in
      (conflicts_cnf s @ positions_cnf s @ M @ C, lit2))"

lemma sat_stages_formula: "stages_formula (sat_stages enc) lit s = sat_formula enc lit s"
  by (simp add: sat_stages_def sat_formula_def case_prod_beta Let_def)

text \<open>The variables are created from the view.\<close>

definition make_variables :: "int \<Rightarrow> int \<Rightarrow> solver \<Rightarrow> int \<times> solver" where
  "make_variables n lit s =
     (let (lit1, s1) = CreateAt lit n s in by_kind s (lit1, s1) (CreatePass lit1 n s1) (CreateShift lit1 n s1))"

lemma create_variables_make:
  "sat_mode s \<Longrightarrow> create_variables n lit s = (if first_try s then make_variables n lit s else (lit, s))"
  by (auto simp: sat_mode_def create_variables_def make_variables_def by_kind_def CreateAt_eq)

lemma rows_view:
  "at_rows (view s) = at_rows s" "pass_rows (view s) = pass_rows s" "shift_rows (view s) = shift_rows s"
  "vertex_bounds (view s) = vertex_bounds s"
  unfolding at_rows_def create_at_cell_def pass_rows_def create_pass_cell_def shift_rows_def create_shift_cell_def
    vertex_bounds_def shift_timesteps_def view_fields view_tables
  by (rule refl)+

lemma rows_at:
  "pass_rows (s\<lparr>at := x, max_timestep := n, at_vars := y\<rparr>) = pass_rows s"
  "shift_rows (s\<lparr>at := x, max_timestep := n, at_vars := y\<rparr>) = shift_rows s"
  "vertex_bounds (s\<lparr>at := x, max_timestep := n, at_vars := y\<rparr>) = vertex_bounds s"
proof -
  let ?s = "s\<lparr>at := x, max_timestep := n, at_vars := y\<rparr>"
  have eq: "has_nb ?s = has_nb s" "nb ?s = nb s" "first_time ?s = first_time s" "last_time ?s = last_time s"
    "vertices ?s = vertices s" "agents ?s = agents s"
    by (simp_all add: fun_eq_iff has_nb_def nb_def first_time_def last_time_def)
  show "pass_rows ?s = pass_rows s" "shift_rows ?s = shift_rows s" "vertex_bounds ?s = vertex_bounds s"
    unfolding pass_rows_def create_pass_cell_def shift_rows_def create_shift_cell_def
      vertex_bounds_def shift_timesteps_def eq
    by (rule refl)+
qed

text \<open>The tables as functions of the view: what \<open>make_variables\<close> writes.\<close>

lemma make_variables_eq:
  "make_variables n l s = by_kind s
     (snd (at_rows s n l), s\<lparr>at := Some (fst (at_rows s n l)), max_timestep := n, at_vars := snd (at_rows s n l)\<rparr>)
     (snd (pass_rows s n (snd (at_rows s n l))),
      s\<lparr>at := Some (fst (at_rows s n l)), max_timestep := n, at_vars := snd (at_rows s n l),
        pass := Some (fst (pass_rows s n (snd (at_rows s n l))))\<rparr>)
     (snd (shift_rows s n (snd (at_rows s n l))),
      s\<lparr>at := Some (fst (at_rows s n l)), max_timestep := n, at_vars := snd (at_rows s n l),
        shift := Some (fst (shift_rows s n (snd (at_rows s n l)))),
        shift_times_start := Some (map (\<lambda>v. fst (vertex_bounds s n v)) [0..<vertices s]),
        shift_times_end := Some (map (\<lambda>v. snd (vertex_bounds s n v)) [0..<vertices s])\<rparr>)"
  by (simp add: make_variables_def CreateAt_eq CreatePass_eq CreateShift_eq by_kind_def rows_at)

lemma make_variables_view:
  assumes "view t = view s"
  shows "fst (make_variables n l t) = fst (make_variables n l (view s))"
    and "view (snd (make_variables n l t)) = snd (make_variables n l (view s))"
    and "SAT_solver (snd (make_variables n l t)) = SAT_solver t"
proof -
  have rows: "at_rows t = at_rows (view s)" "pass_rows t = pass_rows (view s)" "shift_rows t = shift_rows (view s)"
    "vertex_bounds t = vertex_bounds (view s)" "vertices t = vertices (view s)" "variables t = variables (view s)"
    using rows_view [of t] assms view_fields(3,10) [of t] by simp_all
  show "fst (make_variables n l t) = fst (make_variables n l (view s))"
    by (simp add: make_variables_eq by_kind_def rows)
  show "SAT_solver (snd (make_variables n l t)) = SAT_solver t" by (simp add: make_variables_eq by_kind_def)
  have "view (snd (make_variables n l t)) = by_kind t
     ((view t)\<lparr>at := Some (fst (at_rows t n l)), max_timestep := n, at_vars := snd (at_rows t n l)\<rparr>)
     ((view t)\<lparr>at := Some (fst (at_rows t n l)), max_timestep := n, at_vars := snd (at_rows t n l),
        pass := Some (fst (pass_rows t n (snd (at_rows t n l))))\<rparr>)
     ((view t)\<lparr>at := Some (fst (at_rows t n l)), max_timestep := n, at_vars := snd (at_rows t n l),
        shift := Some (fst (shift_rows t n (snd (at_rows t n l)))),
        shift_times_start := Some (map (\<lambda>v. fst (vertex_bounds t n v)) [0..<vertices t]),
        shift_times_end := Some (map (\<lambda>v. snd (vertex_bounds t n v)) [0..<vertices t])\<rparr>)"
    by (simp add: make_variables_eq by_kind_def view_def)
  then show "view (snd (make_variables n l t)) = snd (make_variables n l (view s))"
    using assms rows by (simp add: make_variables_eq by_kind_def)
qed

text \<open>The state after the variables have been created, and the next free variable.\<close>

definition var_state :: "solver \<Rightarrow> solver" where
  "var_state s = snd (make_variables (GetMksLB (inst s) (agents s) + delta s) (nr_vars s) (view s))"

definition var_next :: "solver \<Rightarrow> int" where
  "var_next s = fst (make_variables (GetMksLB (inst s) (agents s) + delta s) (nr_vars s) (view s))"

lemma var_state_frame [simp]:
  "timeout (var_state s) = timeout s" "solver_log (var_state s) = solver_log s"
  "class_of (var_state s) = class_of s" "inst (var_state s) = inst s" "variables (var_state s) = variables s"
  "cost_function (var_state s) = cost_function s" "movement (var_state s) = movement s"
  "lazy_const (var_state s) = lazy_const s" "use_avoid (var_state s) = use_avoid s"
  "duplicates (var_state s) = duplicates s" "agents (var_state s) = agents s"
  "vertices (var_state s) = vertices s" "delta (var_state s) = delta s" "first_try (var_state s) = first_try s"
  "print_plan (var_state s) = print_plan s" "keep_plan (var_state s) = keep_plan s"
  "max_timestep (var_state s) = GetMksLB (inst s) (agents s) + delta s"
  "vertex_conflicts (var_state s) = vertex_conflicts s" "swap_conflicts (var_state s) = swap_conflicts s"
  "pebble_conflicts (var_state s) = pebble_conflicts s" "view (var_state s) = var_state s"
  by (simp_all add: var_state_def make_variables_eq by_kind_def)
    (simp_all add: view_def)

section \<open>The clock\<close>

definition keeps_clock :: "stage \<Rightarrow> bool" where
  "keeps_clock f \<longleftrightarrow> (\<forall>lit s. clock_reads (snd (f lit s)) = clock_reads s)"

lemma by_variables_clock:
  "(\<And>s. clock_reads (f s) = clock_reads s) \<Longrightarrow> (\<And>s. clock_reads (g s) = clock_reads s) \<Longrightarrow>
   (\<And>s. clock_reads (h s) = clock_reads s) \<Longrightarrow> clock_reads (by_variables f g h s) = clock_reads s"
  by (simp add: by_variables_def)

lemmas constraint_ops =
  CreateConf_Vertex_def CreateConf_Swapping_At_def CreateConf_Swapping_Pass_def CreateConf_Swapping_Shift_def
  CreateConf_Pebble_At_def CreateConf_Pebble_Pass_def CreateConf_Pebble_Shift_def
  CreateConf_Vertex_OnDemand_def CreateConf_Swapping_At_OnDemand_def CreateConf_Swapping_Pass_OnDemand_def
  CreateConf_Swapping_Shift_OnDemand_def CreateConf_Pebble_At_OnDemand_def CreateConf_Pebble_Pass_OnDemand_def
  CreateConf_Pebble_Shift_OnDemand_def CreatePossition_Start_def CreatePossition_Goal_def
  CreatePossition_NoneAtGoal_def CreateMove_NoDuplicates_def CreateMove_NextVertex_At_def
  CreateMove_EnterVertex_Pass_def CreateMove_NextEdge_Pass_def CreateMove_ExactlyOne_Shift_def
  CreateMove_NextVertex_Shift_def CreateConst_LimitSoc_def CreateConst_LimitSoc_AllAt_def CreateConst_Avoid_def

lemma stages_clock:
  "keeps_clock (create_variables n)" "keeps_clock create_conflicts" "keeps_clock create_positions"
  "keeps_clock (create_moves enc)" "keeps_clock (create_cost enc)" "keeps_clock create_avoids"
proof -
  show "keeps_clock (create_variables n)"
    by (simp add: keeps_clock_def create_variables_def CreateAt_def CreatePass_def CreateShift_def
        case_prod_beta Let_def)
  show "keeps_clock create_conflicts"
    by (simp add: keeps_clock_def create_conflicts_def eager_conflicts_def on_demand_conflicts_def
        by_variables_clock constraint_ops Let_def)
  show "keeps_clock create_positions" "keeps_clock (create_moves enc)" "keeps_clock (create_cost enc)"
    "keeps_clock create_avoids"
    by (simp_all add: keeps_clock_def create_positions_def create_moves_def create_cost_def create_avoids_def
        by_variables_clock constraint_ops case_prod_beta Let_def)
qed

lemma run_stages_clock:
  "(\<And>f. f \<in> set fs \<Longrightarrow> keeps_clock f) \<Longrightarrow> run_stages clk b lim fs lit s = (res, s') \<Longrightarrow>
   clock_reads s \<le> clock_reads s' \<and>
   (res = None \<longrightarrow> clock_reads s < clock_reads s' \<and> lim < millis (clk (clock_reads s' - 1) - b))"
proof (induction fs arbitrary: lit s)
  case (Cons f fs)
  let ?s1 = "snd (f lit s)"
  have s1: "clock_reads ?s1 = clock_reads s" using Cons.prems(1) [of f] by (simp add: keeps_clock_def)
  show ?case
  proof (cases "lim < millis (clk (clock_reads s) - b)")
    case True
    then have "res = None" "clock_reads s' = Suc (clock_reads s)"
      using Cons.prems(2) s1
      by (auto simp: check_time_def now_def TimesUp_def CleanUp_def ReleaseSolver_def case_prod_beta Let_def
          split: solver_class.splits)
    then show ?thesis using True by simp
  next
    case False
    let ?s2 = "?s1\<lparr>clock_reads := Suc (clock_reads ?s1)\<rparr>"
    have "run_stages clk b lim fs (fst (f lit s)) ?s2 = (res, s')"
      using Cons.prems(2) s1 False by (simp add: check_time_def now_def TimesUp_def case_prod_beta Let_def)
    from Cons.IH [OF _ this] Cons.prems(1) s1 show ?thesis by auto
  qed
qed auto

section \<open>The call\<close>

definition timed_out :: "clock \<Rightarrow> int \<Rightarrow> solver \<Rightarrow> solver \<Rightarrow> bool" where
  "timed_out clk lim s s' \<longleftrightarrow> lim < millis (clk (clock_reads s' - 1) - clk (clock_reads s))"

text \<open>The first call for a cost: the variables, then all clauses.\<close>

lemma CreateFormula_cases:
  assumes mode: "sat_mode s" and first: "first_try s"
    and run: "CreateFormula_SAT enc clk limit s = (lit', s')"
  shows "clock_reads s < clock_reads s'"
    and "lit' = -1 \<and> timed_out clk limit s s' \<or>
      lit' = snd (sat_formula enc (var_next s) (var_state s)) \<and> view s' = var_state s \<and>
      SAT_solver s' = map_option (\<lambda>G. G @ fst (sat_formula enc (var_next s) (var_state s))) (SAT_solver s)"
proof -
  let ?n = "GetMksLB (inst s) (agents s) + delta s" and ?b = "fst (now clk s)" and ?s0 = "snd (now clk s)"
  let ?t = "snd (make_variables ?n (nr_vars s) ?s0)"
  let ?stages = "[create_conflicts, create_positions, create_moves enc, create_cost enc, create_avoids]"
  let ?F = "fst (sat_formula enc (var_next s) (var_state s))"
  let ?goal = "\<lambda>lit' s'. clock_reads s < clock_reads s' \<and> (lit' = -1 \<and> timed_out clk limit s s' \<or>
      lit' = snd (sat_formula enc (var_next s) (var_state s)) \<and> view s' = var_state s \<and>
      SAT_solver s' = map_option (\<lambda>G. G @ ?F) (SAT_solver s))"
  have v0: "view ?s0 = view s" by simp
  note T = make_variables_view [OF v0, of ?n "nr_vars s"]
  have mode0: "sat_mode ?s0" using sat_mode_view [OF v0] mode by simp
  have fields: "first_try ?s0 = first_try s" by (simp add: now_def)
  have cv: "create_variables ?n (nr_vars s) ?s0 = (var_next s, ?t)"
    using first fields create_variables_make [OF mode0] T(1) by (simp add: var_next_def prod_eq_iff)
  obtain r1 s1 where r1: "run_stages clk ?b limit [create_variables ?n] (nr_vars s) ?s0 = (r1, s1)" by fastforce
  have c1: "Suc (clock_reads s) \<le> clock_reads s1 \<and> (r1 = None \<longrightarrow> Suc (clock_reads s) < clock_reads s1 \<and> timed_out clk limit s s1)"
    using run_stages_clock [OF _ r1] stages_clock(1) by (simp add: now_def timed_out_def)
  have "?goal lit' s'"
  proof (cases r1)
    case None
    then have "lit' = -1" "s' = s1" using run r1 by (simp_all add: CreateFormula_SAT_def case_prod_beta Let_def)
    then show ?thesis using c1 None by simp
  next
    case (Some l1)
    obtain up s1' where c: "check_time clk ?b limit ?t = (up, s1')" by fastforce
    have "\<not> up" "s1' = s1" "l1 = var_next s" using r1 cv c Some by (auto split: if_splits)
    then have a1: "adds ?t [] s1" and l1: "l1 = var_next s" using c check_time_adds by (metis (full_types))+
    have v1: "view s1 = var_state s" using a1 T(2) by (simp add: adds_def var_state_def)
    have ft: "first_try s1" using arg_cong [OF v1, of first_try] first by simp
    obtain r2 s2 where r2: "run_stages clk ?b limit ?stages (var_next s) s1 = (r2, s2)" by fastforce
    have c2: "clock_reads s1 \<le> clock_reads s2 \<and> (r2 = None \<longrightarrow> timed_out clk limit s s2)"
      using run_stages_clock [OF _ r2] stages_clock(2-6) by (auto simp: now_def timed_out_def)
    show ?thesis
    proof (cases r2)
      case None
      then have "lit' = -1" "s' = s2"
        using run r1 r2 Some l1 ft by (simp_all add: CreateFormula_SAT_def case_prod_beta Let_def)
      then show ?thesis using c1 c2 None by auto
    next
      case l2: (Some l2)
      then have eq: "l2 = lit'" "s2 = s'"
        using run r1 r2 Some l1 ft by (simp_all add: CreateFormula_SAT_def case_prod_beta Let_def)
      have "sat_mode s1" using arg_cong [OF v1, of sat_mode] mode sat_mode_view [of s1 "view s1"] by (simp add: sat_mode_def)
      from run_stages_adds [OF sat_stages_adds this] r2 l2
      have res: "l2 = snd (sat_formula enc (var_next s) (var_state s))" "adds s1 ?F s2"
        by (auto simp: sat_stages_formula v1)
      have "SAT_solver ?t = SAT_solver s" using T(3) by (simp add: now_def)
      moreover have "adds ?t ([] @ ?F) s2" by (rule adds_trans [OF a1 res(2)])
      ultimately have "view s2 = var_state s" "SAT_solver s2 = map_option (\<lambda>G. G @ ?F) (SAT_solver s)"
        using T(2) by (simp_all add: adds_def var_state_def)
      then show ?thesis using c1 c2 res(1) eq by auto
    qed
  qed
  then show "clock_reads s < clock_reads s'"
    and "lit' = -1 \<and> timed_out clk limit s s' \<or>
      lit' = snd (sat_formula enc (var_next s) (var_state s)) \<and> view s' = var_state s \<and>
      SAT_solver s' = map_option (\<lambda>G. G @ ?F) (SAT_solver s)"
    by blast+
qed

text \<open>A further call of the lazy mode adds the clauses of the conflicts to the formula.\<close>

lemma CreateFormula_again:
  assumes mode: "sat_mode s" and again: "\<not> first_try s"
    and run: "CreateFormula_SAT enc clk limit s = (lit', s')"
  shows "clock_reads s < clock_reads s'"
    and "lit' = -1 \<and> timed_out clk limit s s' \<or>
      lit' = nr_vars s \<and> view s' = view s \<and>
      SAT_solver s' = map_option (\<lambda>G. G @ conflicts_cnf (view s)) (SAT_solver s)"
proof -
  let ?n = "GetMksLB (inst s) (agents s) + delta s" and ?b = "fst (now clk s)" and ?s0 = "snd (now clk s)"
  let ?goal = "\<lambda>lit' s'. clock_reads s < clock_reads s' \<and> (lit' = -1 \<and> timed_out clk limit s s' \<or>
      lit' = nr_vars s \<and> view s' = view s \<and>
      SAT_solver s' = map_option (\<lambda>G. G @ conflicts_cnf (view s)) (SAT_solver s))"
  have v0: "view ?s0 = view s" by simp
  have mode0: "sat_mode ?s0" using sat_mode_view [OF v0] mode by simp
  have ft0: "\<not> first_try ?s0" using again by (simp add: now_def)
  have cv: "create_variables ?n (nr_vars s) ?s0 = (nr_vars s, ?s0)"
    using create_variables_make [OF mode0] ft0 by simp
  obtain r1 s1 where r1: "run_stages clk ?b limit [create_variables ?n] (nr_vars s) ?s0 = (r1, s1)" by fastforce
  have c1: "Suc (clock_reads s) \<le> clock_reads s1 \<and> (r1 = None \<longrightarrow> timed_out clk limit s s1)"
    using run_stages_clock [OF _ r1] stages_clock(1) by (simp add: now_def timed_out_def)
  have "?goal lit' s'"
  proof (cases r1)
    case None
    then have "lit' = -1" "s' = s1" using run r1 by (simp_all add: CreateFormula_SAT_def case_prod_beta Let_def)
    then show ?thesis using c1 None by simp
  next
    case (Some l1)
    obtain up s1' where c: "check_time clk ?b limit ?s0 = (up, s1')" by fastforce
    have "\<not> up" "s1' = s1" "l1 = nr_vars s" using r1 cv c Some by (auto split: if_splits)
    then have a1: "adds ?s0 [] s1" and l1: "l1 = nr_vars s" using c check_time_adds by (metis (full_types))+
    have v1: "view s1 = view s" "SAT_solver s1 = SAT_solver s" using a1 v0 by (simp_all add: adds_def now_def option.map_ident)
    have ft: "\<not> first_try s1" using arg_cong [OF v1(1), of first_try] again by simp
    have eq: "(lit', s') = create_conflicts l1 s1"
      using run r1 Some ft by (simp add: CreateFormula_SAT_def case_prod_beta Let_def)
    have "sat_mode s1" using sat_mode_view [OF v1(1)] mode by simp
    note C = conflicts_stage [OF this, of l1]
    have "clock_reads s' = clock_reads s1"
      using stages_clock(2) eq unfolding keeps_clock_def by (metis snd_conv)
    moreover have "lit' = nr_vars s" using C l1 eq by (metis fst_conv)
    moreover have "adds s1 (conflicts_cnf (view s1)) s'" using C eq by (metis snd_conv)
    ultimately show ?thesis using c1 v1 by (simp add: adds_def)
  qed
  then show "clock_reads s < clock_reads s'"
    and "lit' = -1 \<and> timed_out clk limit s s' \<or>
      lit' = nr_vars s \<and> view s' = view s \<and>
      SAT_solver s' = map_option (\<lambda>G. G @ conflicts_cnf (view s)) (SAT_solver s)"
    by blast+
qed

end
