(* ===== verification/Edge_Semantics.thy ===== *)
theory Edge_Semantics
  imports Edge_Tables Semantics
begin

text \<open>
  What the clauses over edge variables say: \<open>passes\<close> reads a pass variable (an agent leaves a vertex in
  a direction), \<open>shifts\<close> a shift variable (some agent does).
\<close>

definition passes :: "solver \<Rightarrow> assignment \<Rightarrow> nat \<Rightarrow> nat \<Rightarrow> nat \<Rightarrow> int \<Rightarrow> bool" where
  "passes s I a v d t \<longleftrightarrow> pass_window s a v d t \<and> I (pass_var s a v d t)"

definition shifts :: "solver \<Rightarrow> assignment \<Rightarrow> nat \<Rightarrow> nat \<Rightarrow> int \<Rightarrow> bool" where
  "shifts s I v d t \<longleftrightarrow> shift_found (SHIFT s v d) t \<and> I (shift_var s v d t)"

lemma opp_less: "d < 5 \<Longrightarrow> opp d < 5"
  by (auto simp: opp_def OppositeDir_def dest!: less_5_cases)

lemma nb_okD: "nb_ok s \<Longrightarrow> v < vertices s \<Longrightarrow> d < 5 \<Longrightarrow> has_nb s v d \<Longrightarrow> nb s v d < vertices s"
  by (simp add: nb_ok_def)

section \<open>Pass variables\<close>

lemma pass_lits:
  assumes P: "pass_table s n lo hi" and "a < agents s" "v < vertices s" "d < 5" "pass_window s a v d t"
  shows "lit_true I (- pass_var s a v d t) \<longleftrightarrow> \<not> passes s I a v d t"
    and "lit_true I (pass_var s a v d t) \<longleftrightarrow> passes s I a v d t"
proof -
  have "0 < pass_var s a v d t" using pass_tableD(1) [OF P] pass_tableD(4) [OF P assms(2-5)] by simp
  then show "lit_true I (- pass_var s a v d t) \<longleftrightarrow> \<not> passes s I a v d t"
    and "lit_true I (pass_var s a v d t) \<longleftrightarrow> passes s I a v d t"
    using assms(5) by (simp_all add: passes_def cnf_simps)
qed

lemma enter_vertex_pass_sem [clause_sem]:
  assumes T: "at_table s n lo hi" and P: "pass_table s n lo' hi'" and nb: "nb_ok s"
    and W: "\<And>a v d t. a < agents s \<Longrightarrow> v < vertices s \<Longrightarrow> d < 5 \<Longrightarrow> pass_window s a v d t \<Longrightarrow>
      at_window s a (nb s v d) (t + 1)"
  shows "cnf_true I (enter_vertex_pass_clauses s) \<longleftrightarrow>
    (\<forall>v < vertices s. \<forall>d < 5. \<forall>a < agents s. \<forall>t. passes s I a v d t \<longrightarrow> occ s I a (nb s v d) (t + 1))"
proof -
  have has: "has_nb s v d" if "a < agents s" "v < vertices s" "d < 5" "pass_window s a v d t" for a v d t
    using pass_tableD(3) [OF P that(1-3)] that(4) by blast
  have clause: "clause_true I [- pass_var s a v d t, at_var s a (nb s v d) (t + 1)] \<longleftrightarrow>
      (passes s I a v d t \<longrightarrow> occ s I a (nb s v d) (t + 1))"
    if av: "a < agents s" "v < vertices s" "d < 5" "pass_window s a v d t" for a v d t
    using pass_lits(1) [OF P av] pos_occ [OF T av(1) nb_okD [OF nb av(2,3) has [OF av]] W [OF av]] by simp
  have "cnf_true I (enter_vertex_pass_clauses s) \<longleftrightarrow>
    (\<forall>v < vertices s. \<forall>d < 5. has_nb s v d \<longrightarrow> (\<forall>a < agents s. \<forall>t. pass_window s a v d t \<longrightarrow>
       clause_true I [- pass_var s a v d t, at_var s a (nb s v d) (t + 1)]))"
    unfolding enter_vertex_pass_clauses_def cnf_simps in_window_def used_def
    by (simp del: clause_true_Cons add: Ball_def) (auto simp del: clause_true_Cons)
  then show ?thesis using clause has by (auto simp: passes_def)
qed

lemma next_edge_pass_sem [clause_sem]:
  assumes T: "at_table s n lo hi" and P: "pass_table s n lo' hi'"
  shows "cnf_true I (next_edge_pass_clauses s) \<longleftrightarrow>
    (\<forall>a < agents s. \<forall>v < vertices s. \<forall>t. occ s I a v t \<longrightarrow>
       (\<exists>d < 5. pass_window s a v d t) \<longrightarrow> (\<exists>d < 5. passes s I a v d t))"
proof -
  have set: "set (next_edges s a v t) = {pass_var s a v d t | d. d < 5 \<and> pass_window s a v d t}" for a v t
    by (auto simp: next_edges_def used_def in_window_def)
  have ne: "next_edges s a v t \<noteq> [] \<longleftrightarrow> (\<exists>d < 5. pass_window s a v d t)" for a v t
    using set [of a v t] by (simp flip: set_empty)
  have clause: "clause_true I (next_edges s a v t @ [- at_var s a v t]) \<longleftrightarrow>
      (occ s I a v t \<longrightarrow> (\<exists>d < 5. passes s I a v d t))"
    if av: "a < agents s" "v < vertices s" "at_window s a v t" for a v t
  proof -
    have "clause_true I (next_edges s a v t) \<longleftrightarrow> (\<exists>d < 5. pass_window s a v d t \<and> lit_true I (pass_var s a v d t))"
      unfolding clause_true_def set by blast
    also have "\<dots> \<longleftrightarrow> (\<exists>d < 5. passes s I a v d t)"
      using pass_lits(2) [OF P av(1,2)] by (auto simp: passes_def)
    finally show ?thesis using neg_occ [OF T av] by auto
  qed
  have "cnf_true I (next_edge_pass_clauses s) \<longleftrightarrow>
    (\<forall>a < agents s. \<forall>v < vertices s. \<forall>t. at_window s a v t \<longrightarrow> next_edges s a v t \<noteq> [] \<longrightarrow>
       clause_true I (next_edges s a v t @ [- at_var s a v t]))"
    unfolding next_edge_pass_clauses_def cnf_simps in_window_def used_def
    by (simp del: clause_true_Cons clause_true_append add: Ball_def) (auto simp del: clause_true_Cons clause_true_append)
  then show ?thesis using clause ne by (simp add: occ_def del: clause_true_append cong: imp_cong) blast
qed

lemma conf_swapping_pass_sem [clause_sem]:
  assumes P: "pass_table s n lo hi" and nb: "nb_ok s"
  shows "cnf_true I (conf_swapping_pass_clauses s) \<longleftrightarrow>
    (\<forall>v < vertices s. \<forall>d \<in> {1..<5}. has_nb s v d \<longrightarrow> (\<forall>a1 < agents s. \<forall>a2 \<in> {a1 + 1..<agents s}. \<forall>t.
       \<not> (passes s I a1 v d t \<and> passes s I a2 (nb s v d) (opp d) t)))"
proof -
  have clause: "clause_true I [- pass_var s a1 v d t, - pass_var s a2 (nb s v d) (opp d) t] \<longleftrightarrow>
      \<not> (passes s I a1 v d t \<and> passes s I a2 (nb s v d) (opp d) t)"
    if "v < vertices s" "d < 5" "has_nb s v d" "a1 < agents s" "a2 < agents s"
      "pass_window s a1 v d t" "pass_window s a2 (nb s v d) (opp d) t" for v d a1 a2 t
    using pass_lits(1) [OF P that(4,1,2,6)] pass_lits(1) [OF P that(5) nb_okD [OF nb that(1-3)] opp_less [OF that(2)] that(7)]
    by simp
  have "cnf_true I (conf_swapping_pass_clauses s) \<longleftrightarrow>
    (\<forall>v < vertices s. \<forall>d \<in> {1..<5}. has_nb s v d \<longrightarrow> (\<forall>a1 < agents s. \<forall>a2 \<in> {a1 + 1..<agents s}. \<forall>t.
       pass_window s a1 v d t \<longrightarrow> pass_window s a2 (nb s v d) (opp d) t \<longrightarrow>
       clause_true I [- pass_var s a1 v d t, - pass_var s a2 (nb s v d) (opp d) t]))"
    unfolding conf_swapping_pass_clauses_def cnf_simps in_window_def used_def
    by (simp del: clause_true_Cons add: Ball_def) (auto simp del: clause_true_Cons)
  then show ?thesis using clause by (simp add: passes_def del: clause_true_Cons cong: imp_cong) fastforce
qed

lemma conf_pebble_pass_sem [clause_sem]:
  assumes T: "at_table s n lo hi" and P: "pass_table s n lo' hi'" and nb: "nb_ok s"
  shows "cnf_true I (conf_pebble_pass_clauses s) \<longleftrightarrow>
    (\<forall>v < vertices s. \<forall>d \<in> {1..<5}. has_nb s v d \<longrightarrow> (\<forall>a1 < agents s. \<forall>a2 < agents s. a1 \<noteq> a2 \<longrightarrow> (\<forall>t.
       \<not> (passes s I a1 v d t \<and> occ s I a2 (nb s v d) t))))"
proof -
  have clause: "clause_true I [- pass_var s a1 v d t, - at_var s a2 (nb s v d) t] \<longleftrightarrow>
      \<not> (passes s I a1 v d t \<and> occ s I a2 (nb s v d) t)"
    if "v < vertices s" "d < 5" "has_nb s v d" "a1 < agents s" "a2 < agents s"
      "pass_window s a1 v d t" "at_window s a2 (nb s v d) t" for v d a1 a2 t
    using pass_lits(1) [OF P that(4,1,2,6)] neg_occ [OF T that(5) nb_okD [OF nb that(1-3)] that(7)] by simp
  have "cnf_true I (conf_pebble_pass_clauses s) \<longleftrightarrow>
    (\<forall>v < vertices s. \<forall>d \<in> {1..<5}. has_nb s v d \<longrightarrow> (\<forall>a1 < agents s. \<forall>a2 < agents s. a1 \<noteq> a2 \<longrightarrow> (\<forall>t.
       pass_window s a1 v d t \<longrightarrow> at_window s a2 (nb s v d) t \<longrightarrow>
       clause_true I [- pass_var s a1 v d t, - at_var s a2 (nb s v d) t])))"
    unfolding conf_pebble_pass_clauses_def cnf_simps in_window_def used_def
    by (simp del: clause_true_Cons add: Ball_def) (auto simp del: clause_true_Cons)
  then show ?thesis using clause by (simp add: passes_def occ_def del: clause_true_Cons cong: imp_cong) fastforce
qed

section \<open>Shift variables\<close>

lemma shift_lits:
  assumes S: "shift_table s n lo hi" and "v < vertices s" "d < 5" "shift_found (SHIFT s v d) t"
  shows "lit_true I (- shift_var s v d t) \<longleftrightarrow> \<not> shifts s I v d t"
    and "lit_true I (shift_var s v d t) \<longleftrightarrow> shifts s I v d t"
proof -
  have "0 < shift_var s v d t" using shift_tableD(1) [OF S] shift_tableD(5) [OF S assms(2-4)] by simp
  then show "lit_true I (- shift_var s v d t) \<longleftrightarrow> \<not> shifts s I v d t"
    and "lit_true I (shift_var s v d t) \<longleftrightarrow> shifts s I v d t"
    using assms(4) by (simp_all add: shifts_def cnf_simps)
qed

text \<open>A loop over the indices of \<open>timestep\<close> is a loop over the timesteps.\<close>

lemma timestep_indices:
  assumes "distinct (timestep c)"
  shows "(\<forall>i < length (timestep c). Q (shift_var_at c i) (timestep c ! i)) \<longleftrightarrow>
    (\<forall>t. shift_found c t \<longrightarrow> Q (shift_var_at c (shift_index c t)) t)"
proof
  assume L: "\<forall>i < length (timestep c). Q (shift_var_at c i) (timestep c ! i)"
  show "\<forall>t. shift_found c t \<longrightarrow> Q (shift_var_at c (shift_index c t)) t"
    using L find_index_less find_index_nth unfolding shift_found_iff shift_index_def by metis
next
  assume R: "\<forall>t. shift_found c t \<longrightarrow> Q (shift_var_at c (shift_index c t)) t"
  show "\<forall>i < length (timestep c). Q (shift_var_at c i) (timestep c ! i)"
  proof (intro allI impI)
    fix i assume i: "i < length (timestep c)"
    then have "shift_found c (timestep c ! i)" "shift_index c (timestep c ! i) = i"
      using find_index_distinct [OF assms i] by (simp_all add: shift_found_iff shift_index_def)
    then show "Q (shift_var_at c i) (timestep c ! i)" using R by metis
  qed
qed

lemma conf_swapping_shift_sem [clause_sem]:
  assumes S: "shift_table s n lo hi" and nb: "nb_ok s"
  shows "cnf_true I (conf_swapping_shift_clauses s) \<longleftrightarrow>
    (\<forall>v < vertices s. \<forall>d \<in> {2, 3}. has_nb s v d \<longrightarrow>
       (\<forall>t. \<not> (shifts s I v d t \<and> shifts s I (nb s v d) (opp d) t)))"
proof -
  have clause: "clause_true I [- shift_var s v d t, - shift_var s (nb s v d) (opp d) t] \<longleftrightarrow>
      \<not> (shifts s I v d t \<and> shifts s I (nb s v d) (opp d) t)"
    if "v < vertices s" "d < 5" "has_nb s v d" "shift_found (SHIFT s v d) t" "shift_found (SHIFT s (nb s v d) (opp d)) t" for v d t
    using shift_lits(1) [OF S that(1,2,4)] shift_lits(1) [OF S nb_okD [OF nb that(1-3)] opp_less [OF that(2)] that(5)] by simp
  have "cnf_true I (conf_swapping_shift_clauses s) \<longleftrightarrow>
    (\<forall>v < vertices s. \<forall>d \<in> {2, 3}. has_nb s v d \<longrightarrow> (\<forall>i < length (timestep (SHIFT s v d)).
       shift_found (SHIFT s (nb s v d) (opp d)) (timestep (SHIFT s v d) ! i) \<longrightarrow>
       clause_true I [- shift_var_at (SHIFT s v d) i, - shift_var s (nb s v d) (opp d) (timestep (SHIFT s v d) ! i)]))"
    unfolding conf_swapping_shift_clauses_def cnf_simps
    by (auto simp del: clause_true_Cons)
  also have "\<dots> \<longleftrightarrow>
    (\<forall>v < vertices s. \<forall>d \<in> {2, 3}. has_nb s v d \<longrightarrow> (\<forall>t. shift_found (SHIFT s v d) t \<longrightarrow>
       shift_found (SHIFT s (nb s v d) (opp d)) t \<longrightarrow> clause_true I [- shift_var s v d t, - shift_var s (nb s v d) (opp d) t]))"
  proof -
    have "(\<forall>i < length (timestep (SHIFT s v d)).
         shift_found (SHIFT s (nb s v d) (opp d)) (timestep (SHIFT s v d) ! i) \<longrightarrow>
         clause_true I [- shift_var_at (SHIFT s v d) i, - shift_var s (nb s v d) (opp d) (timestep (SHIFT s v d) ! i)]) \<longleftrightarrow>
       (\<forall>t. shift_found (SHIFT s v d) t \<longrightarrow>
         shift_found (SHIFT s (nb s v d) (opp d)) t \<longrightarrow> clause_true I [- shift_var s v d t, - shift_var s (nb s v d) (opp d) t])"
      if "v < vertices s" "d < 5" for v d
      by (rule timestep_indices [OF shift_tableD(3) [OF S that], where Q = "\<lambda>x t.
          shift_found (SHIFT s (nb s v d) (opp d)) t \<longrightarrow> clause_true I [- x, - shift_var s (nb s v d) (opp d) t]"])
    then show ?thesis by (simp del: clause_true_Cons cong: imp_cong)
  qed
  also have "\<dots> \<longleftrightarrow> (\<forall>v < vertices s. \<forall>d \<in> {2, 3}. has_nb s v d \<longrightarrow>
       (\<forall>t. \<not> (shifts s I v d t \<and> shifts s I (nb s v d) (opp d) t)))"
    using clause by (simp add: shifts_def del: clause_true_Cons cong: imp_cong) fastforce
  finally show ?thesis .
qed

lemma conf_pebble_shift_sem [clause_sem]:
  assumes S: "shift_table s n lo hi" and nb: "nb_ok s"
  shows "cnf_true I (conf_pebble_shift_clauses s) \<longleftrightarrow>
    (\<forall>v < vertices s. \<forall>d < 5. has_nb s v d \<longrightarrow>
       (\<forall>e \<in> {1..<5}. \<forall>t. \<not> (shifts s I v d t \<and> shifts s I (nb s v d) e t)))"
proof -
  have clause: "clause_true I [- shift_var s v d t, - shift_var s (nb s v d) e t] \<longleftrightarrow>
      \<not> (shifts s I v d t \<and> shifts s I (nb s v d) e t)"
    if "v < vertices s" "d < 5" "has_nb s v d" "e < 5" "shift_found (SHIFT s v d) t" "shift_found (SHIFT s (nb s v d) e) t" for v d e t
    using shift_lits(1) [OF S that(1,2,5)] shift_lits(1) [OF S nb_okD [OF nb that(1-3)] that(4,6)] by simp
  have "cnf_true I (conf_pebble_shift_clauses s) \<longleftrightarrow>
    (\<forall>v < vertices s. \<forall>d < 5. has_nb s v d \<longrightarrow> (\<forall>i < length (timestep (SHIFT s v d)). \<forall>e \<in> {1..<5}.
       shift_found (SHIFT s (nb s v d) e) (timestep (SHIFT s v d) ! i) \<longrightarrow>
       clause_true I [- shift_var_at (SHIFT s v d) i, - shift_var s (nb s v d) e (timestep (SHIFT s v d) ! i)]))"
    unfolding conf_pebble_shift_clauses_def cnf_simps
    by (simp del: clause_true_Cons add: Ball_def)
  also have "\<dots> \<longleftrightarrow>
    (\<forall>v < vertices s. \<forall>d < 5. has_nb s v d \<longrightarrow> (\<forall>t. shift_found (SHIFT s v d) t \<longrightarrow> (\<forall>e \<in> {1..<5}.
       shift_found (SHIFT s (nb s v d) e) t \<longrightarrow> clause_true I [- shift_var s v d t, - shift_var s (nb s v d) e t])))"
  proof -
    have "(\<forall>i < length (timestep (SHIFT s v d)). \<forall>e \<in> {1..<5}.
         shift_found (SHIFT s (nb s v d) e) (timestep (SHIFT s v d) ! i) \<longrightarrow>
         clause_true I [- shift_var_at (SHIFT s v d) i, - shift_var s (nb s v d) e (timestep (SHIFT s v d) ! i)]) \<longleftrightarrow>
       (\<forall>t. shift_found (SHIFT s v d) t \<longrightarrow> (\<forall>e \<in> {1..<5}.
         shift_found (SHIFT s (nb s v d) e) t \<longrightarrow> clause_true I [- shift_var s v d t, - shift_var s (nb s v d) e t]))"
      if "v < vertices s" "d < 5" for v d
      by (rule timestep_indices [OF shift_tableD(3) [OF S that], where Q = "\<lambda>x t. \<forall>e \<in> {1..<5}.
          shift_found (SHIFT s (nb s v d) e) t \<longrightarrow> clause_true I [- x, - shift_var s (nb s v d) e t]"])
    then show ?thesis by (simp del: clause_true_Cons cong: imp_cong)
  qed
  also have "\<dots> \<longleftrightarrow> (\<forall>v < vertices s. \<forall>d < 5. has_nb s v d \<longrightarrow>
       (\<forall>e \<in> {1..<5}. \<forall>t. \<not> (shifts s I v d t \<and> shifts s I (nb s v d) e t)))"
    using clause by (simp add: shifts_def del: clause_true_Cons cong: imp_cong) fastforce
  finally show ?thesis .
qed

text \<open>Pairwise exclusion of the elements of a list.\<close>

lemma pair_clauses_sem:
  assumes "distinct ds" and lits: "\<And>d. d \<in> set ds \<Longrightarrow> lit_true I (- f d) \<longleftrightarrow> \<not> P d"
  shows "cnf_true I (pair_clauses (map f ds)) \<longleftrightarrow> (\<forall>d \<in> set ds. \<forall>e \<in> set ds. d \<noteq> e \<longrightarrow> \<not> (P d \<and> P e))"
proof -
  have "cnf_true I (pair_clauses (map f ds)) \<longleftrightarrow>
      (\<forall>i < length ds. \<forall>j \<in> {i + 1..<length ds}. \<not> (P (ds ! i) \<and> P (ds ! j)))"
    using lits by (auto simp: pair_clauses_def cnf_simps Ball_def)
  also have "\<dots> \<longleftrightarrow> (\<forall>i < length ds. \<forall>j < length ds. i \<noteq> j \<longrightarrow> \<not> (P (ds ! i) \<and> P (ds ! j)))"
  proof
    assume L: "\<forall>i < length ds. \<forall>j \<in> {i + 1..<length ds}. \<not> (P (ds ! i) \<and> P (ds ! j))"
    have "\<not> (P (ds ! i) \<and> P (ds ! j))" if "i < length ds" "j < length ds" "i < j" for i j
    proof -
      have "j \<in> {i + 1..<length ds}" using that by simp
      then show ?thesis using L that(1) by blast
    qed
    then show "\<forall>i < length ds. \<forall>j < length ds. i \<noteq> j \<longrightarrow> \<not> (P (ds ! i) \<and> P (ds ! j))"
      by (metis nat_neq_iff)
  qed auto
  also have "\<dots> \<longleftrightarrow> (\<forall>d \<in> set ds. \<forall>e \<in> set ds. d \<noteq> e \<longrightarrow> \<not> (P d \<and> P e))"
  proof -
    have "(\<forall>d \<in> set ds. Q d) \<longleftrightarrow> (\<forall>i < length ds. Q (ds ! i))" for Q
      by (rule all_set_conv_all_nth)
    then show ?thesis using nth_eq_iff_index_eq [OF assms(1)] by simp
  qed
  finally show ?thesis .
qed

lemma loop_all:
  "(\<forall>F \<in> set (concat (map (\<lambda>v. if c v then map (g v) (ts v) else []) vs)). P F) \<longleftrightarrow>
     (\<forall>v \<in> set vs. c v \<longrightarrow> (\<forall>t \<in> set (ts v). P (g v t)))"
  by (induction vs) auto

lemma exactly_one_shift_sem [clause_sem]:
  assumes S: "shift_table s n lo hi"
  shows "cnf_true I (exactly_one_shift_clauses s) \<longleftrightarrow>
    (\<forall>v < vertices s. \<forall>d < 5. \<forall>e < 5. d \<noteq> e \<longrightarrow> (\<forall>t. \<not> (shifts s I v d t \<and> shifts s I v e t)))"
proof -
  let ?ds = "\<lambda>v t. filter (\<lambda>d. has_nb s v d \<and> shift_found (SHIFT s v d) t) [0..<5]"
  let ?free = "\<lambda>v t. \<forall>d < 5. \<forall>e < 5. d \<noteq> e \<longrightarrow> \<not> (shifts s I v d t \<and> shifts s I v e t)"
  have list: "[shift_var s v d t. d \<leftarrow> [0..<5], has_nb s v d, shift_found (SHIFT s v d) t] =
      map (\<lambda>d. shift_var s v d t) (?ds v t)" for v t
  proof -
    have "[shift_var s v d t. d \<leftarrow> ds, has_nb s v d, shift_found (SHIFT s v d) t] =
        map (\<lambda>d. shift_var s v d t) (filter (\<lambda>d. has_nb s v d \<and> shift_found (SHIFT s v d) t) ds)" for ds
      by (induction ds) auto
    then show ?thesis .
  qed
  have one: "cnf_true I (pair_clauses (map (\<lambda>d. shift_var s v d t) (?ds v t))) \<longleftrightarrow> ?free v t"
    if v: "v < vertices s" for v t
  proof -
    have has: "has_nb s v d" if "d < 5" "shift_found (SHIFT s v d) t" for d
      using shift_tableD(4) [OF S v that(1)] that(2) by (simp add: may_shift_def)
    have "cnf_true I (pair_clauses (map (\<lambda>d. shift_var s v d t) (?ds v t))) \<longleftrightarrow>
        (\<forall>d \<in> set (?ds v t). \<forall>e \<in> set (?ds v t). d \<noteq> e \<longrightarrow> \<not> (shifts s I v d t \<and> shifts s I v e t))"
      using shift_lits(1) [OF S v] by (intro pair_clauses_sem) auto
    also have "\<dots> \<longleftrightarrow> ?free v t"
      using has by (auto simp: shifts_def)
    finally show ?thesis .
  qed
  have "cnf_true I (exactly_one_shift_clauses s) \<longleftrightarrow>
    (\<forall>v < vertices s. the (shift_times_start s) ! v \<noteq> -1 \<longrightarrow>
       (\<forall>t \<in> {the (shift_times_start s) ! v..the (shift_times_end s) ! v}. ?free v t))"
  proof -
    have "cnf_true I (exactly_one_shift_clauses s) \<longleftrightarrow>
      (\<forall>v < vertices s. the (shift_times_start s) ! v \<noteq> -1 \<longrightarrow>
         (\<forall>t \<in> {the (shift_times_start s) ! v..the (shift_times_end s) ! v}.
            cnf_true I (pair_clauses (map (\<lambda>d. shift_var s v d t) (?ds v t)))))"
      unfolding exactly_one_shift_clauses_def list cnf_true_concat loop_all by (simp add: Ball_def)
    then show ?thesis using one by simp
  qed
  also have "\<dots> \<longleftrightarrow> (\<forall>v < vertices s. \<forall>t. ?free v t)"
  proof -
    have "?free v t" if v: "v < vertices s" and r: "the (shift_times_start s) ! v \<noteq> -1 \<longrightarrow>
        (\<forall>t \<in> {the (shift_times_start s) ! v..the (shift_times_end s) ! v}. ?free v t)" for v t
    proof (intro allI impI notI)
      fix d e assume de: "d < 5" "e < 5" "d \<noteq> e" and sh: "shifts s I v d t \<and> shifts s I v e t"
      then have "the (shift_times_start s) ! v \<noteq> -1" "t \<in> {the (shift_times_start s) ! v..the (shift_times_end s) ! v}"
        using shift_tableD(6) [OF S v de(1), of t] by (auto simp: shifts_def)
      then show False using r de sh by blast
    qed
    then show ?thesis by blast
  qed
  finally show ?thesis by blast
qed

lemma next_vertex_shift_sem [clause_sem]:
  assumes T: "at_table s n lo hi" and S: "shift_table s n lo' hi'" and nb: "nb_ok s"
  shows "cnf_true I (next_vertex_shift_clauses s) \<longleftrightarrow>
    (\<forall>a < agents s. \<forall>v < vertices s. \<forall>t. \<forall>d < 5. has_nb s v d \<longrightarrow> at_window s a (nb s v d) (t + 1) \<longrightarrow>
       shift_found (SHIFT s v d) t \<longrightarrow> occ s I a v t \<longrightarrow> (shifts s I v d t \<longleftrightarrow> occ s I a (nb s v d) (t + 1)))"
proof -
  let ?cs = "\<lambda>a v t d. [[- at_var s a v t, - shift_var s v d t, at_var s a (nb s v d) (t + 1)],
             [- at_var s a v t, - at_var s a (nb s v d) (t + 1), shift_var s v d t]]"
  have clause: "cnf_true I (?cs a v t d) \<longleftrightarrow>
      (occ s I a v t \<longrightarrow> (shifts s I v d t \<longleftrightarrow> occ s I a (nb s v d) (t + 1)))"
    if "a < agents s" "v < vertices s" "d < 5" "has_nb s v d" "at_window s a v t" "at_window s a (nb s v d) (t + 1)"
      "shift_found (SHIFT s v d) t" for a v t d
  proof -
    note u = nb_okD [OF nb that(2-4)]
    show ?thesis
      using neg_occ [OF T that(1,2,5), of I] neg_occ [OF T that(1) u that(6), of I] pos_occ [OF T that(1) u that(6), of I]
        shift_lits [OF S that(2,3,7), of I] by auto
  qed
  have "cnf_true I (next_vertex_shift_clauses s) \<longleftrightarrow>
    (\<forall>a < agents s. \<forall>v < vertices s. \<forall>t. at_window s a v t \<longrightarrow> (\<forall>d < 5. has_nb s v d \<longrightarrow>
       at_window s a (nb s v d) (t + 1) \<longrightarrow> shift_found (SHIFT s v d) t \<longrightarrow> cnf_true I (?cs a v t d)))"
    unfolding next_vertex_shift_clauses_def cnf_simps in_window_def used_def cnf_true_Cons cnf_true_Nil
    by (simp del: clause_true_Cons add: Ball_def) (auto simp del: clause_true_Cons)
  then show ?thesis using clause by (auto simp: occ_def)
qed

end
