(* ===== verification/Encoding.thy ===== *)
theory Encoding
  imports Formula Edge_Semantics
begin

text \<open>
  The meaning of the formula of the SAT back end, for the three kinds of variables. An assignment is
  read through the predicates \<open>occ\<close>, \<open>passes\<close> and \<open>shifts\<close>; \<open>goes\<close> is the step the code follows when it
  reads a plan. The clauses split into those that make the agents walk and the conflict clauses, which
  the lazy mode adds later.
\<close>

section \<open>The setting\<close>

definition cfg_of :: "solver \<Rightarrow> window_cfg" where
  "cfg_of s = \<lparr>w_inst = inst s, w_agents = agents s, w_timesteps = max_timestep s, w_delta = delta s,
     w_cost = cost_function s\<rparr>"

abbreviation fin :: "solver \<Rightarrow> nat \<Rightarrow> int" where
  "fin s a \<equiv> cfg_fin (cfg_of s) a"

text \<open>
  A state whose variables have been created: the at variables first, then those of the edges. The
  windows are those of the current cost.
\<close>

definition enc_ready :: "solver \<Rightarrow> int \<Rightarrow> int \<Rightarrow> bool" where
  "enc_ready s lo hi \<longleftrightarrow>
     cfg_ok (cfg_of s) \<and> vertices s = number_of_vertices (inst s) \<and>
     0 \<le> delta s \<and> movement s \<in> {1, 2} \<and> duplicates s \<in> {1, 2} \<and> variables s \<in> {1, 2, 3} \<and>
     max_timestep s = GetMksLB (inst s) (agents s) + delta s \<and>
     (\<exists>mid \<le> hi. at_table s (max_timestep s) lo mid \<and>
        (variables s = 2 \<longrightarrow> pass_table s (max_timestep s) mid hi) \<and>
        (variables s = 3 \<longrightarrow> shift_table s (max_timestep s) mid hi))"

lemma at_table_grow: "at_table s n lo mid \<Longrightarrow> mid \<le> hi \<Longrightarrow> at_table s n lo hi"
  unfolding at_table_def by (elim conjE) (intro conjI; (assumption | fastforce))

lemma cfg_of_simps [simp]:
  "w_inst (cfg_of s) = inst s" "w_agents (cfg_of s) = agents s" "w_timesteps (cfg_of s) = max_timestep s"
  "w_delta (cfg_of s) = delta s" "w_cost (cfg_of s) = cost_function s"
  by (simp_all add: cfg_of_def)

lemma time_cfg: "first_time s = cfg_first (cfg_of s)" "last_time s (max_timestep s) = cfg_last (cfg_of s)"
  by (simp_all add: fun_eq_iff first_time_def last_time_def cfg_first_def cfg_last_def)

lemma enc_readyD:
  assumes "enc_ready s lo hi"
  shows "cfg_ok (cfg_of s)" "at_table s (max_timestep s) lo hi" "prepared (inst s) (agents s)"
    "wf_grid (inst s)" "vertices s = number_of_vertices (inst s)" "0 \<le> delta s" "nb_ok s"
    "cost_function s = 1 \<or> cost_function s = 2" "movement s = 1 \<or> movement s = 2"
    "duplicates s = 1 \<or> duplicates s = 2"
    "max_timestep s = GetMksLB (inst s) (agents s) + delta s"
    "variables s = 1 \<or> variables s = 2 \<or> variables s = 3"
proof -
  show p: "cfg_ok (cfg_of s)" "0 \<le> delta s"
    "cost_function s = 1 \<or> cost_function s = 2" "movement s = 1 \<or> movement s = 2"
    "duplicates s = 1 \<or> duplicates s = 2" "max_timestep s = GetMksLB (inst s) (agents s) + delta s"
    "variables s = 1 \<or> variables s = 2 \<or> variables s = 3"
    and v: "vertices s = number_of_vertices (inst s)"
    using assms by (auto simp: enc_ready_def cfg_ok_def)
  show "at_table s (max_timestep s) lo hi" using assms at_table_grow unfolding enc_ready_def by blast
  show "prepared (inst s) (agents s)" "wf_grid (inst s)" using p(1) by (auto simp: cfg_ok_def prepared_def)
  then show "nb_ok s"
    using grid.get_vertex [of "inst s"] v by (fastforce simp: nb_ok_def has_nb_def nb_def)
qed

lemma ready_pass:
  assumes "enc_ready s lo hi" "variables s = 2"
  shows "\<exists>mid. pass_table s (max_timestep s) mid hi \<and>
    (\<forall>a < agents s. \<forall>v < vertices s. \<forall>t. at_window s a v t \<longrightarrow> at_var s a v t < mid)"
proof -
  obtain mid where m: "at_table s (max_timestep s) lo mid" "pass_table s (max_timestep s) mid hi"
    using assms unfolding enc_ready_def by blast
  then show ?thesis using at_tableD(6) [OF m(1)] by blast
qed

lemma ready_shift:
  assumes "enc_ready s lo hi" "variables s = 3"
  shows "\<exists>mid. shift_table s (max_timestep s) mid hi \<and>
    (\<forall>a < agents s. \<forall>v < vertices s. \<forall>t. at_window s a v t \<longrightarrow> at_var s a v t < mid)"
proof -
  obtain mid where m: "at_table s (max_timestep s) lo mid" "shift_table s (max_timestep s) mid hi"
    using assms unfolding enc_ready_def by blast
  then show ?thesis using at_tableD(6) [OF m(1)] by blast
qed

text \<open>The laws of the windows, for the solver's variables.\<close>

lemma ready_window:
  assumes "enc_ready s lo hi" "a < agents s" "v < vertices s"
  shows "at_window s a v t \<longleftrightarrow> cfg_first (cfg_of s) a v \<le> t \<and> t \<le> cfg_last (cfg_of s) a v"
  using at_tableD(3) [OF enc_readyD(2) [OF assms(1)] assms(2,3)] by (simp add: time_cfg)

lemma ready_ends:
  assumes "enc_ready s lo hi" "a < agents s"
  shows "start_id (inst s) a < vertices s" "goal_id (inst s) a < vertices s"
    "cfg_first (cfg_of s) a (start_id (inst s) a) = 0"
    "cfg_last (cfg_of s) a (goal_id (inst s) a) = fin s a"
    "0 \<le> cfg_first (cfg_of s) a (goal_id (inst s) a)"
    "cfg_first (cfg_of s) a (goal_id (inst s) a) \<le> fin s a"
    "0 \<le> fin s a" "fin s a < max_timestep s"
    "cfg_first (cfg_of s) a (goal_id (inst s) a) = SP_lengths (inst s) ! a"
proof -
  note ok = enc_readyD(1) [OF assms(1)]
  have a: "a < w_agents (cfg_of s)" using assms(2) by simp
  show "start_id (inst s) a < vertices s" "goal_id (inst s) a < vertices s"
    "cfg_first (cfg_of s) a (start_id (inst s) a) = 0" "cfg_last (cfg_of s) a (goal_id (inst s) a) = fin s a"
    using win.src_vertex [OF ok a] win.dst_vertex [OF ok a] win.first_src [OF ok a] win.last_dst [OF ok a]
      enc_readyD(5) [OF assms(1)] by simp_all
  show 1: "0 \<le> cfg_first (cfg_of s) a (goal_id (inst s) a)" "cfg_first (cfg_of s) a (goal_id (inst s) a) \<le> fin s a"
    using win.first_dst [OF ok a] by simp_all
  then show "0 \<le> fin s a" by simp
  show sp: "cfg_first (cfg_of s) a (goal_id (inst s) a) = SP_lengths (inst s) ! a"
    using preparedD(5) [OF enc_readyD(3) [OF assms(1)] assms(2)]
    by (simp add: cfg_first_def FirstTimestep_def agent_prepared_def)
  show "fin s a < max_timestep s"
    using mks_LB_ge [OF enc_readyD(3) [OF assms(1)] assms(2)] enc_readyD(6,11) [OF assms(1)]
    by (simp add: cfg_fin_def)
qed

lemma ready_start_last:
  assumes "enc_ready s lo hi" "a < agents s"
  shows "0 \<le> cfg_last (cfg_of s) a (start_id (inst s) a)"
proof -
  let ?R = "moves (inst s)" and ?u = "start_id (inst s) a" and ?g = "goal_id (inst s) a"
  note ok = enc_readyD(1) [OF assms(1)]
  note sp = SP_length_dist [OF enc_readyD(3) [OF assms(1)] assms(2)]
  have le: "0 \<le> SP_lengths (inst s) ! a" "SP_lengths (inst s) ! a \<le> fin s a"
    using ready_ends(5,6,9) [OF assms] by simp_all
  have "(?g, ?u) \<in> ?R ^^ nat (SP_lengths (inst s) ! a)"
    using sym_relpow [OF moves_sym [OF enc_readyD(4) [OF assms(1)]] is_dist_walk [OF sp le(1)]] .
  moreover have "is_dist ?R ?g ?u (length_from_goal (inst s) ! a ! ?u)"
    using cfg_tables(2) [OF ok] assms ready_ends(1) [OF assms] enc_readyD(5) [OF assms(1)] by simp
  ultimately have "length_from_goal (inst s) ! a ! ?u \<le> SP_lengths (inst s) ! a"
    using is_dist_le le(1) by fastforce
  then show ?thesis using cfg_last_eq [OF ok] le(2) by simp
qed

lemma ready_goal_time:
  "enc_ready s lo hi \<Longrightarrow> a < agents s \<Longrightarrow> goal_id (inst s) a < vertices s \<and>
   first_time s a (goal_id (inst s) a) \<le> last_time s (max_timestep s) a (goal_id (inst s) a)"
  using ready_ends by (simp add: time_cfg)

lemma ready_start_time:
  "enc_ready s lo hi \<Longrightarrow> a < agents s \<Longrightarrow> start_id (inst s) a < vertices s \<and>
   first_time s a (start_id (inst s) a) = 0 \<and> at_window s a (start_id (inst s) a) 0"
  using ready_ends [of s lo hi a] ready_window [of s lo hi a] ready_start_last [of s lo hi a] by (simp add: time_cfg)

text \<open>Under the sum of costs the goal's window is as long as the allowed delay.\<close>

lemma ready_goal_delay:
  "enc_ready s lo hi \<Longrightarrow> cost_function s = 2 \<Longrightarrow> goal_delay s (max_timestep s)"
  using ready_ends by (simp add: goal_delay_def time_cfg cfg_fin_def)

lemma ready_nb:
  assumes "enc_ready s lo hi" "v < vertices s" "dir < 5" "has_nb s v dir"
  shows "nb s v dir < vertices s" "nb s v dir = v \<or> (v, nb s v dir) \<in> moves (inst s)"
proof -
  have wf: "wf_grid (inst s)" and v: "v < number_of_vertices (inst s)" and h: "HasNeighborID (inst s) v dir"
    using assms enc_readyD(4,5) [OF assms(1)] by (simp_all add: has_nb_def)
  from grid.get_vertex [OF wf v assms(3) h] obtain u where u: "u < number_of_vertices (inst s)"
    "GetNeighbor (inst s) v dir = int u" by blast
  show "nb s v dir < vertices s" using u enc_readyD(5) [OF assms(1)] by (simp add: nb_def)
  show "nb s v dir = v \<or> (v, nb s v dir) \<in> moves (inst s)"
    using moves_get_step [OF wf v assms(3) h u(2)] u(2) by (simp add: nb_def)
qed

lemma ready_dir:
  assumes "enc_ready s lo hi" "v < vertices s" "u = v \<or> (v, u) \<in> moves (inst s)"
  shows "\<exists>dir < 5. has_nb s v dir \<and> nb s v dir = u \<and> (u \<noteq> v \<longrightarrow> 1 \<le> dir)"
proof -
  obtain d where d: "d < 5" "HasNeighborID (inst s) v d" "GetNeighbor (inst s) v d = int u"
    using moves_step_get assms(2,3) enc_readyD(4,5) [OF assms(1)] by metis
  have "u = v" if "d = 0" using d(3) that by (simp add: GetNeighbor_def)
  then have "u \<noteq> v \<longrightarrow> 1 \<le> d" by (cases d) auto
  then show ?thesis using d by (intro exI [of _ d]) (simp add: has_nb_def nb_def)
qed

section \<open>Edges\<close>

text \<open>Between two cells there is one direction, and back the opposite one.\<close>

lemma shift_coord_inj:
  assumes "HasNeighbor i v d" "HasNeighbor i v e" "d < 5" "e < 5" "shift_coord v d = shift_coord v e"
  shows "d = e"
  using assms less_5_cases [of d] less_5_cases [of e]
  by (auto simp: HasNeighbor_def shift_coord_def split: if_splits) (cases v; auto)+

lemma ready_nb_coords:
  assumes R: "enc_ready s lo hi" and v: "v < vertices s" "d < 5" "has_nb s v d"
  shows "IDtoCoords (inst s) (nb s v d) = shift_coord (IDtoCoords (inst s) v) d"
    and "HasNeighbor (inst s) (IDtoCoords (inst s) v) d"
  using GetNeighbor_coords [of "inst s" v d] enc_readyD(4,5) [OF R] v HasNeighborID_free [of "inst s" v d]
  by (simp_all add: nb_def has_nb_def)

lemma nb_inj:
  assumes R: "enc_ready s lo hi" and v: "v < vertices s"
    and d: "d < 5" "has_nb s v d" and e: "e < 5" "has_nb s v e" and eq: "nb s v d = nb s v e"
  shows "d = e"
  using shift_coord_inj [OF ready_nb_coords(2) [OF R v d] ready_nb_coords(2) [OF R v e] d(1) e(1)]
    ready_nb_coords(1) [OF R v d] ready_nb_coords(1) [OF R v e] eq by simp

lemma nb_back:
  assumes R: "enc_ready s lo hi" and v: "v < vertices s" and d: "d < 5" "has_nb s v d"
  shows "opp d < 5" "has_nb s (nb s v d) (opp d)" "nb s (nb s v d) (opp d) = v" "opp (opp d) = d" "opp d = 0 \<longleftrightarrow> d = 0"
proof -
  show "opp d < 5" by (rule opp_less [OF d(1)])
  show "has_nb s (nb s v d) (opp d)" "nb s (nb s v d) (opp d) = v"
    using GetNeighbor_back [of "inst s" v d] enc_readyD(4,5) [OF R] v d by (simp_all add: has_nb_def nb_def opp_def)
  show "opp (opp d) = d" "opp d = 0 \<longleftrightarrow> d = 0"
    using less_5_cases [OF d(1)] by (auto simp: opp_def OppositeDir_def)
qed

lemma nb_opp:
  assumes R: "enc_ready s lo hi" and v: "v < vertices s" and d: "d < 5" "has_nb s v d"
    and e: "e < 5" "has_nb s (nb s v d) e" "nb s (nb s v d) e = v"
  shows "e = opp d"
  using nb_inj [OF R ready_nb(1) [OF R v d] e(1,2) nb_back(1,2) [OF R v d]] nb_back(3) [OF R v d] e(3) by simp

text \<open>A window of a pass variable joins two windows of at variables.\<close>

lemma ready_first_step:
  assumes R: "enc_ready s lo hi" and a: "a < agents s" and v: "v < vertices s" "0 \<le> cfg_first (cfg_of s) a v"
    and d: "d < 5" "has_nb s v d"
  shows "0 \<le> cfg_first (cfg_of s) a (nb s v d)" "cfg_first (cfg_of s) a (nb s v d) \<le> cfg_first (cfg_of s) a v + 1"
    "cfg_last (cfg_of s) a (nb s v d) \<le> cfg_last (cfg_of s) a v + 1"
proof -
  note ok = enc_readyD(1) [OF R]
  have aw: "a < w_agents (cfg_of s)" using a by simp
  have 1: "0 \<le> cfg_first (cfg_of s) a (nb s v d) \<and> cfg_first (cfg_of s) a (nb s v d) \<le> cfg_first (cfg_of s) a v + 1"
    using win.first_step [OF ok aw, of v "nb s v d"] ready_nb(2) [OF R v(1) d] v(2) by auto
  then show "0 \<le> cfg_first (cfg_of s) a (nb s v d)" "cfg_first (cfg_of s) a (nb s v d) \<le> cfg_first (cfg_of s) a v + 1"
    by simp_all
  show "cfg_last (cfg_of s) a (nb s v d) \<le> cfg_last (cfg_of s) a v + 1"
    using win.last_step [OF ok aw, of v "nb s v d"] ready_nb(2) [OF R v(1) d] 1 by auto
qed

text \<open>
  The step that is followed from a vertex: the next at variable, a pass variable, or a shift variable
  towards a vertex in the window of the agent.
\<close>

definition goes :: "solver \<Rightarrow> assignment \<Rightarrow> nat \<Rightarrow> nat \<Rightarrow> nat \<Rightarrow> int \<Rightarrow> bool" where
  "goes s I a v d t = by_kind s (occ s I a (nb s v d) (t + 1)) (passes s I a v d t)
     (at_window s a (nb s v d) (t + 1) \<and> shifts s I v d t)"

lemma by_kind_cases: "by_kind s x y z = w \<longleftrightarrow>
    (variables s = 1 \<longrightarrow> x = w) \<and> (variables s = 2 \<longrightarrow> y = w) \<and> (variables s \<noteq> 1 \<and> variables s \<noteq> 2 \<longrightarrow> z = w)"
  by (simp add: by_kind_def)

section \<open>The meaning of the formula\<close>

text \<open>The moves and the cost limit with their auxiliary variables.\<close>

definition single_everywhere :: "solver \<Rightarrow> assignment \<Rightarrow> bool" where
  "single_everywhere s I \<longleftrightarrow> (\<forall>a < agents s. \<forall>t \<in> {0..<max_timestep s}. single_at s a t I)"

definition dup_meaning :: "solver \<Rightarrow> assignment \<Rightarrow> bool" where
  "dup_meaning s I \<longleftrightarrow> (duplicates s = 1 \<longrightarrow> single_everywhere s I)"

definition cost_meaning :: "solver \<Rightarrow> assignment \<Rightarrow> bool" where
  "cost_meaning s I \<longleftrightarrow>
     (cost_function s = 2 \<and> delta s > 0 \<longrightarrow>
        within_delay s (if duplicates s = 1 then at_goal_by s else not_elsewhere_by s) I)"

definition dup_cnf :: "amk_encoder \<Rightarrow> int \<Rightarrow> solver \<Rightarrow> cnf \<times> int" where
  "dup_cnf enc lit s = (if duplicates s = 1 then no_duplicates enc lit s else ([], lit))"

lemma moves_cnf_eq: "moves_cnf enc lit s = (fst (dup_cnf enc lit s) @ steps_cnf s, snd (dup_cnf enc lit s))"
  by (simp add: moves_cnf_def dup_cnf_def case_prod_beta Let_def)

lemma dup_gadget:
  assumes R: "enc_ready s lo hi" and enc: "amk_ok enc"
  shows "gadget (fst (dup_cnf enc hi s)) hi (snd (dup_cnf enc hi s)) (dup_meaning s)"
proof (cases "duplicates s = 1")
  case True
  then have "dup_meaning s = (\<lambda>I. \<forall>a < agents s. \<forall>t \<in> {0..<max_timestep s}. single_at s a t I)"
    by (intro ext) (simp add: dup_meaning_def single_everywhere_def)
  then show ?thesis
    using no_duplicates_gadget [OF enc_readyD(2) [OF R] enc order_refl] True by (simp add: dup_cnf_def)
next
  case False
  then have "dup_meaning s = (\<lambda>I. True)" by (intro ext) (simp add: dup_meaning_def)
  then show ?thesis using False by (simp add: dup_cnf_def gadget_empty)
qed

lemma cost_gadget:
  assumes R: "enc_ready s lo hi" and enc: "amk_ok enc" and l: "hi \<le> l"
  shows "gadget (fst (cost_cnf enc l s)) l (snd (cost_cnf enc l s)) (cost_meaning s)"
proof (cases "cost_function s = 2 \<and> delta s > 0")
  case True
  note T = enc_readyD(2) [OF R] and g = ready_goal_delay [OF R]
  have hi: "1 \<le> hi" "0 \<le> delta s" using at_tableD(1,2) [OF T] enc_readyD(6) [OF R] by simp_all
  have one: "gadget (fst (limit_soc limit_soc_step enc l s)) l (snd (limit_soc limit_soc_step enc l s))
      (within_delay s (at_goal_by s))"
    using True g by (intro limit_soc_gadget [OF limit_soc_step_late [OF T] enc l hi]) simp
  have two: "gadget (fst (limit_soc limit_soc_all_at_step enc l s)) l (snd (limit_soc limit_soc_all_at_step enc l s))
      (within_delay s (not_elsewhere_by s))"
    using True g by (intro limit_soc_gadget [OF limit_soc_all_at_step_late [OF T _ hi(2)] enc l hi]) simp
  have "cost_meaning s = within_delay s (if duplicates s = 1 then at_goal_by s else not_elsewhere_by s)"
    using True by (intro ext) (simp add: cost_meaning_def)
  then show ?thesis using one two True enc_readyD(10) [OF R] by (auto simp: cost_cnf_def)
next
  case False
  then have "cost_meaning s = (\<lambda>I. True)" by (intro ext) (auto simp: cost_meaning_def)
  then show ?thesis using False by (auto simp: cost_cnf_def gadget_empty)
qed

text \<open>
  The part of the formula without auxiliary variables that makes the agents walk from start to goal,
  and the whole formula without the conflicts.
\<close>

definition walk_meaning :: "solver \<Rightarrow> assignment \<Rightarrow> bool" where
  "walk_meaning s I \<longleftrightarrow> cnf_true I (positions_cnf s) \<and> cnf_true I (steps_cnf s)"

definition base_true :: "amk_encoder \<Rightarrow> int \<Rightarrow> solver \<Rightarrow> assignment \<Rightarrow> bool" where
  "base_true enc lit s I \<longleftrightarrow>
     walk_meaning s I \<and> cnf_true I (fst (dup_cnf enc lit s)) \<and>
     cnf_true I (fst (cost_cnf enc (snd (dup_cnf enc lit s)) s))"

lemma sat_formula_true:
  "cnf_true I (fst (sat_formula enc lit s)) \<longleftrightarrow> cnf_true I (conflicts_cnf s) \<and> base_true enc lit s I"
  by (auto simp: sat_formula_def walk_meaning_def base_true_def moves_cnf_eq case_prod_beta Let_def)

lemma base_sound:
  assumes R: "enc_ready s lo hi" and enc: "amk_ok enc" and I: "base_true enc hi s I"
  shows "walk_meaning s I" "dup_meaning s I" "cost_meaning s I"
proof -
  have "hi \<le> snd (dup_cnf enc hi s)" using gadgetD(1) [OF dup_gadget [OF R enc]] .
  then show "walk_meaning s I" "dup_meaning s I" "cost_meaning s I"
    using I gadgetD(3) [OF dup_gadget [OF R enc]] gadgetD(3) [OF cost_gadget [OF R enc]]
    unfolding base_true_def by blast+
qed

text \<open>An assignment that meets the conditions extends to a model that reads the same.\<close>

lemma same_occ:
  assumes R: "enc_ready s lo hi" and eq: "\<forall>x < hi. I x = J x" and av: "a < agents s" "v < vertices s"
  shows "occ s I a v t = occ s J a v t"
  by (rule occ_depends [OF enc_readyD(2) [OF R] av eq])

lemma cost_meaning_cong:
  assumes R: "enc_ready s lo hi" and eq: "\<And>a v t. a < agents s \<Longrightarrow> v < vertices s \<Longrightarrow> occ s I a v t = occ s J a v t"
  shows "cost_meaning s I = cost_meaning s J"
proof -
  have "(if duplicates s = 1 then at_goal_by s else not_elsewhere_by s) a d I =
      (if duplicates s = 1 then at_goal_by s else not_elsewhere_by s) a d J" if a: "a < agents s" for a d
    using eq [OF a] ready_ends(2) [OF R a] by (auto simp: at_goal_by_def not_elsewhere_by_def)
  then show ?thesis unfolding cost_meaning_def within_delay_def by metis
qed

lemma same_passes:
  assumes R: "enc_ready s lo hi" and v2: "variables s = 2" and eq: "\<forall>x < hi. I x = J x"
    and av: "a < agents s" "v < vertices s" "d < 5"
  shows "passes s I a v d t = passes s J a v d t"
proof -
  obtain mid where P: "pass_table s (max_timestep s) mid hi" using ready_pass [OF R v2] by blast
  show ?thesis using pass_tableD(4) [OF P av] eq by (auto simp: passes_def)
qed

lemma same_shifts:
  assumes R: "enc_ready s lo hi" and v3: "variables s = 3" and eq: "\<forall>x < hi. I x = J x"
    and av: "v < vertices s" "d < 5"
  shows "shifts s I v d t = shifts s J v d t"
proof -
  obtain mid where S: "shift_table s (max_timestep s) mid hi" using ready_shift [OF R v3] by blast
  show ?thesis using shift_tableD(5) [OF S av] eq by (auto simp: shifts_def)
qed

lemma base_complete:
  assumes R: "enc_ready s lo hi" and enc: "amk_ok enc"
    and dup: "dup_meaning s I" and cost: "cost_meaning s I"
    and walk: "\<And>J. \<forall>x < hi. J x = I x \<Longrightarrow> walk_meaning s J \<and> Q J"
  shows "\<exists>J. base_true enc hi s J \<and> Q J"
proof -
  have le: "hi \<le> snd (dup_cnf enc hi s)" using gadgetD(1) [OF dup_gadget [OF R enc]] .
  have "depends_below hi (dup_meaning s)" "depends_below hi (cost_meaning s)"
  proof -
    have "dup_meaning s I = dup_meaning s J \<and> cost_meaning s I = cost_meaning s J"
      if eq: "\<forall>x < hi. I x = J x" for I J :: assignment
    proof
      note o = same_occ [OF R eq]
      have "single_at s a t I = single_at s a t J" if "a < agents s" for a t
        using o [OF that] by (simp add: single_at_def)
      then show "dup_meaning s I = dup_meaning s J" by (simp add: dup_meaning_def single_everywhere_def)
      show "cost_meaning s I = cost_meaning s J" using o by (rule cost_meaning_cong [OF R])
    qed
    then show "depends_below hi (dup_meaning s)" "depends_below hi (cost_meaning s)"
      unfolding depends_below_def by (metis (no_types))+
  qed
  then have G: "gadget (fst (dup_cnf enc hi s) @ fst (cost_cnf enc (snd (dup_cnf enc hi s)) s)) hi
      (snd (cost_cnf enc (snd (dup_cnf enc hi s)) s)) (\<lambda>I. dup_meaning s I \<and> cost_meaning s I)"
    by (intro gadget_append [OF dup_gadget [OF R enc] cost_gadget [OF R enc le]]) auto
  obtain J where J: "\<forall>x < hi. J x = I x"
    "cnf_true J (fst (dup_cnf enc hi s) @ fst (cost_cnf enc (snd (dup_cnf enc hi s)) s))"
    using gadgetD(4) [OF G, of I] dup cost by blast
  then show ?thesis using walk [OF J(1)] by (intro exI [of _ J]) (simp add: base_true_def)
qed

end
