(* ===== verification/Soundness.thy ===== *)
theory Soundness
  imports Encoding Plans
begin

text \<open>
  Soundness of the encodings: the trajectories decoded from a model of the formula, by following true
  variables from the start as \<open>GetNextVertex\<close> does, walk on the map to the goals within the cost of the
  formula. With the conflict clauses of the eager mode they do not collide.
\<close>

section \<open>Decoding\<close>

fun decode :: "solver \<Rightarrow> assignment \<Rightarrow> nat \<Rightarrow> nat \<Rightarrow> nat" where
  "decode s I a 0 = start_id (inst s) a"
| "decode s I a (Suc t) =
     (let u = first_neighbor s (decode s I a t) (\<lambda>dir. goes s I a (decode s I a t) dir (int t)) in
      if u = -1 then goal_id (inst s) a else nat u)"

lemma first_neighbor_found:
  assumes "dir < 5" "has_nb s v dir" "Q dir"
  shows "\<exists>d < 5. has_nb s v d \<and> Q d \<and> first_neighbor s v Q = int (nb s v d)"
proof -
  have "List.find (\<lambda>dir. has_nb s v dir \<and> Q dir) [0..<5] \<noteq> None"
    using assms by (auto simp: find_None_iff)
  then obtain d where d: "List.find (\<lambda>dir. has_nb s v dir \<and> Q dir) [0..<5] = Some d" by blast
  then have "d < 5 \<and> has_nb s v d \<and> Q d" by (auto simp: find_Some_iff in_set_conv_nth)
  then show ?thesis using d by (auto simp: first_neighbor_def)
qed

lemma first_neighbor_none:
  "(\<And>d. d < 5 \<Longrightarrow> has_nb s v d \<Longrightarrow> \<not> Q d) \<Longrightarrow> first_neighbor s v Q = -1"
proof -
  assume none: "\<And>d. d < 5 \<Longrightarrow> has_nb s v d \<Longrightarrow> \<not> Q d"
  then have "List.find (\<lambda>dir. has_nb s v dir \<and> Q dir) [0..<5] = None"
    by (auto simp: find_None_iff)
  then show ?thesis by (simp add: first_neighbor_def)
qed

section \<open>The decoded trajectories follow the windows\<close>

lemma walk_sems:
  assumes "walk_meaning s I"
  shows "cnf_true I (start_clauses s)" "cnf_true I (goal_clauses s)"
    "cost_function s = 2 \<Longrightarrow> cnf_true I (none_at_goal_clauses s)"
    "variables s = 1 \<Longrightarrow> cnf_true I (next_vertex_at_clauses s)"
    "variables s = 2 \<Longrightarrow> cnf_true I (enter_vertex_pass_clauses s)"
    "variables s = 2 \<Longrightarrow> cnf_true I (next_edge_pass_clauses s)"
    "variables s = 3 \<Longrightarrow> cnf_true I (next_vertex_at_clauses s)"
    "variables s = 3 \<Longrightarrow> cnf_true I (exactly_one_shift_clauses s)"
    "variables s = 3 \<Longrightarrow> cnf_true I (next_vertex_shift_clauses s)"
  using assms by (auto simp: walk_meaning_def positions_cnf_def steps_cnf_def by_kind_def)

text \<open>The windows of the pass variables join those of the at variables, for unreachable vertices too.\<close>

lemma pass_window_next:
  assumes R: "enc_ready s lo hi" and P: "pass_table s (max_timestep s) mid hi" and a: "a < agents s"
    and v: "v < vertices s" "d < 5" and w: "pass_window s a v d t"
  shows "at_window s a (nb s v d) (t + 1)"
proof -
  have W: "has_nb s v d" "cfg_first (cfg_of s) a v \<le> t" "t < cfg_last (cfg_of s) a (nb s v d)"
    using pass_tableD(3) [OF P a v] w by (simp_all add: time_cfg)
  note u = ready_nb(1) [OF R v W(1)] and bk = nb_back(1-3) [OF R v W(1)]
  have "cfg_first (cfg_of s) a (nb s v d) \<le> t + 1"
  proof (cases "0 \<le> cfg_first (cfg_of s) a (nb s v d)")
    case True
    then have "0 \<le> cfg_first (cfg_of s) a v"
      using ready_first_step(1) [OF R a u True bk(1,2)] bk(3) by simp
    then show ?thesis using ready_first_step(2) [OF R a v(1) _ v(2) W(1)] W(2) by simp
  next
    case False
    moreover have "-1 \<le> cfg_first (cfg_of s) a v"
      using is_dist_ge [OF cfg_tables(1) [OF enc_readyD(1) [OF R]]] a v(1) enc_readyD(5) [OF R] by simp
    ultimately show ?thesis using W(2) by simp
  qed
  then show ?thesis using ready_window [OF R a u] W(3) by simp
qed

lemma pass_sems:
  assumes R: "enc_ready s lo hi" and v2: "variables s = 2" and walk: "walk_meaning s I" and a: "a < agents s" and v: "v < vertices s"
  shows "d < 5 \<Longrightarrow> passes s I a v d t \<Longrightarrow> occ s I a (nb s v d) (t + 1)"
    and "occ s I a v t \<Longrightarrow> \<exists>d < 5. pass_window s a v d t \<Longrightarrow> \<exists>d < 5. passes s I a v d t"
proof -
  obtain mid where P: "pass_table s (max_timestep s) mid hi" using ready_pass [OF R v2] by blast
  note T = enc_readyD(2) [OF R] and nb = enc_readyD(7) [OF R]
  show "d < 5 \<Longrightarrow> passes s I a v d t \<Longrightarrow> occ s I a (nb s v d) (t + 1)"
    using walk_sems(5) [OF walk v2] a v enter_vertex_pass_sem [OF T P nb pass_window_next [OF R P]] by blast
  show "occ s I a v t \<Longrightarrow> \<exists>d < 5. pass_window s a v d t \<Longrightarrow> \<exists>d < 5. passes s I a v d t"
    using walk_sems(6) [OF walk v2] a v next_edge_pass_sem [OF T P] by blast
qed

lemma shift_sems:
  assumes R: "enc_ready s lo hi" and v3: "variables s = 3" and walk: "walk_meaning s I" and v: "v < vertices s"
  shows "d < 5 \<Longrightarrow> e < 5 \<Longrightarrow> shifts s I v d t \<Longrightarrow> shifts s I v e t \<Longrightarrow> d = e"
    and "a < agents s \<Longrightarrow> d < 5 \<Longrightarrow> has_nb s v d \<Longrightarrow> at_window s a (nb s v d) (t + 1) \<Longrightarrow>
      shift_found (SHIFT s v d) t \<Longrightarrow> occ s I a v t \<Longrightarrow> shifts s I v d t \<longleftrightarrow> occ s I a (nb s v d) (t + 1)"
proof -
  obtain mid where S: "shift_table s (max_timestep s) mid hi" using ready_shift [OF R v3] by blast
  note T = enc_readyD(2) [OF R] and nb = enc_readyD(7) [OF R]
  show "d < 5 \<Longrightarrow> e < 5 \<Longrightarrow> shifts s I v d t \<Longrightarrow> shifts s I v e t \<Longrightarrow> d = e"
    using walk_sems(8) [OF walk v3] v exactly_one_shift_sem [OF S] by blast
  show "a < agents s \<Longrightarrow> d < 5 \<Longrightarrow> has_nb s v d \<Longrightarrow> at_window s a (nb s v d) (t + 1) \<Longrightarrow>
      shift_found (SHIFT s v d) t \<Longrightarrow> occ s I a v t \<Longrightarrow> shifts s I v d t \<longleftrightarrow> occ s I a (nb s v d) (t + 1)"
    using walk_sems(9) [OF walk v3] v next_vertex_shift_sem [OF T S nb] by blast
qed

text \<open>A vertex of the window with a neighbour in the window has a shift variable.\<close>

lemma shift_exists:
  assumes R: "enc_ready s lo hi" and v3: "variables s = 3" and a: "a < agents s" and v: "v < vertices s" "0 \<le> cfg_first (cfg_of s) a v"
    and d: "d < 5" "has_nb s v d" and w: "at_window s a v t" "at_window s a (nb s v d) (t + 1)" and t: "t < fin s a"
  shows "shift_found (SHIFT s v d) t"
proof -
  obtain mid where S: "shift_table s (max_timestep s) mid hi" using ready_shift [OF R v3] by blast
  have "cfg_first (cfg_of s) a v \<le> t" "t < cfg_last (cfg_of s) a (nb s v d)"
    using w ready_window [OF R a v(1)] ready_window [OF R a ready_nb(1) [OF R v(1) d]] by simp_all
  then show ?thesis
    using shift_tableD(4) [OF S v(1) d(1)] a v(2) d(2) t ready_ends(8) [OF R a]
    unfolding may_shift_def time_cfg by fastforce
qed

text \<open>Following the step leads to a vertex where the agent is, and there is always a step before the end.\<close>

lemma goes_window:
  assumes R: "enc_ready s lo hi" and a: "a < agents s" and v: "v < vertices s"
    and d: "d < 5" "has_nb s v d" and g: "goes s I a v d t"
  shows "at_window s a (nb s v d) (t + 1)"
proof -
  consider "variables s = 1" | "variables s = 2" | "variables s = 3" using enc_readyD(12) [OF R] by blast
  then show ?thesis
  proof cases
    case 2
    obtain mid where P: "pass_table s (max_timestep s) mid hi" using ready_pass [OF R 2] by blast
    show ?thesis using pass_window_next [OF R P a v d(1)] g 2 by (simp add: goes_def by_kind_def passes_def)
  qed (use g in \<open>simp_all add: goes_def by_kind_def occ_def\<close>)
qed

lemma goes_occ:
  assumes R: "enc_ready s lo hi" and P: "walk_meaning s I" and a: "a < agents s" and v: "v < vertices s"
    and d: "d < 5" "has_nb s v d" and o: "occ s I a v t" and g: "goes s I a v d t"
  shows "occ s I a (nb s v d) (t + 1)"
proof -
  consider "variables s = 1" | "variables s = 2" | "variables s = 3" using enc_readyD(12) [OF R] by blast
  then show ?thesis
  proof cases
    case 2
    then show ?thesis using pass_sems(1) [OF R 2 P a v d(1)] g by (simp add: goes_def by_kind_def)
  next
    case 3
    then have "at_window s a (nb s v d) (t + 1)" "shifts s I v d t" using g by (simp_all add: goes_def by_kind_def)
    then show ?thesis using shift_sems(2) [OF R 3 P v a d, of t] o by (simp add: shifts_def)
  qed (use g in \<open>simp_all add: goes_def by_kind_def\<close>)
qed

lemma decode_step:
  assumes R: "enc_ready s lo hi" and P: "walk_meaning s I" and a: "a < agents s"
    and v: "v < vertices s" "0 \<le> cfg_first (cfg_of s) a v" and o: "occ s I a v t" and t: "t < fin s a"
  shows "\<exists>d < 5. has_nb s v d \<and> goes s I a v d t"
proof -
  have w: "cfg_first (cfg_of s) a v \<le> t" "t \<le> cfg_last (cfg_of s) a v"
    using ready_window [OF R a v(1)] o by (auto simp: occ_def)
  obtain u where u: "u = v \<or> (v, u) \<in> moves (inst s)" "cfg_first (cfg_of s) a u \<le> t + 1" "t + 1 \<le> cfg_last (cfg_of s) a u"
    using win.progress [OF enc_readyD(1) [OF R], of a v t] a v w t enc_readyD(5) [OF R] by auto
  obtain d where d: "d < 5" "has_nb s v d" "nb s v d = u" using ready_dir [OF R v(1) u(1)] by blast
  have wu: "at_window s a (nb s v d) (t + 1)"
    using ready_window [OF R a] ready_nb(1) [OF R v(1) d(1,2)] u d(3) by simp
  have next_at: "\<exists>d < 5. has_nb s v d \<and> occ s I a (nb s v d) (t + 1)" if "cnf_true I (next_vertex_at_clauses s)"
    using that a v(1) o d wu unfolding next_vertex_at_sem [OF enc_readyD(2,7) [OF R]] by blast
  consider "variables s = 1" | "variables s = 2" | "variables s = 3" using enc_readyD(12) [OF R] by blast
  then show ?thesis
  proof cases
    case 1
    then show ?thesis using next_at [OF walk_sems(4) [OF P 1]] by (simp add: goes_def by_kind_def)
  next
    case 2
    obtain mid where T: "pass_table s (max_timestep s) mid hi" using ready_pass [OF R 2] by blast
    have "pass_window s a v d t"
      using pass_tableD(3) [OF T a v(1) d(1)] w(1) u(3) d(2,3) by (simp add: time_cfg)
    then obtain e where e: "e < 5" "passes s I a v e t" using pass_sems(2) [OF R 2 P a v(1) o] d(1) by blast
    then have "has_nb s v e" using pass_tableD(3) [OF T a v(1) e(1), of t] by (simp add: passes_def)
    then show ?thesis using e 2 by (intro exI [of _ e]) (simp add: goes_def by_kind_def)
  next
    case 3
    obtain e where e: "e < 5" "has_nb s v e" "occ s I a (nb s v e) (t + 1)"
      using next_at [OF walk_sems(7) [OF P 3]] by blast
    then have we: "at_window s a (nb s v e) (t + 1)" by (simp add: occ_def)
    have "shift_found (SHIFT s v e) t"
      using shift_exists [OF R 3 a v e(1,2) _ we t] o by (simp add: occ_def)
    then have "shifts s I v e t" using shift_sems(2) [OF R 3 P v(1) a e(1,2) we _ o] e(3) by blast
    then show ?thesis using e we 3 by (intro exI [of _ e]) (simp add: goes_def by_kind_def)
  qed
qed

lemma decode_next:
  assumes R: "enc_ready s lo hi" and P: "walk_meaning s I" and a: "a < agents s"
    and v: "decode s I a t < vertices s" "0 \<le> cfg_first (cfg_of s) a (decode s I a t)"
    and o: "occ s I a (decode s I a t) (int t)" and t: "int t < fin s a"
  shows "\<exists>d < 5. has_nb s (decode s I a t) d \<and> goes s I a (decode s I a t) d (int t) \<and>
    decode s I a (Suc t) = nb s (decode s I a t) d"
proof -
  obtain d' where "d' < 5" "has_nb s (decode s I a t) d'" "goes s I a (decode s I a t) d' (int t)"
    using decode_step [OF R P a v o t] by blast
  from first_neighbor_found [where Q = "\<lambda>dir. goes s I a (decode s I a t) dir (int t)", OF this]
  show ?thesis by (auto simp: Let_def)
qed

lemma decode_occ:
  assumes R: "enc_ready s lo hi" and P: "walk_meaning s I" and a: "a < agents s"
  shows "int t \<le> fin s a \<Longrightarrow> decode s I a t < vertices s \<and> 0 \<le> cfg_first (cfg_of s) a (decode s I a t) \<and>
    occ s I a (decode s I a t) (int t)"
proof (induction t)
  case 0
  have "occ s I a (start_id (inst s) a) 0"
    using walk_sems(1) [OF P] a start_sem [OF enc_readyD(2) [OF R] ready_start_time [OF R]] by blast
  then show ?case using ready_ends [OF R a] by simp
next
  case (Suc t)
  let ?v = "decode s I a t"
  have IH: "?v < vertices s" "0 \<le> cfg_first (cfg_of s) a ?v" "occ s I a ?v (int t)" using Suc by auto
  obtain d where d: "d < 5" "has_nb s ?v d" "goes s I a ?v d (int t)" "decode s I a (Suc t) = nb s ?v d"
    using decode_next [OF R P a IH] Suc.prems by auto
  show ?case
    using d(4) ready_first_step(1) [OF R a IH(1,2) d(1,2)] ready_nb(1) [OF R IH(1) d(1,2)]
      goes_occ [OF R P a IH(1) d(1,2) IH(3) d(3)] by (simp add: add.commute)
qed

lemma no_window_after:
  assumes R: "enc_ready s lo hi" and a: "a < agents s"
    and v: "v < vertices s" "0 \<le> cfg_first (cfg_of s) a v" and t: "fin s a < t"
  shows "\<not> at_window s a v t"
  using win.last_fin [OF enc_readyD(1) [OF R], of a v] ready_window [OF R a v(1)] a v t enc_readyD(5) [OF R] by auto

lemma no_step_after:
  assumes R: "enc_ready s lo hi" and a: "a < agents s" and v: "v < vertices s" "0 \<le> cfg_first (cfg_of s) a v"
    and d: "d < 5" "has_nb s v d" and t: "fin s a \<le> t"
  shows "\<not> goes s I a v d t"
  using goes_window [OF R a v(1) d] t
    no_window_after [OF R a ready_nb(1) [OF R v(1) d] ready_first_step(1) [OF R a v d], of "t + 1"] by auto

lemma decode_goal:
  assumes R: "enc_ready s lo hi" and P: "walk_meaning s I" and a: "a < agents s"
  shows "fin s a \<le> int t \<Longrightarrow> decode s I a t = goal_id (inst s) a"
proof (induction t)
  case 0
  then have "fin s a = 0" using ready_ends(7) [OF R a] by simp
  then have "0 \<le> cfg_last (cfg_of s) a (decode s I a 0)"
    using decode_occ [OF R P a, of 0] ready_window [OF R a] by (auto simp: occ_def)
  then show ?case
    using win.arrived [OF enc_readyD(1) [OF R], of a "decode s I a 0"] decode_occ [OF R P a, of 0] \<open>fin s a = 0\<close>
      a enc_readyD(5) [OF R] by simp
next
  case (Suc t)
  show ?case
  proof (cases "fin s a = int (Suc t)")
    case True
    note o = decode_occ [OF R P a, of "Suc t"]
    then have "fin s a \<le> cfg_last (cfg_of s) a (decode s I a (Suc t))"
      using True ready_window [OF R a] by (auto simp: occ_def simp del: decode.simps)
    then show ?thesis
      using win.arrived [OF enc_readyD(1) [OF R], of a "decode s I a (Suc t)"] o True a enc_readyD(5) [OF R]
      by (simp del: decode.simps)
  next
    case False
    then have g: "decode s I a t = goal_id (inst s) a" using Suc by simp
    have "\<not> goes s I a (goal_id (inst s) a) d (int t)"
      if d: "d < 5" "has_nb s (goal_id (inst s) a) d" for d
      using no_step_after [OF R a ready_ends(2,5) [OF R a] d, of "int t"] False Suc.prems by simp
    from first_neighbor_none [where Q = "\<lambda>d. goes s I a (goal_id (inst s) a) d (int t)", OF this]
    show ?thesis using g by simp
  qed
qed

lemma decode_on_map:
  assumes R: "enc_ready s lo hi" and P: "walk_meaning s I"
  shows "on_map (inst s) (agents s) (decode s I)"
  unfolding on_map_def
proof (intro allI impI conjI)
  fix a t assume a: "a < agents s"
  show "decode s I a 0 = start_id (inst s) a" by simp
  show "decode s I a (Suc t) = decode s I a t \<or> (decode s I a t, decode s I a (Suc t)) \<in> moves (inst s)"
  proof (cases "int t < fin s a")
    case True
    let ?v = "decode s I a t"
    note o = decode_occ [OF R P a, of t]
    obtain d where d: "d < 5" "has_nb s ?v d" "decode s I a (Suc t) = nb s ?v d"
      using decode_next [OF R P a] o True by auto
    then show ?thesis using ready_nb(2) [OF R _ d(1,2)] o True by (simp del: decode.simps)
  next
    case False
    then show ?thesis using decode_goal [OF R P a, of t] decode_goal [OF R P a, of "Suc t"] by (simp del: decode.simps)
  qed
qed

section \<open>No collisions\<close>

declare decode.simps(2) [simp del]

text \<open>The collisions the conflict clauses exclude, over the step that is followed.\<close>

lemma eager_vertex:
  assumes R: "enc_ready s lo hi" and C: "cnf_true I (eager_cnf s)" and ab: "a < agents s" "b < agents s" "a \<noteq> b"
    and v: "v < vertices s"
  shows "\<not> (occ s I a v t \<and> occ s I b v t)"
proof -
  have no: "\<not> (occ s I a v t \<and> occ s I b v t)" if "a < b" "b < agents s" for a b
  proof -
    have "a < agents s" "b \<in> {a + 1..<agents s}" using that by auto
    moreover have "cnf_true I (conf_vertex_clauses s)" using C by (simp add: eager_cnf_def)
    ultimately show ?thesis using v unfolding conf_vertex_sem [OF enc_readyD(2) [OF R]] by blast
  qed
  show ?thesis using no [of a b] no [of b a] ab by (metis nat_neq_iff)
qed

lemma eager_swap:
  assumes R: "enc_ready s lo hi" and P: "walk_meaning s I" and C: "cnf_true I (eager_cnf s)" and mv: "movement s = 1"
    and ab: "a < agents s" "b < agents s" "a < b" and v: "v < vertices s" and d: "d < 5" "has_nb s v d" "nb s v d \<noteq> v"
    and a: "occ s I a v t" "goes s I a v d t" and b: "occ s I b (nb s v d) t" "goes s I b (nb s v d) (opp d) t"
  shows False
proof -
  have d1: "d \<in> {1..<5}" using d by (cases "d = 0") (auto simp: nb_def GetNeighbor_def)
  have b': "b \<in> {a + 1..<agents s}" using ab by auto
  note nb = enc_readyD(7) [OF R]
  consider "variables s = 1" | "variables s = 2" | "variables s = 3" using enc_readyD(12) [OF R] by blast
  then show False
  proof cases
    case 1
    then have "cnf_true I (conf_swapping_at_clauses s)" using C mv by (simp add: eager_cnf_def by_kind_def)
    moreover have "occ s I a (nb s v d) (t + 1)" "occ s I b v (t + 1)"
      using a(2) b(2) 1 nb_back(3) [OF R v d(1,2)] by (simp_all add: goes_def by_kind_def)
    ultimately show False
      using ab(1) b' v d1 d(2) a(1) b(1) unfolding conf_swapping_at_sem [OF enc_readyD(2,7) [OF R]] by blast
  next
    case 2
    obtain mid where T: "pass_table s (max_timestep s) mid hi" using ready_pass [OF R 2] by blast
    have "cnf_true I (conf_swapping_pass_clauses s)" using C mv 2 by (simp add: eager_cnf_def by_kind_def)
    moreover have "passes s I a v d t" "passes s I b (nb s v d) (opp d) t"
      using a(2) b(2) 2 by (simp_all add: goes_def by_kind_def)
    ultimately show False using ab(1) b' v d1 d(2) unfolding conf_swapping_pass_sem [OF T nb] by blast
  next
    case 3
    obtain mid where T: "shift_table s (max_timestep s) mid hi" using ready_shift [OF R 3] by blast
    have "cnf_true I (conf_swapping_shift_clauses s)" using C mv 3 by (simp add: eager_cnf_def by_kind_def)
    then have no: "\<not> (shifts s I v d t \<and> shifts s I (nb s v d) (opp d) t)"
      if "v < vertices s" "d \<in> {2, 3}" "has_nb s v d" for v d
      using that unfolding conf_swapping_shift_sem [OF T nb] by blast
    have sh: "shifts s I v d t" "shifts s I (nb s v d) (opp d) t"
      using a(2) b(2) 3 by (simp_all add: goes_def by_kind_def)
    note bk = nb_back [OF R v d(1,2)]
    consider "d \<in> {2, 3}" | "opp d \<in> {2, 3}" using d1 by (auto simp: opp_def OppositeDir_def dest!: less_5_cases)
    then show False
    proof cases
      case 1
      then show False using no [OF v _ d(2)] sh by blast
    next
      case 2
      then show False using no [OF ready_nb(1) [OF R v d(1,2)] 2 bk(2)] sh bk(3,4) by simp
    qed
  qed
qed

lemma eager_follow:
  assumes R: "enc_ready s lo hi" and P: "walk_meaning s I" and C: "cnf_true I (eager_cnf s)" and mv: "movement s = 2"
    and ab: "a < agents s" "b < agents s" "a \<noteq> b" and v: "v < vertices s" and d: "d < 5" "has_nb s v d"
    and a: "occ s I a v t" "goes s I a v d t" and b: "occ s I b (nb s v d) t"
    and e: "e < 5" "has_nb s (nb s v d) e" "goes s I b (nb s v d) e t"
  shows False
proof (cases "d = 0 \<or> e = 0")
  case True
  note u = ready_nb(1) [OF R v d]
  have eq: "nb s v 0 = v" for v by (simp add: nb_def GetNeighbor_def)
  have "\<not> (occ s I a (nb s v d) (t + 1) \<and> occ s I b (nb s v d) (t + 1))" "\<not> (occ s I a (nb s v d) t \<and> occ s I b (nb s v d) t)"
    by (rule eager_vertex [OF R C ab u])+
  then show False
    using True a(1) b goes_occ [OF R P ab(1) v d a] goes_occ [OF R P ab(2) u e(1,2) b e(3)] eq by auto
next
  case False
  then have d1: "d \<in> {1..<5}" and e1: "e \<in> {1..<5}" using d(1) e(1) by auto
  note nb = enc_readyD(7) [OF R] and u = ready_nb(1) [OF R v d]
  consider "variables s = 1" | "variables s = 2" | "variables s = 3" using enc_readyD(12) [OF R] by blast
  then show False
  proof cases
    case 1
    then have "cnf_true I (conf_pebble_at_clauses s)" using C mv by (simp add: eager_cnf_def by_kind_def)
    then have "\<not> (occ s I a (nb s v d) (t + 1) \<and> occ s I b (nb s v d) (t + 1 - 1))"
      using ab u unfolding conf_pebble_at_sem [OF enc_readyD(2) [OF R]] by blast
    then show False using goes_occ [OF R P ab(1) v d a] b by simp
  next
    case 2
    obtain mid where T: "pass_table s (max_timestep s) mid hi" using ready_pass [OF R 2] by blast
    have "cnf_true I (conf_pebble_pass_clauses s)" using C mv 2 by (simp add: eager_cnf_def by_kind_def)
    moreover have "passes s I a v d t" using a(2) 2 by (simp add: goes_def by_kind_def)
    ultimately show False using ab v d1 d(2) b unfolding conf_pebble_pass_sem [OF enc_readyD(2) [OF R] T nb] by blast
  next
    case 3
    obtain mid where T: "shift_table s (max_timestep s) mid hi" using ready_shift [OF R 3] by blast
    have "cnf_true I (conf_pebble_shift_clauses s)" using C mv 3 by (simp add: eager_cnf_def by_kind_def)
    moreover have "shifts s I v d t" "shifts s I (nb s v d) e t" using a(2) e(3) 3 by (simp_all add: goes_def by_kind_def)
    ultimately show False using v d e1 unfolding conf_pebble_shift_sem [OF T nb] by blast
  qed
qed

lemma decode_meet:
  assumes R: "enc_ready s lo hi" and P: "walk_meaning s I" and C: "cnf_true I (eager_cnf s)"
    and ab: "a < agents s" "b < agents s" "a \<noteq> b" and t: "int t \<le> fin s a" "int t \<le> fin s b"
  shows "decode s I a t \<noteq> decode s I b t"
  using eager_vertex [OF R C ab, of "decode s I a t" "int t"] decode_occ [OF R P ab(1) t(1)] decode_occ [OF R P ab(2) t(2)]
  by auto

text \<open>An agent on its way never meets one that has arrived.\<close>

lemma decode_meet_arrived:
  assumes R: "enc_ready s lo hi" and P: "walk_meaning s I"
    and ab: "a < agents s" "b < agents s" "a \<noteq> b" and t: "fin s a < int t" "int t \<le> fin s b"
  shows "decode s I b t \<noteq> goal_id (inst s) a"
proof
  assume eq: "decode s I b t = goal_id (inst s) a"
  have "cost_function s = 2" using t enc_readyD(8) [OF R] by (auto simp: cfg_fin_def)
  then have "\<not> occ s I b (goal_id (inst s) a) (int t)"
    using walk_sems(3) [OF P] ab t(1) ready_ends(4) [OF R ab(1)]
      none_at_goal_sem [OF enc_readyD(2) [OF R] ready_goal_time [OF R], of I] by (simp add: time_cfg)
  then show False using decode_occ [OF R P ab(2) t(2)] eq by simp
qed

lemma decode_vertex_free:
  assumes R: "enc_ready s lo hi" and P: "walk_meaning s I" and C: "cnf_true I (eager_cnf s)"
    and ab: "a < agents s" "b < agents s" "a \<noteq> b"
  shows "decode s I a t \<noteq> decode s I b t"
proof -
  have half: "decode s I a t \<noteq> decode s I b t"
    if ab: "a < agents s" "b < agents s" "a \<noteq> b" and t: "int t \<le> fin s b" for a b t
    using decode_meet [OF R P C ab, of t] decode_meet_arrived [OF R P ab, of t] decode_goal [OF R P ab(1), of t] t
    by fastforce
  show ?thesis
  proof (cases "int t \<le> fin s a \<or> int t \<le> fin s b")
    case True
    then show ?thesis using half [OF ab] half [of b a t] ab by metis
  next
    case False
    define m where "m = nat (max (fin s a) (fin s b))"
    have m: "int m = max (fin s a) (fin s b)" using order_trans [OF ready_ends(7) [OF R ab(1)] max.cobounded1] by (simp add: m_def)
    have "decode s I a m \<noteq> decode s I b m"
      using half [OF ab, of m] half [of b a m] ab m by (metis max_def order_refl)
    moreover have "decode s I a t = decode s I a m" "decode s I b t = decode s I b m"
      using decode_goal [OF R P] ab False m by simp_all
    ultimately show ?thesis by simp
  qed
qed

lemma decode_swap_free:
  assumes R: "enc_ready s lo hi" and P: "walk_meaning s I" and C: "cnf_true I (eager_cnf s)" and mv: "movement s = 1"
    and ab: "a < agents s" "b < agents s" "a < b"
  shows "\<not> (decode s I a t = decode s I b (Suc t) \<and> decode s I a (Suc t) = decode s I b t)"
proof
  assume sw: "decode s I a t = decode s I b (Suc t) \<and> decode s I a (Suc t) = decode s I b t"
  let ?v = "decode s I a t" and ?u = "decode s I a (Suc t)"
  have ne: "?u \<noteq> ?v" using decode_vertex_free [OF R P C ab(1,2), of t] ab(3) sw by auto
  have ta: "int t < fin s a"
    using ne decode_goal [OF R P ab(1), of t] decode_goal [OF R P ab(1), of "Suc t"] by fastforce
  have tb: "int t < fin s b"
    using ne sw decode_goal [OF R P ab(2), of t] decode_goal [OF R P ab(2), of "Suc t"] by fastforce
  note oa = decode_occ [OF R P ab(1), of t] and ob = decode_occ [OF R P ab(2), of t]
  have v: "?v < vertices s" "occ s I a ?v (int t)" "occ s I b ?u (int t)" using oa ob ta tb sw by simp_all
  obtain d where d: "d < 5" "has_nb s ?v d" "goes s I a ?v d (int t)" "?u = nb s ?v d"
    using decode_next [OF R P ab(1)] oa ta by auto
  obtain e where e: "e < 5" "has_nb s ?u e" "goes s I b ?u e (int t)" "?v = nb s ?u e"
    using decode_next [OF R P ab(2)] ob tb sw by auto
  have "nb s (nb s ?v d) e = ?v" using d(4) e(4) by simp
  then have "e = opp d" using nb_opp [OF R v(1) d(1,2) e(1)] e(2) d(4) by simp
  then show False
    using eager_swap [OF R P C mv ab v(1) d(1,2) _ v(2) d(3)] ne v(3) e(3) d(4) by simp
qed

lemma decode_pebble_free:
  assumes R: "enc_ready s lo hi" and P: "walk_meaning s I" and C: "cnf_true I (eager_cnf s)" and mv: "movement s = 2"
    and ab: "a < agents s" "b < agents s" "a \<noteq> b"
  shows "decode s I a (Suc t) \<noteq> decode s I b t"
proof
  assume eq: "decode s I a (Suc t) = decode s I b t"
  consider "fin s a \<le> int t" | "fin s b \<le> int t" | "int t < fin s a" "int t < fin s b" by fastforce
  then show False
  proof cases
    case 1
    then have "decode s I a (Suc t) = decode s I a t"
      using decode_goal [OF R P ab(1), of t] decode_goal [OF R P ab(1), of "Suc t"] by simp
    then show False using decode_vertex_free [OF R P C ab, of t] eq by simp
  next
    case 2
    then have "decode s I b (Suc t) = decode s I b t"
      using decode_goal [OF R P ab(2), of t] decode_goal [OF R P ab(2), of "Suc t"] by simp
    then show False using decode_vertex_free [OF R P C ab, of "Suc t"] eq by simp
  next
    case 3
    note oa = decode_occ [OF R P ab(1), of t] and ob = decode_occ [OF R P ab(2), of t]
    obtain d where d: "d < 5" "has_nb s (decode s I a t) d" "goes s I a (decode s I a t) d (int t)"
      "decode s I a (Suc t) = nb s (decode s I a t) d" using decode_next [OF R P ab(1)] oa 3 by auto
    obtain e where e: "e < 5" "has_nb s (decode s I b t) e" "goes s I b (decode s I b t) e (int t)"
      using decode_next [OF R P ab(2)] ob 3 by auto
    have u: "nb s (decode s I a t) d = decode s I b t" using d(4) eq by simp
    show False
      by (rule eager_follow [OF R P C mv ab _ d(1,2) _ d(3), of e]) (use oa ob 3 e u in simp_all)
  qed
qed

lemma decode_collision_free:
  assumes R: "enc_ready s lo hi" and P: "walk_meaning s I" and C: "cnf_true I (eager_cnf s)"
  shows "collision_free (movement s) (agents s) (decode s I)"
  unfolding collision_free_def
proof (intro allI impI conjI)
  fix a b t assume ab: "a < agents s" "b < agents s" "a \<noteq> b"
  show "decode s I a t \<noteq> decode s I b t" by (rule decode_vertex_free [OF R P C ab])
  show "\<not> (decode s I a t = decode s I b (Suc t) \<and> decode s I a (Suc t) = decode s I b t)" if "movement s = 1"
    using decode_swap_free [OF R P C that, of a b t] decode_swap_free [OF R P C that, of b a t] ab by (metis nat_neq_iff)
  show "decode s I a (Suc t) \<noteq> decode s I b t" if "movement s = 2"
    by (rule decode_pebble_free [OF R P C that ab])
qed

section \<open>The cost\<close>

text \<open>
  The cost of any trajectories that a model keeps: up to the end of an agent's window the model has the
  agent at their vertices, from then on they rest at its goal.
\<close>

definition kept_by :: "solver \<Rightarrow> assignment \<Rightarrow> trajectories \<Rightarrow> bool" where
  "kept_by s I p \<longleftrightarrow>
     (\<forall>a < agents s. \<forall>t. (int t \<le> fin s a \<longrightarrow> p a t < vertices s \<and> occ s I a (p a t) (int t)) \<and>
        (fin s a \<le> int t \<longrightarrow> p a t = goal_id (inst s) a))"

lemma kept_on_time:
  assumes R: "enc_ready s lo hi" and P: "kept_by s I p" and D: "dup_meaning s I"
    and a: "a < agents s" and d: "int d < delta s" and cf: "cost_function s = 2"
    and on: "(if duplicates s = 1 then at_goal_by s else not_elsewhere_by s) a d I"
  shows "p a (nat (SP_lengths (inst s) ! a) + d) = goal_id (inst s) a"
proof -
  let ?t = "nat (SP_lengths (inst s) ! a) + d"
  have t: "int ?t = first_time s a (goal_id (inst s) a) + int d" "int ?t \<le> fin s a"
    using ready_ends(5,9) [OF R a] d cf by (auto simp: time_cfg cfg_fin_def)
  have o: "p a ?t < vertices s" "occ s I a (p a ?t) (int ?t)" using P a t(2) unfolding kept_by_def by blast+
  note g = ready_ends(2) [OF R a]
  show ?thesis
  proof (cases "duplicates s = 1")
    case True
    then have "occ s I a (goal_id (inst s) a) (int ?t)" using on t(1) by (simp add: at_goal_by_def)
    moreover have "single_at s a (int ?t) I"
      using D True a t(2) ready_ends(8) [OF R a] by (simp add: dup_meaning_def single_everywhere_def)
    ultimately show ?thesis using o g by (simp add: single_at_def)
  next
    case False
    then have "not_elsewhere_by s a d I" using on by simp
    then show ?thesis using o t(1) unfolding not_elsewhere_by_def by auto
  qed
qed

lemma kept_within_cost:
  assumes R: "enc_ready s lo hi" and P: "kept_by s I p" and D: "dup_meaning s I" and C: "cost_meaning s I"
  shows "within_cost (inst s) (agents s) (cost_function s) (cost_bound s) p"
proof (cases "cost_function s = 1")
  case True
  let ?c = "\<lambda>a. nat (fin s a)"
  have "arrives (inst s) p a (?c a)" if "a < agents s" for a
    using P that ready_ends(7) [OF R that] unfolding arrives_def kept_by_def by (metis nat_le_iff)
  moreover have "int (?c a) + 1 \<le> cost_bound s" if "a < agents s" for a
    using True ready_ends(7,8) [OF R that] enc_readyD(11) [OF R] by (simp add: cost_bound_def)
  ultimately show ?thesis using True unfolding within_cost_def by (intro exI [of _ ?c]) simp
next
  case False
  then have cf: "cost_function s = 2" using enc_readyD(8) [OF R] by simp
  obtain k where k: "(\<Sum>a<agents s. k a) \<le> nat (delta s)"
    "\<And>a d. a < agents s \<Longrightarrow> k a \<le> d \<Longrightarrow> int d < delta s \<Longrightarrow>
      (if duplicates s = 1 then at_goal_by s else not_elsewhere_by s) a d I"
  proof (cases "delta s > 0")
    case True
    then show ?thesis using C cf that unfolding cost_meaning_def within_delay_def by fastforce
  next
    case False
    then show ?thesis using that [of "\<lambda>_. 0"] by simp
  qed
  let ?c = "\<lambda>a. nat (SP_lengths (inst s) ! a) + k a"
  have "arrives (inst s) p a (?c a)" if a: "a < agents s" for a
    unfolding arrives_def
  proof (intro allI impI)
    fix t assume t: "?c a \<le> t"
    show "p a t = goal_id (inst s) a"
    proof (cases "fin s a \<le> int t")
      case True
      then show ?thesis using P a unfolding kept_by_def by blast
    next
      case False
      let ?d = "t - nat (SP_lengths (inst s) ! a)"
      have d: "t = nat (SP_lengths (inst s) ! a) + ?d" "k a \<le> ?d" using t by auto
      have "int ?d < delta s" using False cf ready_ends(5,9) [OF R a] d(1) by (simp add: cfg_fin_def)
      from kept_on_time [OF R P D a this cf k(2) [OF a d(2) this]] d(1) show ?thesis by simp
    qed
  qed
  moreover have "(\<Sum>a<agents s. int (?c a) + 1) \<le> cost_bound s"
  proof -
    have "int (?c a) + 1 = (SP_lengths (inst s) ! a + 1) + int (k a)" if "a < agents s" for a
      using ready_ends(5,9) [OF R that] by simp
    then have "(\<Sum>a<agents s. int (?c a) + 1) = (\<Sum>a<agents s. (SP_lengths (inst s) ! a + 1)) + int (\<Sum>a<agents s. k a)"
      by (simp add: sum.distrib)
    moreover have "(\<Sum>a<agents s. (SP_lengths (inst s) ! a + 1)) = GetSocLB (inst s) (agents s)"
      using soc_LB_sum [OF enc_readyD(3) [OF R] order_refl] soc_LB_nonneg [OF enc_readyD(3) [OF R] order_refl]
      by (simp add: GetSocLB_def)
    moreover have "int (\<Sum>a<agents s. k a) \<le> delta s" using k(1) enc_readyD(6) [OF R] by linarith
    ultimately show ?thesis using cf by (simp add: cost_bound_def)
  qed
  ultimately show ?thesis using cf unfolding within_cost_def by (intro exI [of _ ?c]) simp
qed

lemma decode_kept:
  assumes "enc_ready s lo hi" "walk_meaning s I"
  shows "kept_by s I (decode s I)"
  using decode_occ [OF assms] decode_goal [OF assms] by (simp add: kept_by_def)

lemma decode_solution:
  assumes R: "enc_ready s lo hi" and enc: "amk_ok enc" and I: "base_true enc hi s I" and C: "cnf_true I (eager_cnf s)"
  shows "solution (inst s) (agents s) (movement s) (cost_function s) (cost_bound s) (decode s I)"
proof -
  note M = base_sound [OF R enc I]
  show ?thesis
    unfolding solution_def
    using decode_on_map [OF R M(1)] decode_collision_free [OF R M(1) C] kept_within_cost [OF R decode_kept [OF R M(1)] M(2,3)] by simp
qed

end
