(* ===== verification/Completeness.thy ===== *)
theory Completeness
  imports Soundness
begin

text \<open>
  Completeness of the encodings: a solution within the cost of the formula gives a model of the
  formula, the assignment that makes exactly the positions and edges of the trajectories true. Every
  conflict clause holds in it.
\<close>

section \<open>Solutions stay in the windows\<close>

lemma solution_parts:
  assumes "solution i n mv cf k p"
  shows "on_map i n p" "collision_free mv n p" "within_cost i n cf k p"
  using assms by (simp_all add: solution_def)

lemma on_map_steps:
  "on_map i n p \<Longrightarrow> a < n \<Longrightarrow> p a 0 = start_id i a \<and> (p a (Suc t) = p a t \<or> (p a t, p a (Suc t)) \<in> moves i)"
  by (simp add: on_map_def)

lemma walk_relpow:
  assumes "\<And>t. p (Suc t) = p t \<or> (p t, p (Suc t)) \<in> R"
  shows "\<exists>m \<le> t. (p 0, p t) \<in> R ^^ m"
proof (induction t)
  case 0
  have "(p 0, p 0) \<in> R ^^ 0" by simp
  then show ?case by blast
next
  case (Suc t)
  then obtain m where m: "m \<le> t" "(p 0, p t) \<in> R ^^ m" by blast
  show ?case
  proof (cases "p (Suc t) = p t")
    case True
    then show ?thesis using m by (intro exI [of _ m]) auto
  next
    case False
    then have "(p 0, p (Suc t)) \<in> R ^^ Suc m" using m(2) assms [of t] by (auto intro: relpow_Suc_I)
    then show ?thesis using m(1) by (intro exI [of _ "Suc m"]) auto
  qed
qed

text \<open>Arriving takes at least the shortest path, and the cost leaves no more time than the window.\<close>

lemma arrives_after:
  assumes R: "enc_ready s lo hi" and M: "on_map (inst s) (agents s) p" and a: "a < agents s"
    and c: "arrives (inst s) p a c"
  shows "SP_lengths (inst s) ! a \<le> int c"
proof -
  obtain m where "m \<le> c" "(p a 0, p a c) \<in> moves (inst s) ^^ m"
    using walk_relpow [of "p a" "moves (inst s)" c] on_map_steps [OF M a] by blast
  then have "(start_id (inst s) a, goal_id (inst s) a) \<in> moves (inst s) ^^ m" "m \<le> c"
    using on_map_steps [OF M a] c by (auto simp: arrives_def)
  then show ?thesis
    using is_dist_le [OF SP_length_dist [OF enc_readyD(3) [OF R] a]] by fastforce
qed

lemma sum_slack:
  assumes "finite A" "a \<in> A" "\<And>b. b \<in> A \<Longrightarrow> f b \<le> (g b :: int)" "sum g A \<le> sum f A + d"
  shows "g a \<le> f a + d"
proof -
  have "sum f (A - {a}) \<le> sum g (A - {a})" using assms(3) by (intro sum_mono) auto
  then show ?thesis using assms(1,2,4) by (simp add: sum.remove)
qed

lemma solution_arrives:
  assumes R: "enc_ready s lo hi" and M: "on_map (inst s) (agents s) p"
    and C: "within_cost (inst s) (agents s) (cost_function s) (cost_bound s) p"
  shows "\<exists>c. (\<forall>a < agents s. arrives (inst s) p a (c a) \<and> SP_lengths (inst s) ! a \<le> int (c a) \<and> int (c a) \<le> fin s a) \<and>
    (cost_function s = 2 \<longrightarrow> (\<Sum>a<agents s. int (c a) - SP_lengths (inst s) ! a) \<le> delta s)"
proof -
  obtain c where c: "\<And>a. a < agents s \<Longrightarrow> arrives (inst s) p a (c a)"
    and k: "if cost_function s = 1 then \<forall>a < agents s. int (c a) + 1 \<le> cost_bound s
      else (\<Sum>a<agents s. int (c a) + 1) \<le> cost_bound s"
    using C unfolding within_cost_def by blast
  have ge: "SP_lengths (inst s) ! a \<le> int (c a)" if "a < agents s" for a
    by (rule arrives_after [OF R M that c [OF that]])
  show ?thesis
  proof (cases "cost_function s = 1")
    case True
    then have "int (c a) \<le> fin s a" if "a < agents s" for a
      using k that enc_readyD(11) [OF R] by (auto simp: cost_bound_def cfg_fin_def)
    then show ?thesis using c ge True by (intro exI [of _ c]) simp
  next
    case False
    then have cf: "cost_function s = 2" using enc_readyD(8) [OF R] by simp
    have lb: "GetSocLB (inst s) (agents s) = (\<Sum>a<agents s. SP_lengths (inst s) ! a + 1)"
      using soc_LB_sum [OF enc_readyD(3) [OF R] order_refl] soc_LB_nonneg [OF enc_readyD(3) [OF R] order_refl]
      by (simp add: GetSocLB_def)
    then have sum: "(\<Sum>a<agents s. int (c a) + 1) \<le> (\<Sum>a<agents s. SP_lengths (inst s) ! a + 1) + delta s"
      using k cf by (simp add: cost_bound_def)
    have "int (c a) + 1 \<le> SP_lengths (inst s) ! a + 1 + delta s" if "a < agents s" for a
      by (rule sum_slack [OF _ _ _ sum]) (use that ge in auto)
    then have "int (c a) \<le> fin s a" if "a < agents s" for a using that cf by (simp add: cfg_fin_def)
    moreover have "(\<Sum>a<agents s. int (c a) - SP_lengths (inst s) ! a) \<le> delta s"
      using sum by (simp add: sum.distrib sum_subtractf)
    ultimately show ?thesis using c ge by (intro exI [of _ c]) simp
  qed
qed

lemma solution_window:
  assumes R: "enc_ready s lo hi" and M: "on_map (inst s) (agents s) p" and a: "a < agents s"
    and g: "p a (nat (fin s a)) = goal_id (inst s) a" and t: "int t \<le> fin s a"
  shows "p a t < vertices s \<and> 0 \<le> cfg_first (cfg_of s) a (p a t) \<and> at_window s a (p a t) (int t)"
proof -
  note ok = enc_readyD(1) [OF R]
  have aw: "a < w_agents (cfg_of s)" using a by simp
  have p0: "p a 0 = start_id (w_inst (cfg_of s)) a" using on_map_steps [OF M a] by simp
  have p: "p a (Suc t) = p a t \<or> (p a t, p a (Suc t)) \<in> moves (w_inst (cfg_of s))" for t
    using on_map_steps [OF M a] by simp
  have tn: "t \<le> nat (fin s a)" using t by simp
  have 1: "0 \<le> cfg_first (cfg_of s) a (p a t)" "cfg_first (cfg_of s) a (p a t) \<le> int t" "p a t < vertices s"
    using win.path_first [where p = "p a" and n = "nat (fin s a)" and t = t, OF ok aw p0 p tn] enc_readyD(5) [OF R]
    by simp_all
  have "p a (nat (fin s a)) = goal_id (w_inst (cfg_of s)) a" using g by simp
  from win.path_last [where p = "p a" and n = "nat (fin s a)" and t = t, OF ok aw p0 p this tn]
  have "int t \<le> cfg_last (cfg_of s) a (p a t)" using tn ready_ends(7) [OF R a] by simp
  then show ?thesis using 1 ready_window [OF R a 1(3)] by simp
qed

section \<open>Assignments that read as the trajectories\<close>

text \<open>The trajectory of \<open>a\<close> leaves \<open>v\<close> in direction \<open>d\<close> at \<open>t\<close>.\<close>

definition leaves :: "solver \<Rightarrow> trajectories \<Rightarrow> nat \<Rightarrow> nat \<Rightarrow> nat \<Rightarrow> int \<Rightarrow> bool" where
  "leaves s p a v d t \<longleftrightarrow> 0 \<le> t \<and> v = p a (nat t) \<and> nb s v d = p a (Suc (nat t))"

definition reads :: "solver \<Rightarrow> assignment \<Rightarrow> trajectories \<Rightarrow> bool" where
  "reads s I p \<longleftrightarrow>
     (\<forall>a < agents s. \<forall>v < vertices s. \<forall>t. occ s I a v t \<longleftrightarrow> at_window s a v t \<and> 0 \<le> t \<and> v = p a (nat t)) \<and>
     (variables s = 2 \<longrightarrow> (\<forall>a < agents s. \<forall>v < vertices s. \<forall>d < 5. \<forall>t.
        passes s I a v d t \<longleftrightarrow> pass_window s a v d t \<and> leaves s p a v d t)) \<and>
     (variables s = 3 \<longrightarrow> (\<forall>v < vertices s. \<forall>d < 5. \<forall>t.
        shifts s I v d t \<longleftrightarrow> shift_found (SHIFT s v d) t \<and> (\<exists>a < agents s. leaves s p a v d t)))"

definition traj_assignment :: "solver \<Rightarrow> trajectories \<Rightarrow> assignment" where
  "traj_assignment s p x \<longleftrightarrow>
     (\<exists>a < agents s. \<exists>v < vertices s. \<exists>t. at_window s a v t \<and> 0 \<le> t \<and> v = p a (nat t) \<and> x = at_var s a v t) \<or>
     variables s = 2 \<and> (\<exists>a < agents s. \<exists>v < vertices s. \<exists>d < 5. \<exists>t.
        pass_window s a v d t \<and> leaves s p a v d t \<and> x = pass_var s a v d t) \<or>
     variables s = 3 \<and> (\<exists>v < vertices s. \<exists>d < 5. \<exists>t.
        shift_found (SHIFT s v d) t \<and> (\<exists>a < agents s. leaves s p a v d t) \<and> x = shift_var s v d t)"

lemma readsD:
  assumes "reads s I p"
  shows "a < agents s \<Longrightarrow> v < vertices s \<Longrightarrow> occ s I a v t \<longleftrightarrow> at_window s a v t \<and> 0 \<le> t \<and> v = p a (nat t)"
    and "variables s = 2 \<Longrightarrow> a < agents s \<Longrightarrow> v < vertices s \<Longrightarrow> d < 5 \<Longrightarrow>
      passes s I a v d t \<longleftrightarrow> pass_window s a v d t \<and> leaves s p a v d t"
    and "variables s = 3 \<Longrightarrow> v < vertices s \<Longrightarrow> d < 5 \<Longrightarrow>
      shifts s I v d t \<longleftrightarrow> shift_found (SHIFT s v d) t \<and> (\<exists>a < agents s. leaves s p a v d t)"
  using assms unfolding reads_def by simp_all

lemma reads_agree:
  assumes R: "enc_ready s lo hi" and I: "reads s I p" and eq: "\<forall>x < hi. J x = I x"
  shows "reads s J p"
proof -
  have "occ s J a v t = occ s I a v t" if "a < agents s" "v < vertices s" for a v t
    using same_occ [OF R eq that] .
  moreover have "passes s J a v d t = passes s I a v d t"
    if "variables s = 2" "a < agents s" "v < vertices s" "d < 5" for a v d t
    using same_passes [OF R that(1) eq that(2-4)] .
  moreover have "shifts s J v d t = shifts s I v d t" if "variables s = 3" "v < vertices s" "d < 5" for v d t
    using same_shifts [OF R that(1) eq that(2,3)] .
  ultimately show ?thesis using I unfolding reads_def by simp
qed

lemma traj_assignment_reads:
  assumes R: "enc_ready s lo hi"
  shows "reads s (traj_assignment s p) p"
  unfolding reads_def
proof (intro conjI allI impI)
  note T = enc_readyD(2) [OF R]
  let ?I = "traj_assignment s p"
  have at_edge: "variables s = 2 \<Longrightarrow> b < agents s \<Longrightarrow> u < vertices s \<Longrightarrow> e < 5 \<Longrightarrow> pass_window s b u e t' \<Longrightarrow>
      at_var s a v t \<noteq> pass_var s b u e t'"
    "variables s = 3 \<Longrightarrow> u < vertices s \<Longrightarrow> e < 5 \<Longrightarrow> shift_found (SHIFT s u e) t' \<Longrightarrow>
      at_var s a v t \<noteq> shift_var s u e t'"
    if w: "a < agents s" "v < vertices s" "at_window s a v t" for a v t b u e t'
  proof -
    show "at_var s a v t \<noteq> pass_var s b u e t'"
      if x: "variables s = 2" "b < agents s" "u < vertices s" "e < 5" "pass_window s b u e t'"
    proof -
      obtain mid where m: "pass_table s (max_timestep s) mid hi" "at_var s a v t < mid"
        using ready_pass [OF R x(1)] w by blast
      then show ?thesis using pass_tableD(4) [OF m(1) x(2-5)] by simp
    qed
    show "at_var s a v t \<noteq> shift_var s u e t'"
      if x: "variables s = 3" "u < vertices s" "e < 5" "shift_found (SHIFT s u e) t'"
    proof -
      obtain mid where m: "shift_table s (max_timestep s) mid hi" "at_var s a v t < mid"
        using ready_shift [OF R x(1)] w by blast
      then show ?thesis using shift_tableD(5) [OF m(1) x(2-4)] by simp
    qed
  qed
  show "occ s ?I a v t \<longleftrightarrow> at_window s a v t \<and> 0 \<le> t \<and> v = p a (nat t)"
    if av: "a < agents s" "v < vertices s" for a v t
  proof
    assume o: "occ s ?I a v t"
    then have w: "at_window s a v t" and x: "?I (at_var s a v t)" by (simp_all add: occ_def)
    obtain b u t' where b: "b < agents s" "u < vertices s" "at_window s b u t'" "0 \<le> t'" "u = p b (nat t')"
      "at_var s a v t = at_var s b u t'"
      using x at_edge [OF av w] unfolding traj_assignment_def by blast
    from at_tableD(7) [OF T av b(1,2) w b(3,6)] b w
    show "at_window s a v t \<and> 0 \<le> t \<and> v = p a (nat t)" by simp
  next
    assume "at_window s a v t \<and> 0 \<le> t \<and> v = p a (nat t)"
    then show "occ s ?I a v t" using av unfolding occ_def traj_assignment_def by blast
  qed
  show "passes s ?I a v d t \<longleftrightarrow> pass_window s a v d t \<and> leaves s p a v d t"
    if v2: "variables s = 2" and av: "a < agents s" "v < vertices s" "d < 5" for a v d t
  proof
    assume o: "passes s ?I a v d t"
    then have w: "pass_window s a v d t" and x: "?I (pass_var s a v d t)" by (simp_all add: passes_def)
    obtain mid where P: "pass_table s (max_timestep s) mid hi" using ready_pass [OF R v2] by blast
    obtain b u e t' where b: "b < agents s" "u < vertices s" "e < 5" "pass_window s b u e t'" "leaves s p b u e t'"
      "pass_var s a v d t = pass_var s b u e t'"
      using x at_edge(1) [OF _ _ _ v2 av w] v2 unfolding traj_assignment_def by fastforce
    from pass_tableD(5) [OF P av b(1-3) w b(4,6)] b w
    show "pass_window s a v d t \<and> leaves s p a v d t" by simp
  next
    assume "pass_window s a v d t \<and> leaves s p a v d t"
    then show "passes s ?I a v d t" using v2 av unfolding passes_def traj_assignment_def by blast
  qed
  show "shifts s ?I v d t \<longleftrightarrow> shift_found (SHIFT s v d) t \<and> (\<exists>a < agents s. leaves s p a v d t)"
    if v3: "variables s = 3" and av: "v < vertices s" "d < 5" for v d t
  proof
    assume o: "shifts s ?I v d t"
    then have w: "shift_found (SHIFT s v d) t" and x: "?I (shift_var s v d t)" by (simp_all add: shifts_def)
    obtain mid where S: "shift_table s (max_timestep s) mid hi" using ready_shift [OF R v3] by blast
    obtain u e t' where b: "u < vertices s" "e < 5" "shift_found (SHIFT s u e) t'" "\<exists>a < agents s. leaves s p a u e t'"
      "shift_var s v d t = shift_var s u e t'"
      using x at_edge(2) [OF _ _ _ v3 av w] v3 unfolding traj_assignment_def by fastforce
    from shift_tableD(7) [OF S av b(1,2) w b(3,5)] b w
    show "shift_found (SHIFT s v d) t \<and> (\<exists>a < agents s. leaves s p a v d t)" by simp
  next
    assume "shift_found (SHIFT s v d) t \<and> (\<exists>a < agents s. leaves s p a v d t)"
    then show "shifts s ?I v d t" using v3 av unfolding shifts_def traj_assignment_def by blast
  qed
qed

section \<open>Every clause holds\<close>

text \<open>The trajectories of a solution, with the facts the clause families need.\<close>

definition settles :: "solver \<Rightarrow> trajectories \<Rightarrow> bool" where
  "settles s p \<longleftrightarrow>
     on_map (inst s) (agents s) p \<and> collision_free (movement s) (agents s) p \<and>
     (\<forall>a < agents s. arrives (inst s) p a (nat (fin s a)))"

lemma settles_goal:
  assumes "enc_ready s lo hi" "settles s p" "a < agents s" "fin s a \<le> int t"
  shows "p a t = goal_id (inst s) a"
proof -
  have "nat (fin s a) \<le> t" using assms(4) ready_ends(7) [OF assms(1,3)] by simp
  then show ?thesis using assms(2,3) unfolding settles_def arrives_def by blast
qed

lemma settles_window:
  assumes "enc_ready s lo hi" "settles s p" "a < agents s" "int t \<le> fin s a"
  shows "p a t < vertices s" "0 \<le> cfg_first (cfg_of s) a (p a t)" "at_window s a (p a t) (int t)"
proof -
  have g: "p a (nat (fin s a)) = goal_id (inst s) a"
    using settles_goal [OF assms(1-3)] ready_ends(7) [OF assms(1,3)] by simp
  have M: "on_map (inst s) (agents s) p" using assms(2) by (simp add: settles_def)
  show "p a t < vertices s" "0 \<le> cfg_first (cfg_of s) a (p a t)" "at_window s a (p a t) (int t)"
    using solution_window [OF assms(1) M assms(3) g assms(4)] by simp_all
qed

lemma settles_reads:
  assumes R: "enc_ready s lo hi" and S: "settles s p" and J: "reads s J p"
    and a: "a < agents s" and t: "0 \<le> t" "t \<le> fin s a"
  shows "occ s J a (p a (nat t)) t"
  using readsD(1) [OF J a] settles_window [OF R S a, of "nat t"] t by simp

lemma settles_fin:
  assumes R: "enc_ready s lo hi" and S: "settles s p" and J: "reads s J p"
    and a: "a < agents s" and v: "v < vertices s" and o: "occ s J a v t"
  shows "0 \<le> t" "t \<le> fin s a" "v = p a (nat t)"
proof -
  show t: "0 \<le> t" and vp: "v = p a (nat t)" using readsD(1) [OF J a v] o by auto
  show "t \<le> fin s a"
  proof (rule ccontr)
    assume "\<not> t \<le> fin s a"
    then have "v = goal_id (inst s) a" "fin s a < t"
      using settles_goal [OF R S a, of "nat t"] t vp by auto
    then have "\<not> at_window s a v t"
      using no_window_after [OF R a v] ready_ends(5) [OF R a] by simp
    then show False using o by (simp add: occ_def)
  qed
qed

lemma settles_free:
  assumes "settles s p" "a < agents s" "b < agents s" "a \<noteq> b"
  shows "p a t \<noteq> p b t" "movement s = 1 \<Longrightarrow> \<not> (p a t = p b (Suc t) \<and> p a (Suc t) = p b t)"
    "movement s = 2 \<Longrightarrow> p a (Suc t) \<noteq> p b t"
  using assms unfolding settles_def collision_free_def by blast+

lemma settles_occ_free:
  assumes R: "enc_ready s lo hi" and S: "settles s p" and J: "reads s J p"
    and ab: "a < agents s" "b < agents s" "a \<noteq> b" and v: "v < vertices s"
  shows "\<not> (occ s J a v t \<and> occ s J b v t)"
  using settles_fin(3) [OF R S J ab(1) v, of t] settles_fin(3) [OF R S J ab(2) v, of t]
    settles_free(1) [OF S ab, of "nat t"] by auto

text \<open>Edges used by two trajectories at the same time do not collide.\<close>

lemma leaves_swap:
  assumes S: "settles s p" and mv: "movement s = 1" and ab: "a < agents s" "b < agents s" and ne: "nb s v d \<noteq> v"
    and a: "leaves s p a v d t" and b: "leaves s p b (nb s v d) e t" "nb s (nb s v d) e = v"
  shows False
proof -
  have "a \<noteq> b" using a b ne by (auto simp: leaves_def)
  from settles_free(2) [OF S ab this mv, of "nat t"] a b show False by (auto simp: leaves_def)
qed

lemma leaves_follow:
  assumes S: "settles s p" and mv: "movement s = 2" and ab: "a < agents s" "b < agents s" "a \<noteq> b"
    and a: "leaves s p a v d t" and b: "nb s v d = p b (nat t)"
  shows False
  using settles_free(3) [OF S ab mv, of "nat t"] a b by (auto simp: leaves_def)

lemma settles_swapping:
  assumes R: "enc_ready s lo hi" and S: "settles s p" and J: "reads s J p" and mv: "movement s = 1"
  shows "variables s = 1 \<Longrightarrow> cnf_true J (conf_swapping_at_clauses s)"
    and "variables s = 2 \<Longrightarrow> cnf_true J (conf_swapping_pass_clauses s)"
    and "variables s = 3 \<Longrightarrow> cnf_true J (conf_swapping_shift_clauses s)"
proof -
  note T = enc_readyD(2) [OF R] and nb = enc_readyD(7) [OF R] and V = settles_fin [OF R S J]
  have ne: "nb s v d \<noteq> v" if "v < vertices s" "d \<in> {1..<5}" "has_nb s v d" for v d
    using nb_inj [OF R that(1), of d 0] that by (auto simp: has_nb_def HasNeighborID_def nb_def GetNeighbor_def)
  show "cnf_true J (conf_swapping_at_clauses s)" if "variables s = 1"
    unfolding conf_swapping_at_sem [OF T nb]
  proof (intro allI impI ballI notI)
    fix v d a b t assume v: "v < vertices s" and d: "d \<in> {1..<5}" "has_nb s v d"
      and ab: "a < agents s" "b \<in> {a + 1..<agents s}"
      and o: "occ s J a v t \<and> occ s J a (nb s v d) (t + 1) \<and> occ s J b v (t + 1) \<and> occ s J b (nb s v d) t"
    have u: "nb s v d < vertices s" using ready_nb(1) [OF R v] d by simp
    have b: "b < agents s" "a \<noteq> b" using ab by auto
    have "0 \<le> t" using V(1) [OF ab(1) v] o by blast
    then have t: "0 \<le> t" "nat (t + 1) = Suc (nat t)" by simp_all
    have "v = p a (nat t)" "nb s v d = p a (Suc (nat t))" "v = p b (Suc (nat t))" "nb s v d = p b (nat t)"
      using V(3) [OF ab(1) v] V(3) [OF ab(1) u] V(3) [OF b(1) v] V(3) [OF b(1) u] o t(2) by metis+
    then show False using settles_free(2) [OF S ab(1) b mv, of "nat t"] by simp
  qed
  show "cnf_true J (conf_swapping_pass_clauses s)" if v2: "variables s = 2"
  proof -
    obtain mid where P: "pass_table s (max_timestep s) mid hi" using ready_pass [OF R v2] by blast
    show ?thesis
      unfolding conf_swapping_pass_sem [OF P nb]
    proof (intro allI impI ballI notI)
      fix v d a b t assume v: "v < vertices s" and d: "d \<in> {1..<5}" "has_nb s v d"
        and ab: "a < agents s" "b \<in> {a + 1..<agents s}"
        and o: "passes s J a v d t \<and> passes s J b (nb s v d) (opp d) t"
      have d5: "d < 5" and b: "b < agents s" using d ab by auto
      note u = ready_nb(1) [OF R v d5 d(2)] and bk = nb_back [OF R v d5 d(2)]
      show False
        using leaves_swap [OF S mv ab(1) b ne [OF v d] _ _ bk(3), of t] o
          readsD(2) [OF J v2 ab(1) v d5] readsD(2) [OF J v2 b u bk(1)] by blast
    qed
  qed
  show "cnf_true J (conf_swapping_shift_clauses s)" if v3: "variables s = 3"
  proof -
    obtain mid where P: "shift_table s (max_timestep s) mid hi" using ready_shift [OF R v3] by blast
    show ?thesis
      unfolding conf_swapping_shift_sem [OF P nb]
    proof (intro allI impI ballI notI)
      fix v d t assume v: "v < vertices s" and d: "d \<in> {2, 3}" "has_nb s v d"
        and o: "shifts s J v d t \<and> shifts s J (nb s v d) (opp d) t"
      have d5: "d < 5" "d \<in> {1..<5}" using d by auto
      note u = ready_nb(1) [OF R v d5(1) d(2)] and bk = nb_back [OF R v d5(1) d(2)]
      show False
        using leaves_swap [OF S mv _ _ ne [OF v d5(2) d(2)] _ _ bk(3), of _ _ t] o
          readsD(3) [OF J v3 v d5(1)] readsD(3) [OF J v3 u bk(1)] by blast
    qed
  qed
qed

lemma settles_pebble:
  assumes R: "enc_ready s lo hi" and S: "settles s p" and J: "reads s J p" and mv: "movement s = 2"
  shows "variables s = 1 \<Longrightarrow> cnf_true J (conf_pebble_at_clauses s)"
    and "variables s = 2 \<Longrightarrow> cnf_true J (conf_pebble_pass_clauses s)"
    and "variables s = 3 \<Longrightarrow> cnf_true J (conf_pebble_shift_clauses s)"
proof -
  note T = enc_readyD(2) [OF R] and nb = enc_readyD(7) [OF R] and V = settles_fin [OF R S J]
  show "cnf_true J (conf_pebble_at_clauses s)" if "variables s = 1"
    unfolding conf_pebble_at_sem [OF T]
  proof (intro allI impI notI)
    fix v a b t assume v: "v < vertices s" and ab: "a < agents s" "b < agents s" "a \<noteq> b"
      and o: "occ s J a v t \<and> occ s J b v (t - 1)"
    have "0 \<le> t - 1" using V(1) [OF ab(2) v] o by blast
    then have "nat t = Suc (nat (t - 1))" by simp
    then show False
      using V(3) [OF ab(1) v] V(3) [OF ab(2) v] o settles_free(3) [OF S ab mv, of "nat (t - 1)"] by metis
  qed
  show "cnf_true J (conf_pebble_pass_clauses s)" if v2: "variables s = 2"
  proof -
    obtain mid where P: "pass_table s (max_timestep s) mid hi" using ready_pass [OF R v2] by blast
    show ?thesis
      unfolding conf_pebble_pass_sem [OF T P nb]
    proof (intro allI impI ballI notI)
      fix v d a b t assume v: "v < vertices s" and d: "d \<in> {1..<5}" "has_nb s v d"
        and ab: "a < agents s" "b < agents s" "a \<noteq> b" and o: "passes s J a v d t \<and> occ s J b (nb s v d) t"
      have d5: "d < 5" using d by simp
      show False
        using leaves_follow [OF S mv ab, of v d t] o readsD(2) [OF J v2 ab(1) v d5]
          V(3) [OF ab(2) ready_nb(1) [OF R v d5 d(2)]] by blast
    qed
  qed
  show "cnf_true J (conf_pebble_shift_clauses s)" if v3: "variables s = 3"
  proof -
    obtain mid where P: "shift_table s (max_timestep s) mid hi" using ready_shift [OF R v3] by blast
    show ?thesis
      unfolding conf_pebble_shift_sem [OF P nb]
    proof (intro allI impI ballI notI)
      fix v d e t assume v: "v < vertices s" and d: "d < 5" "has_nb s v d" and e: "e \<in> {1..<5}"
        and o: "shifts s J v d t \<and> shifts s J (nb s v d) e t"
      note u = ready_nb(1) [OF R v d]
      have e5: "e < 5" using e by simp
      obtain a where a: "a < agents s" "leaves s p a v d t" using o readsD(3) [OF J v3 v d(1)] by blast
      obtain b where b: "b < agents s" "leaves s p b (nb s v d) e t" and f: "shift_found (SHIFT s (nb s v d) e) t"
        using o readsD(3) [OF J v3 u e5] by blast
      show False
      proof (cases "a = b")
        case True
        then have "nb s v d = v" "nb s v e = nb s v d" using a b by (auto simp: leaves_def)
        moreover have "has_nb s v e" using f shift_tableD(4) [OF P u e5] calculation by (simp add: may_shift_def)
        moreover have "has_nb s v 0" "nb s v 0 = v" by (simp_all add: has_nb_def HasNeighborID_def nb_def GetNeighbor_def)
        ultimately have "e = 0" using nb_inj [OF R v e5, of 0] by simp
        then show False using e by simp
      next
        case False
        then show False using leaves_follow [OF S mv a(1) b(1) _ a(2)] b(2) by (simp add: leaves_def)
      qed
    qed
  qed
qed

lemma settles_conflicts:
  assumes R: "enc_ready s lo hi" and S: "settles s p" and J: "reads s J p"
  shows "cnf_true J (eager_cnf s)"
proof -
  have "cnf_true J (conf_vertex_clauses s)"
    unfolding conf_vertex_sem [OF enc_readyD(2) [OF R]] using settles_occ_free [OF R S J] by auto
  then show ?thesis
    using settles_swapping [OF R S J] settles_pebble [OF R S J] enc_readyD(9,12) [OF R]
    by (auto simp: eager_cnf_def by_kind_def)
qed

lemma settles_positions:
  assumes R: "enc_ready s lo hi" and S: "settles s p" and J: "reads s J p"
  shows "cnf_true J (positions_cnf s)"
proof -
  note T = enc_readyD(2) [OF R]
  have M: "on_map (inst s) (agents s) p" using S by (simp add: settles_def)
  have "cnf_true J (start_clauses s)"
  proof (rule iffD2 [OF start_sem [OF T ready_start_time [OF R]]], assumption, intro allI impI)
    fix a assume a: "a < agents s"
    show "occ s J a (start_id (inst s) a) 0"
      using settles_reads [OF R S J a, of 0] on_map_steps [OF M a] ready_ends(7) [OF R a] by simp
  qed
  moreover have "cnf_true J (goal_clauses s)"
  proof (rule iffD2 [OF goal_sem [OF T ready_goal_time [OF R]]], assumption, intro allI impI)
    fix a assume a: "a < agents s"
    have "p a (nat (fin s a)) = goal_id (inst s) a"
      using settles_goal [OF R S a] ready_ends(7) [OF R a] by simp
    then show "occ s J a (goal_id (inst s) a) (last_time s (max_timestep s) a (goal_id (inst s) a))"
      using settles_reads [OF R S J a, of "fin s a"] ready_ends(4,7) [OF R a] by (simp add: time_cfg)
  qed
  moreover have "cnf_true J (none_at_goal_clauses s)"
  proof (rule iffD2 [OF none_at_goal_sem [OF T ready_goal_time [OF R]]], assumption, intro allI impI notI)
    fix a b t assume a: "a < agents s" and b: "b < agents s"
      and t: "last_time s (max_timestep s) a (goal_id (inst s) a) < t" and o: "occ s J b (goal_id (inst s) a) t"
    have fa: "fin s a < t" using t ready_ends(4) [OF R a] by (simp add: time_cfg)
    note V = settles_fin [OF R S J b ready_ends(2) [OF R a] o]
    have "p a (nat t) = goal_id (inst s) a" using settles_goal [OF R S a] fa V(1) by simp
    then have "a = b" using settles_free(1) [OF S a b] V(3) by metis
    then show False using V(2) fa by simp
  qed
  ultimately show ?thesis by (simp add: positions_cnf_def)
qed

text \<open>The trajectory goes on as long as a neighbour is in the window.\<close>

lemma settles_next:
  assumes R: "enc_ready s lo hi" and S: "settles s p" and J: "reads s J p" and a: "a < agents s" and v: "v < vertices s"
    and o: "occ s J a v t" and d: "d < 5" "has_nb s v d" "at_window s a (nb s v d) (t + 1)"
  shows "t < fin s a" "\<exists>e < 5. has_nb s v e \<and> leaves s p a v e t \<and> occ s J a (nb s v e) (t + 1)"
proof -
  have M: "on_map (inst s) (agents s) p" using S by (simp add: settles_def)
  note V = settles_fin [OF R S J a v o]
  have reach: "0 \<le> cfg_first (cfg_of s) a v" using settles_window(2) [OF R S a, of "nat t"] V by simp
  show t1: "t < fin s a"
    using no_window_after [OF R a ready_nb(1) [OF R v d(1,2)] ready_first_step(1) [OF R a v reach d(1,2)], of "t + 1"] d(3)
    by (cases "t < fin s a") auto
  have "p a (nat (t + 1)) = v \<or> (v, p a (nat (t + 1))) \<in> moves (inst s)"
    using on_map_steps [OF M a, of "nat t"] V(1,3) by (simp add: nat_add_distrib)
  then obtain e where e: "e < 5" "has_nb s v e" "nb s v e = p a (nat (t + 1))" using ready_dir [OF R v] by blast
  then have "leaves s p a v e t" "occ s J a (nb s v e) (t + 1)"
    using settles_reads [OF R S J a, of "t + 1"] V(1,3) t1 by (auto simp: leaves_def nat_add_distrib)
  then show "\<exists>e < 5. has_nb s v e \<and> leaves s p a v e t \<and> occ s J a (nb s v e) (t + 1)" using e by blast
qed

lemma settles_moves:
  assumes R: "enc_ready s lo hi" and S: "settles s p" and J: "reads s J p"
  shows "cnf_true J (steps_cnf s)"
proof -
  note T = enc_readyD(2) [OF R] and nb = enc_readyD(7) [OF R]
  have at: "cnf_true J (next_vertex_at_clauses s)"
    unfolding next_vertex_at_sem [OF T nb] using settles_next(2) [OF R S J] by blast
  have pass: "cnf_true J (enter_vertex_pass_clauses s) \<and> cnf_true J (next_edge_pass_clauses s)" if v2: "variables s = 2"
  proof -
    obtain mid where P: "pass_table s (max_timestep s) mid hi" using ready_pass [OF R v2] by blast
    have "cnf_true J (enter_vertex_pass_clauses s)"
    proof (rule iffD2 [OF enter_vertex_pass_sem [OF T P nb pass_window_next [OF R P]]], assumption+, intro allI impI)
      fix v d a t assume v: "v < vertices s" "d < 5" and a: "a < agents s" and o: "passes s J a v d t"
      have w: "pass_window s a v d t" and l: "leaves s p a v d t" using o readsD(2) [OF J v2 a v] by simp_all
      have "has_nb s v d" using pass_tableD(3) [OF P a v] w by simp
      then show "occ s J a (nb s v d) (t + 1)"
        using readsD(1) [OF J a ready_nb(1) [OF R v], of "t + 1"] pass_window_next [OF R P a v w] l
        by (auto simp: leaves_def nat_add_distrib)
    qed
    moreover have "cnf_true J (next_edge_pass_clauses s)"
      unfolding next_edge_pass_sem [OF T P]
    proof (intro allI impI)
      fix a v t assume a: "a < agents s" and v: "v < vertices s" and o: "occ s J a v t" and w: "\<exists>d < 5. pass_window s a v d t"
      obtain d where d: "d < 5" "pass_window s a v d t" using w by blast
      have h: "has_nb s v d" "first_time s a v \<le> t" using pass_tableD(3) [OF P a v d(1)] d(2) by simp_all
      obtain e where e: "e < 5" "has_nb s v e" "leaves s p a v e t" "occ s J a (nb s v e) (t + 1)"
        using settles_next(2) [OF R S J a v o d(1) h(1) pass_window_next [OF R P a v d]] by blast
      have "at_window s a (nb s v e) (t + 1)" using e(4) by (simp add: occ_def)
      then have "t < last_time s (max_timestep s) a (nb s v e)"
        using at_tableD(3) [OF T a ready_nb(1) [OF R v e(1,2)], of "t + 1"] by simp
      then have "pass_window s a v e t" using pass_tableD(3) [OF P a v e(1)] e(2) h(2) by simp
      then show "\<exists>d < 5. passes s J a v d t" using readsD(2) [OF J v2 a v e(1)] e(1,3) by blast
    qed
    ultimately show ?thesis by simp
  qed
  have shift: "cnf_true J (exactly_one_shift_clauses s) \<and> cnf_true J (next_vertex_shift_clauses s)" if v3: "variables s = 3"
  proof -
    obtain mid where P: "shift_table s (max_timestep s) mid hi" using ready_shift [OF R v3] by blast
    have found: "has_nb s v d" if "v < vertices s" "d < 5" "shift_found (SHIFT s v d) t" for v d t
      using shift_tableD(4) [OF P that(1,2)] that(3) by (simp add: may_shift_def)
    have same: "a = b" if "a < agents s" "b < agents s" "leaves s p a v d t" "leaves s p b v e t" for a b v d e t
      using settles_free(1) [OF S that(1,2), of "nat t"] that(3,4) unfolding leaves_def by metis
    have "cnf_true J (exactly_one_shift_clauses s)"
      unfolding exactly_one_shift_sem [OF P]
    proof (intro allI impI notI)
      fix v d e t assume v: "v < vertices s" and de: "d < 5" "e < 5" "d \<noteq> e" and o: "shifts s J v d t \<and> shifts s J v e t"
      obtain a where a: "a < agents s" "leaves s p a v d t" using o readsD(3) [OF J v3 v de(1)] by blast
      obtain b where b: "b < agents s" "leaves s p b v e t" using o readsD(3) [OF J v3 v de(2)] by blast
      have "a = b" by (rule same [OF a(1) b(1) a(2) b(2)])
      then have "nb s v d = nb s v e" using a(2) b(2) unfolding leaves_def by metis
      moreover have "has_nb s v d" "has_nb s v e" using found [OF v] de o by (auto simp: shifts_def)
      ultimately show False using nb_inj [OF R v de(1) _ de(2)] de(3) by blast
    qed
    moreover have "cnf_true J (next_vertex_shift_clauses s)"
      unfolding next_vertex_shift_sem [OF T P nb]
    proof (intro allI impI)
      fix a v t d assume a: "a < agents s" and v: "v < vertices s" and d: "d < 5" "has_nb s v d"
        and w: "at_window s a (nb s v d) (t + 1)" and f: "shift_found (SHIFT s v d) t" and o: "occ s J a v t"
      note u = ready_nb(1) [OF R v d] and V = settles_fin [OF R S J a v o]
      show "shifts s J v d t \<longleftrightarrow> occ s J a (nb s v d) (t + 1)"
      proof
        assume "shifts s J v d t"
        then obtain b where b: "b < agents s" "leaves s p b v d t" using readsD(3) [OF J v3 v d(1)] by blast
        then have "a = b" using settles_free(1) [OF S a b(1), of "nat t"] V(3) unfolding leaves_def by metis
        then show "occ s J a (nb s v d) (t + 1)"
          using readsD(1) [OF J a u, of "t + 1"] w b(2) V(1) by (auto simp: leaves_def nat_add_distrib)
      next
        assume "occ s J a (nb s v d) (t + 1)"
        then have "nb s v d = p a (Suc (nat t))"
          using readsD(1) [OF J a u, of "t + 1"] V(1) by (simp add: nat_add_distrib)
        then have "leaves s p a v d t" using V(1,3) by (simp add: leaves_def)
        then show "shifts s J v d t" using readsD(3) [OF J v3 v d(1)] f a by blast
      qed
    qed
    ultimately show ?thesis by simp
  qed
  show ?thesis using at pass shift enc_readyD(12) [OF R] by (auto simp: steps_cnf_def by_kind_def)
qed

lemma settles_dup:
  assumes "enc_ready s lo hi" "settles s p" "reads s J p"
  shows "dup_meaning s J"
  unfolding dup_meaning_def single_everywhere_def single_at_def
  using settles_fin(3) [OF assms] by blast

text \<open>The delay of an agent is its arrival minus its shortest path.\<close>

lemma settles_cost:
  assumes R: "enc_ready s lo hi" and S: "settles s p" and J: "reads s J p"
    and c: "\<And>a. a < agents s \<Longrightarrow> arrives (inst s) p a (c a) \<and> SP_lengths (inst s) ! a \<le> int (c a) \<and> int (c a) \<le> fin s a"
    and sum: "cost_function s = 2 \<Longrightarrow> (\<Sum>a<agents s. int (c a) - SP_lengths (inst s) ! a) \<le> delta s"
  shows "cost_meaning s J"
  unfolding cost_meaning_def
proof (intro impI, elim conjE)
  assume cf: "cost_function s = 2" and delta: "0 < delta s"
  define k where "k a = nat (int (c a) - SP_lengths (inst s) ! a)" for a
  have k: "int (k a) = int (c a) - SP_lengths (inst s) ! a" if "a < agents s" for a
    using c [OF that] by (simp add: k_def)
  have "int (\<Sum>a<agents s. k a) \<le> delta s" using sum [OF cf] k by simp
  then have total: "(\<Sum>a<agents s. k a) \<le> nat (delta s)" by linarith
  have each: "k a \<le> nat (delta s)" if "a < agents s" for a
  proof -
    have "int (k a) \<le> delta s" using k [OF that] c [OF that] cf by (simp add: cfg_fin_def)
    then show ?thesis by linarith
  qed
  have on: "at_goal_by s a d J" "not_elsewhere_by s a d J"
    if a: "a < agents s" and d: "k a \<le> d" "d < nat (delta s)" for a d
  proof -
    let ?t = "first_time s a (goal_id (inst s) a) + int d"
    have t: "0 \<le> ?t" "?t \<le> fin s a" "int (c a) \<le> ?t"
      using ready_ends(5,9) [OF R a] d k [OF a] cf by (auto simp: time_cfg cfg_fin_def)
    then have "c a \<le> nat ?t" by linarith
    then have "p a (nat ?t) = goal_id (inst s) a" using c [OF a] by (simp add: arrives_def)
    then show "at_goal_by s a d J" "not_elsewhere_by s a d J"
      using settles_reads [OF R S J a t(1,2)] readsD(1) [OF J a] by (auto simp: at_goal_by_def not_elsewhere_by_def)
  qed
  show "within_delay s (if duplicates s = 1 then at_goal_by s else not_elsewhere_by s) J"
    unfolding within_delay_def using total each on by (intro exI [of _ k]) auto
qed

lemma solution_model:
  assumes R: "enc_ready s lo hi" and enc: "amk_ok enc"
    and sol: "solution (inst s) (agents s) (movement s) (cost_function s) (cost_bound s) p"
  shows "settles s p" and "\<exists>J. base_true enc hi s J \<and> reads s J p"
proof -
  note P = solution_parts [OF sol]
  obtain c where c: "\<And>a. a < agents s \<Longrightarrow> arrives (inst s) p a (c a) \<and> SP_lengths (inst s) ! a \<le> int (c a) \<and> int (c a) \<le> fin s a"
    and sum: "cost_function s = 2 \<Longrightarrow> (\<Sum>a<agents s. int (c a) - SP_lengths (inst s) ! a) \<le> delta s"
    using solution_arrives [OF R P(1,3)] by blast
  have "arrives (inst s) p a (nat (fin s a))" if "a < agents s" for a
    using c [OF that] unfolding arrives_def by (metis nat_le_iff order_trans le_nat_iff of_nat_0_le_iff)
  then show S: "settles s p" using P by (simp add: settles_def)
  let ?I = "traj_assignment s p"
  have I: "reads s ?I p" by (rule traj_assignment_reads [OF R])
  show "\<exists>J. base_true enc hi s J \<and> reads s J p"
  proof (rule base_complete [OF R enc settles_dup [OF R S I] settles_cost [OF R S I c sum]])
    fix J assume "\<forall>x < hi. J x = ?I x"
    then have J: "reads s J p" by (rule reads_agree [OF R I])
    show "walk_meaning s J \<and> reads s J p"
      using settles_positions [OF R S J] settles_moves [OF R S J] J by (simp add: walk_meaning_def)
  qed
qed

end
