(* ===== verification/Plan_Reading.thy ===== *)
theory Plan_Reading
  imports Completeness
begin

text \<open>
  Reading a plan off a model: \<open>GetNextVertex\<close> follows the decoded trajectories for the three kinds of
  variables, \<open>NormalizePlan\<close> replaces the \<open>-1\<close> after the last timestep of an agent by its goal, and the
  plan lists the trajectories.
\<close>

section \<open>The rows\<close>

definition model_of :: "(int \<Rightarrow> int) \<Rightarrow> assignment" where
  "model_of val x \<longleftrightarrow> val x > 0"

text \<open>The three branches of \<open>GetNextVertex\<close> look for a step of \<open>goes\<close>.\<close>

lemma GetNextVertex_goes:
  assumes v3: "variables s = 1 \<or> variables s = 2 \<or> variables s = 3" and v: "v \<noteq> -1"
  shows "GetNextVertex_SAT val s a v t = first_neighbor s (nat v) (\<lambda>dir. goes s (model_of val) a (nat v) dir (t - 1))"
proof -
  let ?v = "nat v" and ?I = "model_of val"
  have at: "(used (AT s a u) \<and> \<not> (first_timestep (AT s a u) > t \<or> last_timestep (AT s a u) < t)) = at_window s a u t" for u
    by (auto simp: in_window_def used_def)
  have pass: "(used (PASS s a ?v d) \<and> \<not> (first_timestep (PASS s a ?v d) > t - 1 \<or> last_timestep (PASS s a ?v d) < t - 1)) =
      pass_window s a ?v d (t - 1)" for d
    by (auto simp: in_window_def used_def)
  have one: "variables s = 1 \<Longrightarrow> GetNextVertex_SAT val s a v t =
      first_neighbor s ?v (\<lambda>d. at_window s a (nb s ?v d) t \<and> val (at_var s a (nb s ?v d) t) > 0)"
    and two: "variables s = 2 \<Longrightarrow> GetNextVertex_SAT val s a v t =
      first_neighbor s ?v (\<lambda>d. pass_window s a ?v d (t - 1) \<and> val (pass_var s a ?v d (t - 1)) > 0)"
    and three: "variables s = 3 \<Longrightarrow> GetNextVertex_SAT val s a v t =
      first_neighbor s ?v (\<lambda>d. at_window s a (nb s ?v d) t \<and> shift_found (SHIFT s ?v d) (t - 1) \<and>
        val (shift_var s ?v d (t - 1)) > 0)"
    using v unfolding GetNextVertex_SAT_def Let_def conj_assoc [symmetric] at pass by simp_all
  show ?thesis
    using v3 one two three
    by (elim disjE) (simp_all add: goes_def by_kind_def occ_def passes_def shifts_def model_of_def)
qed

lemma length_walk [simp]: "length (walk nxt v ts) = length ts"
  by (induction ts arbitrary: v) simp_all

text \<open>The position the code reads: the decoded one up to the last timestep of the agent, then \<open>-1\<close>.\<close>

definition read_at :: "solver \<Rightarrow> assignment \<Rightarrow> nat \<Rightarrow> nat \<Rightarrow> int" where
  "read_at s I a t = (if int t \<le> fin s a then int (decode s I a t) else -1)"

lemma read_step:
  assumes R: "enc_ready s lo hi" and P: "walk_meaning s (model_of val)" and a: "a < agents s"
  shows "GetNextVertex_SAT val s a (read_at s (model_of val) a t) (int t + 1) = read_at s (model_of val) a (Suc t)"
proof -
  let ?I = "model_of val" and ?v = "decode s (model_of val) a t"
  let ?Q = "\<lambda>dir. goes s ?I a ?v dir (int t)"
  have get: "GetNextVertex_SAT val s a (int ?v) (int t + 1) = first_neighbor s ?v ?Q"
    using GetNextVertex_goes [OF enc_readyD(12) [OF R], of "int ?v"] by simp
  consider "fin s a < int t" | "int t = fin s a" | "int t < fin s a" by linarith
  then show ?thesis
  proof cases
    case 1
    then show ?thesis by (simp add: read_at_def GetNextVertex_SAT_def)
  next
    case 2
    note o = decode_occ [OF R P a, of t]
    have "first_neighbor s ?v ?Q = -1"
      by (rule first_neighbor_none) (use no_step_after [OF R a, of ?v] o 2 in simp)
    then show ?thesis using 2 get by (simp add: read_at_def)
  next
    case 3
    obtain d' where "d' < 5" "has_nb s ?v d'" "?Q d'"
      using decode_step [OF R P a] decode_occ [OF R P a, of t] 3 by auto
    from first_neighbor_found [where Q = ?Q, OF this] obtain d where "first_neighbor s ?v ?Q = int (nb s ?v d)" by blast
    then show ?thesis using 3 get by (simp add: read_at_def decode.simps(2) Let_def)
  qed
qed

lemma walk_read:
  assumes R: "enc_ready s lo hi" and P: "walk_meaning s (model_of val)" and a: "a < agents s"
  shows "walk (GetNextVertex_SAT val s a) (read_at s (model_of val) a t) [int t + 1..int t + int n] =
    map (read_at s (model_of val) a) [Suc t..<Suc t + n]"
proof (induction n arbitrary: t)
  case (Suc n)
  have "[int t + 1..int t + int (Suc n)] = (int t + 1) # [int (Suc t) + 1..int (Suc t) + int n]"
    using upto_rec1 [of "int t + 1" "int t + int (Suc n)"] by (simp add: algebra_simps)
  moreover have "[Suc t..<Suc t + Suc n] = Suc t # [Suc (Suc t)..<Suc (Suc t) + n]"
    by (simp add: upt_conv_Cons del: upt_Suc)
  ultimately show ?case using Suc [of "Suc t"] read_step [OF R P a] by simp
qed simp

lemma read_row_eq:
  assumes R: "enc_ready s lo hi" and P: "walk_meaning s (model_of val)" and a: "a < agents s"
  shows "read_row (GetNextVertex_SAT val s) s a = map (read_at s (model_of val) a) [0..<nat (max_timestep s)]"
proof -
  have pos: "0 < max_timestep s" "0 \<le> fin s a" using ready_ends(7,8) [OF R a] by auto
  then obtain n where n: "max_timestep s = int (Suc n)" using pos_int_cases [of "max_timestep s"] by (metis Suc_pred)
  have "int (start_id (inst s) a) = read_at s (model_of val) a 0" using pos(2) by (simp add: read_at_def)
  moreover have "[0..<Suc n] = 0 # [Suc 0..<Suc 0 + n]" by (simp add: upt_conv_Cons del: upt_Suc)
  ultimately show ?thesis
    using walk_read [OF R P a, of 0 n] n nat_int [of "Suc n"] by (simp add: read_row_def Let_def del: upt_Suc)
qed

section \<open>Normalising the plan\<close>

text \<open>
  A row in which \<open>-1\<close> is followed by \<open>-1\<close> or the goal only, as the rows the code reads are. The
  backward loop replaces every \<open>-1\<close> and finds the first timestep after which the agent rests.
\<close>

definition trailing :: "int \<Rightarrow> int list \<Rightarrow> bool" where
  "trailing g row \<longleftrightarrow> (\<forall>j < length row. \<forall>i < j. row ! i = -1 \<longrightarrow> row ! j = -1 \<or> row ! j = g)"

definition settled_at :: "int \<Rightarrow> int list \<Rightarrow> nat \<Rightarrow> int" where
  "settled_at g row t = (if row ! t = -1 then g else row ! t)"

definition normalized :: "int \<Rightarrow> nat \<Rightarrow> int list \<Rightarrow> nat \<Rightarrow> int list \<times> nat \<Rightarrow> bool" where
  "normalized g t row m res \<longleftrightarrow>
     length (fst res) = length row \<and> m \<le> snd res \<and>
     (\<forall>i < length row. fst res ! i = (if i < t then settled_at g row i else row ! i)) \<and>
     (\<forall>i < t. snd res \<le> i + 1 \<longrightarrow> settled_at g row i = g) \<and>
     (snd res = m \<or> (\<exists>i < t. settled_at g row i \<noteq> g \<and> snd res = i + 2))"

lemma normalize_row_normalized:
  "t \<le> length row \<Longrightarrow> trailing g row \<Longrightarrow> normalized g t row m (normalize_row g t row m)"
proof (induction t arbitrary: row)
  case 0
  then show ?case by (simp add: normalized_def)
next
  case (Suc t)
  let ?row = "if row ! t = -1 then row[t := g] else row"
  have now: "?row ! t = settled_at g row t" using Suc.prems(1) by (simp add: settled_at_def)
  have old: "?row ! i = row ! i" if "i \<noteq> t" for i using that by simp
  show ?case
  proof (cases "settled_at g row t = g")
    case True
    have "trailing g ?row"
      unfolding trailing_def
    proof (intro allI impI)
      fix i j assume ij: "j < length ?row" "i < j" "?row ! i = -1"
      show "?row ! j = -1 \<or> ?row ! j = g"
      proof (cases "j = t")
        case True
        then show ?thesis using now \<open>settled_at g row t = g\<close> by simp
      next
        case False
        have "row ! i = -1" using ij(3) Suc.prems(1) by (cases "i = t") (auto split: if_splits)
        then show ?thesis using Suc.prems(2) ij old [OF False] unfolding trailing_def by (simp split: if_splits)
      qed
    qed
    then have IH: "normalized g t ?row m (normalize_row g t ?row m)"
      using Suc.prems(1) by (intro Suc.IH) auto
    have same: "settled_at g ?row i = settled_at g row i" if "i < t" for i
      using old [of i] that by (simp add: settled_at_def)
    have "normalize_row g (Suc t) row m = normalize_row g t ?row m"
      using now True by (simp add: Let_def)
    then show ?thesis
      using IH same now True old unfolding normalized_def
      by (auto simp: less_Suc_eq split: if_splits)
  next
    case False
    have "row ! i \<noteq> -1" if "i < t" for i
      using Suc.prems that False unfolding trailing_def settled_at_def by (metis Suc_le_lessD)
    then have "settled_at g row i = row ! i" if "i < t" for i using that by (simp add: settled_at_def)
    then have "fst (?row, max m (t + 2)) ! i = (if i < Suc t then settled_at g row i else row ! i)" for i
      using now old [of i] by (simp add: less_Suc_eq)
    moreover have "normalize_row g (Suc t) row m = (?row, max m (t + 2))" using now False by (simp add: Let_def)
    ultimately show ?thesis
      using False unfolding normalized_def by (auto simp: max_def)
  qed
qed

lemma thread_grow:
  assumes "\<And>k m. k \<in> set ks \<Longrightarrow> m \<le> snd (f k m)"
  shows "m \<le> snd (thread f ks (m::nat)) \<and> (\<forall>i < length ks. \<exists>j. fst (thread f ks m) ! i = fst (f (ks ! i) j) \<and>
    m \<le> j \<and> snd (f (ks ! i) j) \<le> snd (thread f ks m))"
  using assms
proof (induction ks arbitrary: m)
  case (Cons k ks)
  let ?m = "snd (f k m)"
  have m: "m \<le> ?m" using Cons.prems by simp
  have IH: "?m \<le> snd (thread f ks ?m) \<and> (\<forall>i < length ks. \<exists>j. fst (thread f ks ?m) ! i = fst (f (ks ! i) j) \<and>
    ?m \<le> j \<and> snd (f (ks ! i) j) \<le> snd (thread f ks ?m))"
    using Cons.prems by (intro Cons.IH) simp
  have "\<exists>j. fst (thread f (k # ks) m) ! i = fst (f ((k # ks) ! i) j) \<and> m \<le> j \<and>
      snd (f ((k # ks) ! i) j) \<le> snd (thread f (k # ks) m)" if "i < length (k # ks)" for i
  proof (cases i)
    case 0
    then show ?thesis using m IH by (intro exI [of _ m]) (simp add: fst_thread_Cons snd_thread_Cons)
  next
    case (Suc i')
    then have "i' < length ks" using that by simp
    then obtain j where "fst (thread f ks ?m) ! i' = fst (f (ks ! i') j)" "?m \<le> j"
      "snd (f (ks ! i') j) \<le> snd (thread f ks ?m)" using IH by blast
    then show ?thesis using Suc m by (intro exI [of _ j]) (simp add: fst_thread_Cons snd_thread_Cons)
  qed
  then show ?case using m IH by (simp add: snd_thread_Cons)
qed simp

lemma thread_bound:
  assumes "\<And>k m. k \<in> set ks \<Longrightarrow> m \<le> b \<Longrightarrow> snd (f k m) \<le> b"
  shows "m \<le> b \<Longrightarrow> snd (thread f ks (m::nat)) \<le> b"
  using assms by (induction ks arbitrary: m) (simp_all add: snd_thread_Cons)

text \<open>\<open>NormalizePlan\<close> on rows that follow given trajectories.\<close>

lemma NormalizePlan_follows:
  assumes len: "\<And>a. a < length (plan s) \<Longrightarrow> length (plan s ! a) = N" and N: "1 \<le> N"
    and trail: "\<And>a. a < length (plan s) \<Longrightarrow> trailing (int (goal_id (inst s) a)) (plan s ! a)"
    and val: "\<And>a t. a < length (plan s) \<Longrightarrow> t < N \<Longrightarrow>
      settled_at (int (goal_id (inst s) a)) (plan s ! a) t = int (p a t)"
    and rest: "\<And>a t. a < length (plan s) \<Longrightarrow> N \<le> t + 1 \<Longrightarrow> p a t = goal_id (inst s) a"
  shows "\<exists>M. fst (NormalizePlan s) = M \<and> 1 \<le> M \<and> M \<le> N \<and>
    (\<forall>a < length (plan s). plan (snd (NormalizePlan s)) ! a = map (\<lambda>t. int (p a t)) [0..<M] \<and>
       (\<forall>t. M \<le> t + 1 \<longrightarrow> p a t = goal_id (inst s) a)) \<and>
    length (plan (snd (NormalizePlan s))) = length (plan s)"
proof -
  let ?g = "\<lambda>a. int (goal_id (inst s) a)"
  let ?f = "\<lambda>a m. normalize_row (?g a) (length (plan s ! a)) (plan s ! a) m"
  let ?ks = "[0..<length (plan s)]"
  let ?M = "snd (thread ?f ?ks 1)" and ?rows = "fst (thread ?f ?ks 1)"
  have norm: "normalized (?g a) N (plan s ! a) m (?f a m)" if "a < length (plan s)" for a m
    using normalize_row_normalized [OF order_refl trail [OF that]] len [OF that] by simp
  have grow: "m \<le> snd (?f a m)" if "a \<in> set ?ks" for a m
    using norm [of a m] that by (simp add: normalized_def)
  have bound: "snd (?f a m) \<le> N" if a: "a \<in> set ?ks" and m: "m \<le> N" for a m
  proof -
    have al: "a < length (plan s)" using a by simp
    have "i + 2 \<le> N" if i: "i < N" "settled_at (?g a) (plan s ! a) i \<noteq> ?g a" for i
      using i val [OF al i(1)] rest [OF al, of i] by fastforce
    then show ?thesis using norm [OF al, of m] m unfolding normalized_def by auto
  qed
  note T = thread_grow [where f = ?f and ks = ?ks and m = 1, OF grow]
  have M: "1 \<le> ?M" "?M \<le> N" using T thread_bound [where f = ?f and ks = ?ks and b = N, OF bound N] by simp_all
  have eq: "NormalizePlan s = (?M, s\<lparr>plan := map (resize ?M) ?rows\<rparr>)"
    by (simp add: NormalizePlan_def case_prod_beta Let_def)
  have row: "resize ?M (?rows ! a) = map (\<lambda>t. int (p a t)) [0..<?M]" (is ?A)
    and stay: "\<forall>t. ?M \<le> t + 1 \<longrightarrow> p a t = goal_id (inst s) a" (is ?B)
    if a: "a < length (plan s)" for a
  proof -
    obtain j where j: "?rows ! a = fst (?f a j)" "snd (?f a j) \<le> ?M" using T a by auto
    note n = norm [OF a, of j, unfolded normalized_def]
    have l: "length (?rows ! a) = N" using n len [OF a] j(1) by simp
    have "?rows ! a ! t = int (p a t)" if "t < N" for t
      using n val [OF a that] that len [OF a] j(1) by simp
    then show ?A using l M(2) by (intro nth_equalityI) (simp_all add: resize_def)
    show ?B
    proof (intro allI impI)
      fix t assume t: "?M \<le> t + 1"
      show "p a t = goal_id (inst s) a"
      proof (cases "t < N")
        case True
        then have "settled_at (?g a) (plan s ! a) t = ?g a" using n t j(2) by auto
        then show ?thesis using val [OF a True] by simp
      next
        case False
        then show ?thesis using rest [OF a] by simp
      qed
    qed
  qed
  have "length ?rows = length (plan s)" by simp
  then show ?thesis using M row stay unfolding eq by (intro exI [of _ ?M]) simp
qed

lemma plan_follows_traj:
  assumes "plan_follows i n P p" "a < n"
  shows "plan_traj i P a = p a"
proof
  fix t
  show "plan_traj i P a t = p a t" using assms by (auto simp: plan_follows_def plan_traj_def)
qed

lemma read_plan_follows:
  assumes R: "enc_ready s lo hi" and P: "walk_meaning s (model_of val)"
  shows "plan_follows (inst s) (agents s) (plan (read_plan (GetNextVertex_SAT val s) s)) (decode s (model_of val))"
proof -
  let ?p = "decode s (model_of val)" and ?rows = "map (read_row (GetNextVertex_SAT val s) s) [0..<agents s]"
  let ?N = "nat (max_timestep s)"
  have rows: "?rows ! a = map (read_at s (model_of val) a) [0..<?N]" if "a < agents s" for a
    using read_row_eq [OF R P that] that by simp
  show ?thesis
  proof (cases "agents s = 0")
    case True
    then show ?thesis
      by (auto simp: read_plan_def plan_follows_def NormalizePlan_def Let_def case_prod_beta)
  next
    case False
    then have N: "1 \<le> ?N" using ready_ends(7,8) [OF R, of 0] by simp
    have rest: "?p a t = goal_id (inst s) a" if a: "a < agents s" and t: "?N \<le> t + 1" for a t
      using decode_goal [OF R P a, of t] ready_ends(8) [OF R a] t by simp
    show ?thesis
    proof (cases "cost_function s = 2")
      case False
      then have "cost_function s = 1" using enc_readyD(8) [OF R] by simp
      then have "read_at s (model_of val) a t = int (?p a t)" if "t < ?N" for a t
        using that by (simp add: read_at_def cfg_fin_def)
      then have "?rows ! a = map (\<lambda>t. int (?p a t)) [0..<?N]" if "a < agents s" for a
        using rows [OF that] by simp
      then show ?thesis
        using False N rest unfolding plan_follows_def read_plan_def Let_def
        by (intro conjI exI [of _ ?N]) simp_all
    next
      case True
      let ?s = "s\<lparr>plan := ?rows\<rparr>"
      have "trailing (int (goal_id (inst s) a)) (?rows ! a)" if a: "a < agents s" for a
        using rows [OF a] by (auto simp: trailing_def read_at_def)
      moreover have "settled_at (int (goal_id (inst s) a)) (?rows ! a) t = int (?p a t)"
        if a: "a < agents s" and t: "t < ?N" for a t
        using rows [OF a] t decode_goal [OF R P a, of t] by (simp add: settled_at_def read_at_def)
      ultimately obtain M where "1 \<le> M" "\<forall>a < agents s. plan (snd (NormalizePlan ?s)) ! a = map (\<lambda>t. int (?p a t)) [0..<M] \<and>
          (\<forall>t. M \<le> t + 1 \<longrightarrow> ?p a t = goal_id (inst s) a)" "length (plan (snd (NormalizePlan ?s))) = agents s"
        using NormalizePlan_follows [of ?s ?N ?p] rows rest N by auto
      then show ?thesis using True by (auto simp: plan_follows_def read_plan_def Let_def)
    qed
  qed
qed

end
