(* ===== verification/Collisions.thy ===== *)
theory Collisions
  imports Completeness
begin

text \<open>
  What \<open>VerifyPlan\<close> reports and what \<open>GenerateConflicts\<close> collects, for a plan that lists trajectories:
  both find nothing exactly when the trajectories are free of collisions.
\<close>

section \<open>The conflicts that are collected\<close>

definition vertex_found :: "int list list \<Rightarrow> nat \<times> nat \<times> nat \<Rightarrow> (nat \<times> nat \<times> nat \<times> int) list" where
  "vertex_found P = (\<lambda>(a, b, t). if P ! a ! t = P ! b ! t then [(a, b, nat (P ! a ! t), int t)] else [])"

definition swap_found :: "int list list \<Rightarrow> nat \<times> nat \<times> nat \<Rightarrow> (nat \<times> nat \<times> nat \<times> nat \<times> int) list" where
  "swap_found P = (\<lambda>(a, b, t).
     if t < length (P ! a) - 1 \<and> P ! a ! t = P ! b ! (t + 1) \<and> P ! a ! (t + 1) = P ! b ! t \<and> P ! a ! t \<noteq> P ! b ! t
     then [(a, b, nat (P ! a ! t), nat (P ! a ! (t + 1)), int t)] else [])"

text \<open>\<open>a\<close> enters at \<open>t + 1\<close> the vertex where \<open>b\<close> is at \<open>t\<close>.\<close>

definition enter_found :: "nat \<Rightarrow> int list list \<Rightarrow> nat \<Rightarrow> nat \<Rightarrow> nat \<Rightarrow> (nat \<times> nat \<times> nat \<times> nat \<times> int) list" where
  "enter_found len P a b t =
     (if t < len - 1 \<and> P ! b ! t = P ! a ! (t + 1) \<and> P ! a ! t \<noteq> P ! a ! (t + 1)
      then [(a, b, nat (P ! a ! t), nat (P ! a ! (t + 1)), int t + 1)] else [])"

definition pebble_found :: "nat \<Rightarrow> int list list \<Rightarrow> nat \<times> nat \<times> nat \<Rightarrow> (nat \<times> nat \<times> nat \<times> nat \<times> int) list" where
  "pebble_found mv P = (\<lambda>(a, b, t).
     if mv = 2 then enter_found (length (P ! a)) P b a t @ enter_found (length (P ! a)) P a b t else [])"

definition found_any :: "nat \<Rightarrow> int list list \<Rightarrow> nat \<times> nat \<times> nat \<Rightarrow> bool" where
  "found_any mv P x \<longleftrightarrow> vertex_found P x \<noteq> [] \<or> swap_found P x \<noteq> [] \<or> pebble_found mv P x \<noteq> []"

lemma conflicts_at_eq:
  "conflicts_at x s = s\<lparr>conflicts_present := conflicts_present s \<or> found_any (movement s) (plan s) x,
     vertex_conflicts := vertex_conflicts s @ vertex_found (plan s) x,
     swap_conflicts := swap_conflicts s @ swap_found (plan s) x,
     pebble_conflicts := pebble_conflicts s @ pebble_found (movement s) (plan s) x\<rparr>"
proof -
  obtain a b t where x: "x = (a, b, t)" by (cases x) auto
  let ?P = "plan s"
  show ?thesis
    unfolding x conflicts_at_def found_any_def vertex_found_def swap_found_def pebble_found_def enter_found_def prod.case Let_def
    by (cases "?P ! a ! t = ?P ! b ! t"; cases "?P ! a ! t = ?P ! b ! (t + 1)"; cases "?P ! a ! (t + 1) = ?P ! b ! t";
        cases "movement s = 2"; cases "t < length (?P ! a) - 1"; simp)
qed

lemma fold_conflicts_at:
  "fold conflicts_at xs s = s\<lparr>conflicts_present := conflicts_present s \<or> (\<exists>x \<in> set xs. found_any (movement s) (plan s) x),
     vertex_conflicts := vertex_conflicts s @ concat (map (vertex_found (plan s)) xs),
     swap_conflicts := swap_conflicts s @ concat (map (swap_found (plan s)) xs),
     pebble_conflicts := pebble_conflicts s @ concat (map (pebble_found (movement s) (plan s)) xs)\<rparr>"
  by (induction xs arbitrary: s) (auto simp: conflicts_at_eq)

lemma GenerateConflicts_eq:
  "GenerateConflicts s = s\<lparr>
     conflicts_present := conflicts_present s \<or> (\<exists>x \<in> set (plan_triples (plan s)). found_any (movement s) (plan s) x),
     vertex_conflicts := concat (map (vertex_found (plan s)) (plan_triples (plan s))),
     swap_conflicts := concat (map (swap_found (plan s)) (plan_triples (plan s))),
     pebble_conflicts := concat (map (pebble_found (movement s) (plan s)) (plan_triples (plan s)))\<rparr>"
  by (simp add: GenerateConflicts_def fold_conflicts_at)

lemma set_plan_triples: "(a, b, t) \<in> set (plan_triples P) \<longleftrightarrow> a < b \<and> b < length P \<and> t < length (P ! a)"
proof -
  have eq: "set (plan_triples P) = (\<Union>a \<in> {0..<length P}. \<Union>b \<in> {a + 1..<length P}. (\<lambda>t. (a, b, t)) ` {0..<length (P ! a)})"
    by (simp add: plan_triples_def)
  show ?thesis
  proof
    assume "(a, b, t) \<in> set (plan_triples P)"
    then show "a < b \<and> b < length P \<and> t < length (P ! a)" unfolding eq by auto
  next
    assume "a < b \<and> b < length P \<and> t < length (P ! a)"
    then show "(a, b, t) \<in> set (plan_triples P)"
      unfolding eq by (intro UN_I [of a] UN_I [of b] imageI) simp_all
  qed
qed

section \<open>The plan lists trajectories\<close>

text \<open>Two trajectories collide at a timestep below \<open>M\<close>, or between two such timesteps.\<close>

definition vertex_at :: "nat \<Rightarrow> trajectories \<Rightarrow> nat \<Rightarrow> nat \<Rightarrow> nat \<Rightarrow> bool" where
  "vertex_at M p a b t \<longleftrightarrow> t < M \<and> p a t = p b t"

definition swap_at :: "nat \<Rightarrow> trajectories \<Rightarrow> nat \<Rightarrow> nat \<Rightarrow> nat \<Rightarrow> bool" where
  "swap_at M p a b t \<longleftrightarrow> t + 1 < M \<and> p a t = p b (t + 1) \<and> p a (t + 1) = p b t \<and> p a t \<noteq> p b t"

definition enter_at :: "nat \<Rightarrow> trajectories \<Rightarrow> nat \<Rightarrow> nat \<Rightarrow> nat \<Rightarrow> bool" where
  "enter_at M p a b t \<longleftrightarrow> t + 1 < M \<and> p b t = p a (t + 1) \<and> p a t \<noteq> p a (t + 1)"

definition lists :: "nat \<Rightarrow> nat \<Rightarrow> int list list \<Rightarrow> trajectories \<Rightarrow> bool" where
  "lists n M P p \<longleftrightarrow> length P = n \<and> (\<forall>a < n. P ! a = map (\<lambda>t. int (p a t)) [0..<M])"

lemma listsD:
  assumes "lists n M P p"
  shows "length P = n" "a < n \<Longrightarrow> length (P ! a) = M" "a < n \<Longrightarrow> t < M \<Longrightarrow> P ! a ! t = int (p a t)"
  using assms by (simp_all add: lists_def)

lemma plan_follows_lists:
  "plan_follows i n P p \<Longrightarrow> \<exists>M \<ge> 1. lists n M P p \<and> (\<forall>a < n. \<forall>t. M \<le> t + 1 \<longrightarrow> p a t = goal_id i a)"
  unfolding plan_follows_def lists_def by blast

lemma found_lists:
  assumes L: "lists n M P p" and ab: "a < n" "b < n" and t: "t < M"
  shows "vertex_found P (a, b, t) = (if vertex_at M p a b t then [(a, b, p a t, int t)] else [])"
    "swap_found P (a, b, t) = (if swap_at M p a b t then [(a, b, p a t, p a (t + 1), int t)] else [])"
    "enter_found M P a b t = (if enter_at M p a b t then [(a, b, p a t, p a (t + 1), int t + 1)] else [])"
proof -
  have now: "P ! a ! t = int (p a t)" "P ! b ! t = int (p b t)" using listsD(3) [OF L] ab t by simp_all
  have next_t: "P ! a ! (t + 1) = int (p a (t + 1))" "P ! b ! (t + 1) = int (p b (t + 1))" if "t + 1 < M"
    using listsD(3) [OF L] ab that by simp_all
  have len: "length (P ! a) = M" using listsD(2) [OF L] ab by simp
  show "vertex_found P (a, b, t) = (if vertex_at M p a b t then [(a, b, p a t, int t)] else [])"
    using now t by (simp add: vertex_found_def vertex_at_def)
  show "swap_found P (a, b, t) = (if swap_at M p a b t then [(a, b, p a t, p a (t + 1), int t)] else [])"
    using now next_t len by (cases "t + 1 < M") (auto simp: swap_found_def swap_at_def less_diff_conv)
  show "enter_found M P a b t = (if enter_at M p a b t then [(a, b, p a t, p a (t + 1), int t + 1)] else [])"
    using now next_t by (cases "t + 1 < M") (auto simp: enter_found_def enter_at_def less_diff_conv)
qed

lemma pebble_lists:
  assumes L: "lists n M P p" and ab: "a < n" "b < n" and t: "t < M"
  shows "pebble_found mv P (a, b, t) =
    (if mv = 2 \<and> enter_at M p b a t then [(b, a, p b t, p b (t + 1), int t + 1)] else []) @
    (if mv = 2 \<and> enter_at M p a b t then [(a, b, p a t, p a (t + 1), int t + 1)] else [])"
  using found_lists(3) [OF L ab t] found_lists(3) [OF L ab(2,1) t] listsD(2) [OF L ab(1)]
  by (simp add: pebble_found_def)

text \<open>The three lists of conflicts, as sets.\<close>

lemma set_found:
  assumes L: "lists n M P p"
  shows "q \<in> set (concat (map f (plan_triples P))) \<longleftrightarrow> (\<exists>a b k. a < b \<and> b < n \<and> k < M \<and> q \<in> set (f (a, b, k)))"
proof -
  have tr: "(a, b, k) \<in> set (plan_triples P) \<longleftrightarrow> a < b \<and> b < n \<and> k < M" for a b k
    using listsD(1,2) [OF L] by (auto simp: set_plan_triples)
  have "q \<in> set (concat (map f (plan_triples P))) \<longleftrightarrow> (\<exists>x \<in> set (plan_triples P). q \<in> set (f x))" by simp
  also have "\<dots> \<longleftrightarrow> (\<exists>a b k. a < b \<and> b < n \<and> k < M \<and> q \<in> set (f (a, b, k)))"
    unfolding Bex_def split_paired_Ex tr by blast
  finally show ?thesis .
qed

lemma conflict_sets:
  assumes L: "lists n M P p"
  shows "(a, b, v, t) \<in> set (concat (map (vertex_found P) (plan_triples P))) \<longleftrightarrow>
      a < b \<and> b < n \<and> (\<exists>k. t = int k \<and> v = p a k \<and> vertex_at M p a b k)"
    and "(a, b, v, u, t) \<in> set (concat (map (swap_found P) (plan_triples P))) \<longleftrightarrow>
      a < b \<and> b < n \<and> (\<exists>k. t = int k \<and> v = p a k \<and> u = p a (k + 1) \<and> swap_at M p a b k)"
    and "(a, b, v, u, t) \<in> set (concat (map (pebble_found mv P) (plan_triples P))) \<longleftrightarrow>
      mv = 2 \<and> a \<noteq> b \<and> a < n \<and> b < n \<and> (\<exists>k. t = int k + 1 \<and> v = p a k \<and> u = p a (k + 1) \<and> enter_at M p a b k)"
proof -
  have M: "vertex_at M p a b k \<Longrightarrow> k < M" "swap_at M p a b k \<Longrightarrow> k < M" "enter_at M p a b k \<Longrightarrow> k < M" for a b k
    by (simp_all add: vertex_at_def swap_at_def enter_at_def)
  have 1: "x < y \<Longrightarrow> y < n \<Longrightarrow> k < M \<Longrightarrow> (a, b, v, t) \<in> set (vertex_found P (x, y, k)) \<longleftrightarrow>
      vertex_at M p x y k \<and> a = x \<and> b = y \<and> v = p x k \<and> t = int k" for x y k
    using found_lists(1) [OF L, of x y k] by auto
  show "(a, b, v, t) \<in> set (concat (map (vertex_found P) (plan_triples P))) \<longleftrightarrow>
      a < b \<and> b < n \<and> (\<exists>k. t = int k \<and> v = p a k \<and> vertex_at M p a b k)"
    unfolding set_found [OF L] using 1 M(1) by blast
  have 2: "x < y \<Longrightarrow> y < n \<Longrightarrow> k < M \<Longrightarrow> (a, b, v, u, t) \<in> set (swap_found P (x, y, k)) \<longleftrightarrow>
      swap_at M p x y k \<and> a = x \<and> b = y \<and> v = p x k \<and> u = p x (k + 1) \<and> t = int k" for x y k
    using found_lists(2) [OF L, of x y k] by auto
  show "(a, b, v, u, t) \<in> set (concat (map (swap_found P) (plan_triples P))) \<longleftrightarrow>
      a < b \<and> b < n \<and> (\<exists>k. t = int k \<and> v = p a k \<and> u = p a (k + 1) \<and> swap_at M p a b k)"
    unfolding set_found [OF L] using 2 M(2) by blast
  have 3: "x < y \<Longrightarrow> y < n \<Longrightarrow> k < M \<Longrightarrow> (a, b, v, u, t) \<in> set (pebble_found mv P (x, y, k)) \<longleftrightarrow>
      mv = 2 \<and> (a = x \<and> b = y \<or> a = y \<and> b = x) \<and> enter_at M p a b k \<and> v = p a k \<and> u = p a (k + 1) \<and> t = int k + 1" for x y k
    using pebble_lists [OF L, of x y k mv] by auto
  show "(a, b, v, u, t) \<in> set (concat (map (pebble_found mv P) (plan_triples P))) \<longleftrightarrow>
      mv = 2 \<and> a \<noteq> b \<and> a < n \<and> b < n \<and> (\<exists>k. t = int k + 1 \<and> v = p a k \<and> u = p a (k + 1) \<and> enter_at M p a b k)" (is "?l \<longleftrightarrow> ?r")
  proof
    assume ?l
    then show ?r unfolding set_found [OF L] using 3 by fastforce
  next
    assume r: ?r
    then obtain k where k: "t = int k + 1" "v = p a k" "u = p a (k + 1)" "enter_at M p a b k" by blast
    have "\<exists>x y. x < y \<and> y < n \<and> (a = x \<and> b = y \<or> a = y \<and> b = x)" using r by (metis nat_neq_iff)
    then show ?l unfolding set_found [OF L] using 3 k M(3) r by blast
  qed
qed

section \<open>Nothing is found exactly when there is no collision\<close>

lemma no_conflict_iff:
  assumes M: "1 \<le> M" and rest: "\<And>a t. a < n \<Longrightarrow> M \<le> t + 1 \<Longrightarrow> p a t = g a" and mv: "mv = 1 \<or> mv = 2"
  shows "(\<forall>a b t. a < b \<longrightarrow> b < n \<longrightarrow> \<not> vertex_at M p a b t \<and> \<not> swap_at M p a b t \<and>
      (mv = 2 \<longrightarrow> \<not> enter_at M p a b t \<and> \<not> enter_at M p b a t)) \<longleftrightarrow> collision_free mv n p" (is "?l \<longleftrightarrow> ?r")
proof
  assume l: ?l
  have vertex: "p a t \<noteq> p b t" if "a < n" "b < n" "a \<noteq> b" for a b t
  proof -
    have "\<not> vertex_at M p a b t" if "a < b" "b < n" for a b t using l that by blast
    then have below: "p a t \<noteq> p b t" if "a < n" "b < n" "a \<noteq> b" "t < M" for a b t
      using that unfolding vertex_at_def by (metis nat_neq_iff)
    show ?thesis
    proof (cases "t < M")
      case False
      then have "p a t = p a (M - 1)" "p b t = p b (M - 1)" using rest that M by simp_all
      then show ?thesis using below [OF that, of "M - 1"] M by simp
    qed (rule below [OF that])
  qed
  have edge: "t + 1 < M" if "p c t \<noteq> p c (t + 1)" "c < n" for c t
    using rest [OF that(2), of t] rest [OF that(2), of "t + 1"] that(1) by (cases "t + 1 < M") auto
  have swap: "\<not> (p a t = p b (Suc t) \<and> p a (Suc t) = p b t)" if ab: "a < n" "b < n" "a < b" for a b t
  proof
    assume s: "p a t = p b (Suc t) \<and> p a (Suc t) = p b t"
    then have "p a t \<noteq> p a (t + 1)" using vertex [of a b t] ab by auto
    from edge [OF this ab(1)] have "swap_at M p a b t" using s vertex [of a b t] ab unfolding swap_at_def by simp
    then show False using l ab by blast
  qed
  have enter: "p a (Suc t) \<noteq> p b t" if ab: "a < n" "b < n" "a \<noteq> b" and m2: "mv = 2" for a b t
  proof
    assume s: "p a (Suc t) = p b t"
    then have "p a t \<noteq> p a (t + 1)" using vertex [of a b t] ab by auto
    from edge [OF this ab(1)] have "enter_at M p a b t" using s \<open>p a t \<noteq> p a (t + 1)\<close> unfolding enter_at_def by simp
    then show False using l ab m2 by (metis nat_neq_iff)
  qed
  show ?r
    unfolding collision_free_def
  proof (intro allI impI conjI)
    fix a b t assume ab: "a < n" "b < n" "a \<noteq> b"
    show "p a t \<noteq> p b t" by (rule vertex [OF ab])
    show "\<not> (p a t = p b (Suc t) \<and> p a (Suc t) = p b t)" using swap [of a b t] swap [of b a t] ab by (cases "a < b") auto
    show "mv = 2 \<Longrightarrow> p a (Suc t) \<noteq> p b t" by (rule enter [OF ab])
  qed
next
  assume ?r
  then have free: "p a t \<noteq> p b t" "mv = 1 \<Longrightarrow> \<not> (p a t = p b (Suc t) \<and> p a (Suc t) = p b t)" "mv = 2 \<Longrightarrow> p a (Suc t) \<noteq> p b t"
    if "a < n" "b < n" "a \<noteq> b" for a b t using that unfolding collision_free_def by blast+
  show ?l
  proof (intro allI impI conjI)
    fix a b t assume "a < b" "b < n"
    then have ab: "a < n" "b < n" "a \<noteq> b" and ba: "b < n" "a < n" "b \<noteq> a" by auto
    show "\<not> vertex_at M p a b t" using free(1) [OF ab] by (simp add: vertex_at_def)
    show "\<not> swap_at M p a b t" using free(2,3) [OF ab, of t] mv by (auto simp: swap_at_def)
    show "\<not> enter_at M p a b t" if "mv = 2" using free(3) [OF ab that, of t] by (auto simp: enter_at_def)
    show "\<not> enter_at M p b a t" if "mv = 2" using free(3) [OF ba that, of t] by (auto simp: enter_at_def)
  qed
qed

text \<open>The conflicts of a plan are present exactly when its trajectories collide.\<close>

lemma GenerateConflicts_present:
  assumes P: "plan_follows (inst s) (agents s) (plan s) p" and mv: "movement s = 1 \<or> movement s = 2"
    and new: "\<not> conflicts_present s"
  shows "conflicts_present (GenerateConflicts s) \<longleftrightarrow> \<not> collision_free (movement s) (agents s) p"
proof -
  obtain M where M: "1 \<le> M" and L: "lists (agents s) M (plan s) p"
    and rest: "\<And>a t. a < agents s \<Longrightarrow> M \<le> t + 1 \<Longrightarrow> p a t = goal_id (inst s) a"
    using plan_follows_lists [OF P] by blast
  have tr: "(x, y, k) \<in> set (plan_triples (plan s)) \<longleftrightarrow> x < y \<and> y < agents s \<and> k < M" for x y k
    using listsD(1,2) [OF L] by (auto simp: set_plan_triples)
  have any: "found_any (movement s) (plan s) (a, b, t) \<longleftrightarrow>
      vertex_at M p a b t \<or> swap_at M p a b t \<or> movement s = 2 \<and> (enter_at M p b a t \<or> enter_at M p a b t)"
    if "a < b" "b < agents s" "t < M" for a b t
    using found_lists [OF L, of a b t] pebble_lists [OF L, of a b t "movement s"] that by (simp add: found_any_def)
  have below: "vertex_at M p a b t \<or> swap_at M p a b t \<or> enter_at M p a b t \<Longrightarrow> t < M" for a b t
    by (auto simp: vertex_at_def swap_at_def enter_at_def)
  have "conflicts_present (GenerateConflicts s) \<longleftrightarrow> (\<exists>x \<in> set (plan_triples (plan s)). found_any (movement s) (plan s) x)"
    using new by (simp add: GenerateConflicts_eq)
  also have "\<dots> \<longleftrightarrow> (\<exists>a b t. a < b \<and> b < agents s \<and> t < M \<and> found_any (movement s) (plan s) (a, b, t))"
    unfolding Bex_def split_paired_Ex tr by blast
  also have "\<dots> \<longleftrightarrow> \<not> (\<forall>a b t. a < b \<longrightarrow> b < agents s \<longrightarrow> \<not> vertex_at M p a b t \<and> \<not> swap_at M p a b t \<and>
      (movement s = 2 \<longrightarrow> \<not> enter_at M p a b t \<and> \<not> enter_at M p b a t))"
    using any below by blast
  also have "\<dots> \<longleftrightarrow> \<not> collision_free (movement s) (agents s) p"
    using no_conflict_iff [OF M rest mv] by simp
  finally show ?thesis .
qed

text \<open>\<open>VerifyPlan\<close> reports nothing exactly when the trajectories do not collide.\<close>

lemma VerifyPlan_triples:
  "VerifyPlan s = concat (map (\<lambda>(a, b, t). verify_at (movement s) (plan s) a b t) (plan_triples (plan s)))"
  by (simp add: VerifyPlan_def plan_triples_def map_concat comp_def)

lemma verify_at_silent:
  assumes L: "lists n M P p" and ab: "a < n" "b < n" and t: "t < M"
  shows "verify_at mv P a b t = [] \<longleftrightarrow> \<not> vertex_at M p a b t \<and> \<not> swap_at M p a b t \<and>
    (mv = 2 \<longrightarrow> \<not> enter_at M p a b t \<and> \<not> enter_at M p b a t)"
proof -
  have len: "length (P ! a) = M" and now: "P ! a ! t = int (p a t)" "P ! b ! t = int (p b t)"
    using listsD(2,3) [OF L] ab t by simp_all
  have later: "P ! a ! (t + 1) = int (p a (t + 1))" "P ! b ! (t + 1) = int (p b (t + 1))" if "t + 1 < M"
    using listsD(3) [OF L] ab that by simp_all
  show ?thesis
    using now later t
    by (cases "t + 1 < M") (auto simp: verify_at_def len vertex_at_def swap_at_def enter_at_def less_diff_conv)
qed

lemma VerifyPlan_silent_iff:
  assumes P: "plan_follows (inst s) (agents s) (plan s) p" and mv: "movement s = 1 \<or> movement s = 2"
  shows "VerifyPlan s = [] \<longleftrightarrow> collision_free (movement s) (agents s) p"
proof -
  obtain M where M: "1 \<le> M" and L: "lists (agents s) M (plan s) p"
    and rest: "\<And>a t. a < agents s \<Longrightarrow> M \<le> t + 1 \<Longrightarrow> p a t = goal_id (inst s) a"
    using plan_follows_lists [OF P] by blast
  have tr: "(x, y, k) \<in> set (plan_triples (plan s)) \<longleftrightarrow> x < y \<and> y < agents s \<and> k < M" for x y k
    using listsD(1,2) [OF L] by (auto simp: set_plan_triples)
  have below: "vertex_at M p a b t \<or> swap_at M p a b t \<or> enter_at M p a b t \<Longrightarrow> t < M" for a b t
    by (auto simp: vertex_at_def swap_at_def enter_at_def)
  have "VerifyPlan s = [] \<longleftrightarrow> (\<forall>a b t. a < b \<longrightarrow> b < agents s \<longrightarrow> t < M \<longrightarrow> verify_at (movement s) (plan s) a b t = [])"
  proof -
    have "VerifyPlan s = [] \<longleftrightarrow> (\<forall>x \<in> set (plan_triples (plan s)). (case x of (a, b, t) \<Rightarrow> verify_at (movement s) (plan s) a b t) = [])"
      by (simp add: VerifyPlan_triples)
    then show ?thesis unfolding Ball_def split_paired_All tr prod.case by blast
  qed
  also have "\<dots> \<longleftrightarrow> (\<forall>a b t. a < b \<longrightarrow> b < agents s \<longrightarrow> \<not> vertex_at M p a b t \<and> \<not> swap_at M p a b t \<and>
      (movement s = 2 \<longrightarrow> \<not> enter_at M p a b t \<and> \<not> enter_at M p b a t))"
  proof -
    have "verify_at (movement s) (plan s) a b t = [] \<longleftrightarrow> \<not> vertex_at M p a b t \<and> \<not> swap_at M p a b t \<and>
        (movement s = 2 \<longrightarrow> \<not> enter_at M p a b t \<and> \<not> enter_at M p b a t)" if "a < b" "b < agents s" "t < M" for a b t
      using verify_at_silent [OF L, of a b t] that by simp
    then show ?thesis using below by blast
  qed
  also have "\<dots> \<longleftrightarrow> collision_free (movement s) (agents s) p"
    by (rule no_conflict_iff [OF M rest mv])
  finally show ?thesis .
qed

end
