(* ===== verification/Demand.thy ===== *)
theory Demand
  imports Plan_Reading Collisions
begin

text \<open>
  The lazy mode. The clauses made from the conflicts of a plan say that these conflicts do not happen
  again; every solution satisfies them, and the model the plan was read from does not. So each round
  adds a clause the formula did not have.
\<close>

section \<open>Conflicts in the windows\<close>

definition slot :: "window_cfg \<Rightarrow> nat \<Rightarrow> nat \<Rightarrow> int \<Rightarrow> bool" where
  "slot w a v t \<longleftrightarrow> a < w_agents w \<and> v < number_of_vertices (w_inst w) \<and>
     0 \<le> cfg_first w a v \<and> cfg_first w a v \<le> t \<and> t \<le> cfg_last w a v"

definition vertex_ok :: "window_cfg \<Rightarrow> nat \<times> nat \<times> nat \<times> int \<Rightarrow> bool" where
  "vertex_ok w = (\<lambda>(a, b, v, t). a \<noteq> b \<and> slot w a v t \<and> slot w b v t)"

definition swap_ok :: "window_cfg \<Rightarrow> nat \<times> nat \<times> nat \<times> nat \<times> int \<Rightarrow> bool" where
  "swap_ok w = (\<lambda>(a, b, v, u, t). a \<noteq> b \<and> v \<noteq> u \<and> (v, u) \<in> moves (w_inst w) \<and>
     slot w a v t \<and> slot w a u (t + 1) \<and> slot w b u t \<and> slot w b v (t + 1))"

definition enter_ok :: "window_cfg \<Rightarrow> nat \<times> nat \<times> nat \<times> nat \<times> int \<Rightarrow> bool" where
  "enter_ok w = (\<lambda>(a, b, v, u, t). a \<noteq> b \<and> v \<noteq> u \<and> (v, u) \<in> moves (w_inst w) \<and>
     slot w a v (t - 1) \<and> slot w a u t \<and> slot w b u (t - 1))"

definition conflicts_ok :: "window_cfg \<Rightarrow> solver \<Rightarrow> bool" where
  "conflicts_ok w s \<longleftrightarrow>
     (\<forall>x \<in> set (vertex_conflicts s). vertex_ok w x) \<and> (\<forall>x \<in> set (swap_conflicts s). swap_ok w x) \<and>
     (\<forall>x \<in> set (pebble_conflicts s). enter_ok w x)"

text \<open>The windows grow with the cost, so the conflicts found for one cost stay in the windows of the next.\<close>

lemma conflicts_ok_mono:
  assumes ok: "conflicts_ok w s" and cfg: "cfg_ok w" "cfg_ok w'"
    and same: "w_inst w' = w_inst w" "w_agents w' = w_agents w" "w_cost w' = w_cost w"
    and more: "w_timesteps w \<le> w_timesteps w'" "w_delta w \<le> w_delta w'"
  shows "conflicts_ok w' s"
proof -
  have slot: "slot w a v t \<Longrightarrow> slot w' a v t" for a v t
    using cfg_last_eq [OF cfg(1)] cfg_last_eq [OF cfg(2)] same more
    by (auto simp: slot_def cfg_first_def cfg_fin_def)
  have "vertex_ok w x \<Longrightarrow> vertex_ok w' x" "swap_ok w y \<Longrightarrow> swap_ok w' y" "enter_ok w y \<Longrightarrow> enter_ok w' y" for x y
    using slot same(1) by (auto simp: vertex_ok_def swap_ok_def enter_ok_def)
  then show ?thesis using ok unfolding conflicts_ok_def by blast
qed

lemma slotD:
  assumes R: "enc_ready s lo hi" and "slot (cfg_of s) a v t"
  shows "a < agents s" "v < vertices s" "0 \<le> cfg_first (cfg_of s) a v" "at_window s a v t" "t \<le> fin s a"
proof -
  show a: "a < agents s" and v: "v < vertices s" and f: "0 \<le> cfg_first (cfg_of s) a v"
    using assms enc_readyD(5) [OF R] by (simp_all add: slot_def)
  show w: "at_window s a v t" using ready_window [OF R a v] assms(2) by (simp add: slot_def)
  show "t \<le> fin s a" using no_window_after [OF R a v f, of t] w by force
qed

lemma find_dir_move:
  assumes R: "enc_ready s lo hi" and v: "v < vertices s" and m: "(v, u) \<in> moves (inst s)" "v \<noteq> u"
  shows "find_dir s v u \<in> {1..<5}" "has_nb s v (find_dir s v u)" "nb s v (find_dir s v u) = u"
proof -
  obtain e where e: "e < 5" "has_nb s v e" "nb s v e = u" "1 \<le> e" using ready_dir [OF R v, of u] m by auto
  have "GetNeighbor (inst s) v e = int u"
    using GetNeighbor_coords [of "inst s" v e] grid.get_vertex [OF enc_readyD(4) [OF R], of v e] e v enc_readyD(5) [OF R]
    by (auto simp: has_nb_def nb_def)
  then have "List.find (\<lambda>d. GetNeighbor (inst s) v d = int u) [1..<5] \<noteq> None"
    using e by (auto simp: find_None_iff)
  then obtain d where d: "List.find (\<lambda>d. GetNeighbor (inst s) v d = int u) [1..<5] = Some d" by blast
  then have p: "d \<in> {1..<5}" "GetNeighbor (inst s) v d = int u"
    by (auto simp: find_Some_iff)
  then show "find_dir s v u \<in> {1..<5}" "nb s v (find_dir s v u) = u" using d by (simp_all add: find_dir_def nb_def)
  have "HasNeighborID (inst s) v d"
    using p less_5_cases [of d] by (auto simp: GetNeighbor_def HasNeighborID_def HasNeighbor_def Let_def split: if_splits)
  then show "has_nb s v (find_dir s v u)" using d by (simp add: find_dir_def has_nb_def)
qed

text \<open>A step between two slots of an agent has its edge variables.\<close>

lemma slot_edge:
  assumes R: "enc_ready s lo hi" and v: "slot (cfg_of s) a v t" and u: "slot (cfg_of s) a u (t + 1)"
    and d: "d < 5" "has_nb s v d" "nb s v d = u"
  shows "variables s = 2 \<Longrightarrow> pass_window s a v d t" "variables s = 3 \<Longrightarrow> shift_found (SHIFT s v d) t"
proof -
  note V = slotD [OF R v] and U = slotD [OF R u]
  show "pass_window s a v d t" if v2: "variables s = 2"
  proof -
    obtain mid where P: "pass_table s (max_timestep s) mid hi" using ready_pass [OF R v2] by blast
    show ?thesis using pass_tableD(3) [OF P V(1,2) d(1)] d(2,3) u v by (simp add: slot_def time_cfg)
  qed
  show "shift_found (SHIFT s v d) t" if "variables s = 3"
    using shift_exists [OF R that V(1,2,3) d(1,2) V(4)] U(4,5) d(3) by simp
qed

section \<open>What the clauses on demand say\<close>

text \<open>A swap or an entering that happens under an assignment, in terms of the variables used.\<close>

definition swap_true :: "solver \<Rightarrow> assignment \<Rightarrow> nat \<times> nat \<times> nat \<times> nat \<times> int \<Rightarrow> bool" where
  "swap_true s I = (\<lambda>(a, b, v, u, t). by_kind s
     (occ s I a v t \<and> occ s I a u (t + 1) \<and> occ s I b v (t + 1) \<and> occ s I b u t)
     (passes s I a v (find_dir s v u) t \<and> passes s I b u (opp (find_dir s v u)) t)
     (shifts s I v (find_dir s v u) t \<and> shifts s I u (opp (find_dir s v u)) t))"

definition enter_true :: "solver \<Rightarrow> assignment \<Rightarrow> nat \<times> nat \<times> nat \<times> nat \<times> int \<Rightarrow> bool" where
  "enter_true s I = (\<lambda>(a, b, v, u, t). by_kind s
     (occ s I a u t \<and> occ s I b u (t - 1))
     (passes s I a v (find_dir s v u) (t - 1) \<and> occ s I b u (t - 1))
     (\<exists>e \<in> {1..<5}. shifts s I v (find_dir s v u) (t - 1) \<and> shifts s I u e (t - 1)))"

definition demand_meaning :: "solver \<Rightarrow> assignment \<Rightarrow> bool" where
  "demand_meaning s I \<longleftrightarrow>
     (\<forall>(a, b, v, t) \<in> set (vertex_conflicts s). \<not> (occ s I a v t \<and> occ s I b v t)) \<and>
     (movement s = 1 \<longrightarrow> (\<forall>x \<in> set (swap_conflicts s). \<not> swap_true s I x)) \<and>
     (movement s = 2 \<longrightarrow> (\<forall>x \<in> set (pebble_conflicts s). \<not> enter_true s I x))"

lemma swap_okD:
  assumes R: "enc_ready s lo hi" and ok: "swap_ok (cfg_of s) (a, b, v, u, t)"
  defines "d \<equiv> find_dir s v u"
  shows "slot (cfg_of s) a v t" "slot (cfg_of s) a u (t + 1)" "slot (cfg_of s) b u t" "slot (cfg_of s) b v (t + 1)"
    and "d < 5" "opp d < 5" "has_nb s v d" "has_nb s u (opp d)" "nb s v d = u" "nb s u (opp d) = v"
proof -
  show S: "slot (cfg_of s) a v t" "slot (cfg_of s) a u (t + 1)" "slot (cfg_of s) b u t" "slot (cfg_of s) b v (t + 1)"
    using ok by (simp_all add: swap_ok_def)
  have m: "(v, u) \<in> moves (inst s)" "v \<noteq> u" using ok by (simp_all add: swap_ok_def)
  note v = slotD(2) [OF R S(1)]
  note D = find_dir_move [OF R v m]
  have d: "d < 5" "has_nb s v d" using D unfolding d_def by auto
  show "d < 5" "has_nb s v d" "nb s v d = u" using D unfolding d_def by auto
  show "opp d < 5" "has_nb s u (opp d)" "nb s u (opp d) = v"
    using nb_back(1-3) [OF R v d] D(3) unfolding d_def by auto
qed

lemma enter_okD:
  assumes R: "enc_ready s lo hi" and ok: "enter_ok (cfg_of s) (a, b, v, u, t)"
  defines "d \<equiv> find_dir s v u"
  shows "slot (cfg_of s) a v (t - 1)" "slot (cfg_of s) a u t" "slot (cfg_of s) b u (t - 1)"
    and "d < 5" "1 \<le> d" "has_nb s v d" "nb s v d = u"
proof -
  show S: "slot (cfg_of s) a v (t - 1)" "slot (cfg_of s) a u t" "slot (cfg_of s) b u (t - 1)"
    using ok by (simp_all add: enter_ok_def)
  have m: "(v, u) \<in> moves (inst s)" "v \<noteq> u" using ok by (simp_all add: enter_ok_def)
  from find_dir_move [OF R slotD(2) [OF R S(1)] m] show "d < 5" "1 \<le> d" "has_nb s v d" "nb s v d = u"
    unfolding d_def by auto
qed

lemma slot_lit:
  assumes R: "enc_ready s lo hi" and v: "slot (cfg_of s) a v t"
  shows "lit_true I (- at_var s a v t) \<longleftrightarrow> \<not> occ s I a v t" "\<bar>- at_var s a v t\<bar> < hi"
proof -
  note V = slotD [OF R v] and T = enc_readyD(2) [OF R]
  show "lit_true I (- at_var s a v t) \<longleftrightarrow> \<not> occ s I a v t" by (rule neg_occ [OF T V(1,2,4)])
  show "\<bar>- at_var s a v t\<bar> < hi" using at_tableD(6) [OF T V(1,2,4)] at_var_pos [OF T V(1,2,4)] by simp
qed

lemma edge_lit:
  assumes R: "enc_ready s lo hi" and v: "slot (cfg_of s) a v t" and u: "slot (cfg_of s) a u (t + 1)"
    and d: "d < 5" "has_nb s v d" "nb s v d = u"
  shows "variables s = 2 \<Longrightarrow> (lit_true I (- pass_var s a v d t) \<longleftrightarrow> \<not> passes s I a v d t) \<and> \<bar>- pass_var s a v d t\<bar> < hi"
    and "variables s = 3 \<Longrightarrow> (lit_true I (- shift_var s v d t) \<longleftrightarrow> \<not> shifts s I v d t) \<and> \<bar>- shift_var s v d t\<bar> < hi"
proof -
  note V = slotD [OF R v] and E = slot_edge [OF R v u d]
  show "(lit_true I (- pass_var s a v d t) \<longleftrightarrow> \<not> passes s I a v d t) \<and> \<bar>- pass_var s a v d t\<bar> < hi" if v2: "variables s = 2"
  proof -
    obtain mid where P: "pass_table s (max_timestep s) mid hi" using ready_pass [OF R v2] by blast
    show ?thesis
      using pass_lits(1) [OF P V(1,2) d(1) E(1) [OF v2]] pass_tableD(1) [OF P] pass_tableD(4) [OF P V(1,2) d(1) E(1) [OF v2]] by simp
  qed
  show "(lit_true I (- shift_var s v d t) \<longleftrightarrow> \<not> shifts s I v d t) \<and> \<bar>- shift_var s v d t\<bar> < hi" if v3: "variables s = 3"
  proof -
    obtain mid where P: "shift_table s (max_timestep s) mid hi" using ready_shift [OF R v3] by blast
    show ?thesis
      using shift_lits(1) [OF P V(2) d(1) E(2) [OF v3]] shift_tableD(1) [OF P] shift_tableD(5) [OF P V(2) d(1) E(2) [OF v3]] by simp
  qed
qed

text \<open>Clauses over the variables of the tables with at most four literals.\<close>

definition small :: "int \<Rightarrow> clause \<Rightarrow> bool" where
  "small hi c \<longleftrightarrow> length c \<le> 4 \<and> (\<forall>x \<in> set c. \<bar>x\<bar> < hi)"

lemma vertex_clause:
  assumes R: "enc_ready s lo hi" and ok: "vertex_ok (cfg_of s) (a, b, v, t)"
  shows "clause_true I [- at_var s a v t, - at_var s b v t] \<longleftrightarrow> \<not> (occ s I a v t \<and> occ s I b v t)"
    and "small hi [- at_var s a v t, - at_var s b v t]"
  using slot_lit [OF R, of a v t] slot_lit [OF R, of b v t] ok by (simp_all add: vertex_ok_def small_def)

lemma swap_clause:
  assumes R: "enc_ready s lo hi" and ok: "swap_ok (cfg_of s) (a, b, v, u, t)"
  defines "d \<equiv> find_dir s v u"
  shows "clause_true I [- at_var s a v t, - at_var s a u (t + 1), - at_var s b v (t + 1), - at_var s b u t] \<longleftrightarrow>
      \<not> (occ s I a v t \<and> occ s I a u (t + 1) \<and> occ s I b v (t + 1) \<and> occ s I b u t)"
    and "small hi [- at_var s a v t, - at_var s a u (t + 1), - at_var s b v (t + 1), - at_var s b u t]"
    and "variables s = 2 \<Longrightarrow> (clause_true I [- pass_var s a v d t, - pass_var s b u (opp d) t] \<longleftrightarrow>
      \<not> (passes s I a v d t \<and> passes s I b u (opp d) t)) \<and> small hi [- pass_var s a v d t, - pass_var s b u (opp d) t]"
    and "variables s = 3 \<Longrightarrow> (clause_true I [- shift_var s v d t, - shift_var s u (opp d) t] \<longleftrightarrow>
      \<not> (shifts s I v d t \<and> shifts s I u (opp d) t)) \<and> small hi [- shift_var s v d t, - shift_var s u (opp d) t]"
proof -
  note D = swap_okD [OF R ok, folded d_def]
  note lits = slot_lit [OF R D(1)] slot_lit [OF R D(2)] slot_lit [OF R D(3)] slot_lit [OF R D(4)]
    and one = edge_lit [OF R D(1,2,5,7,9)] and two = edge_lit [OF R D(3,4,6,8,10)]
  show "clause_true I [- at_var s a v t, - at_var s a u (t + 1), - at_var s b v (t + 1), - at_var s b u t] \<longleftrightarrow>
      \<not> (occ s I a v t \<and> occ s I a u (t + 1) \<and> occ s I b v (t + 1) \<and> occ s I b u t)"
    "small hi [- at_var s a v t, - at_var s a u (t + 1), - at_var s b v (t + 1), - at_var s b u t]"
    using lits by (simp_all add: small_def)
  show "variables s = 2 \<Longrightarrow> (clause_true I [- pass_var s a v d t, - pass_var s b u (opp d) t] \<longleftrightarrow>
      \<not> (passes s I a v d t \<and> passes s I b u (opp d) t)) \<and> small hi [- pass_var s a v d t, - pass_var s b u (opp d) t]"
    "variables s = 3 \<Longrightarrow> (clause_true I [- shift_var s v d t, - shift_var s u (opp d) t] \<longleftrightarrow>
      \<not> (shifts s I v d t \<and> shifts s I u (opp d) t)) \<and> small hi [- shift_var s v d t, - shift_var s u (opp d) t]"
    using one two by (simp_all add: small_def)
qed

lemma enter_clause:
  assumes R: "enc_ready s lo hi" and ok: "enter_ok (cfg_of s) (a, b, v, u, t)"
  defines "d \<equiv> find_dir s v u"
  shows "clause_true I [- at_var s a u t, - at_var s b u (t - 1)] \<longleftrightarrow> \<not> (occ s I a u t \<and> occ s I b u (t - 1))"
    and "small hi [- at_var s a u t, - at_var s b u (t - 1)]"
    and "variables s = 2 \<Longrightarrow> (clause_true I [- pass_var s a v d (t - 1), - at_var s b u (t - 1)] \<longleftrightarrow>
      \<not> (passes s I a v d (t - 1) \<and> occ s I b u (t - 1))) \<and> small hi [- pass_var s a v d (t - 1), - at_var s b u (t - 1)]"
    and "variables s = 3 \<Longrightarrow> e < 5 \<Longrightarrow> shift_found (SHIFT s u e) (t - 1) \<Longrightarrow>
      (clause_true I [- shift_var s v d (t - 1), - shift_var s u e (t - 1)] \<longleftrightarrow>
      \<not> (shifts s I v d (t - 1) \<and> shifts s I u e (t - 1))) \<and> small hi [- shift_var s v d (t - 1), - shift_var s u e (t - 1)]"
proof -
  note D = enter_okD [OF R ok, folded d_def]
  have u: "slot (cfg_of s) a u (t - 1 + 1)" using D(2) by simp
  note lits = slot_lit [OF R D(2)] slot_lit [OF R D(3)] and one = edge_lit [OF R D(1) u D(4,6,7)]
  show "clause_true I [- at_var s a u t, - at_var s b u (t - 1)] \<longleftrightarrow> \<not> (occ s I a u t \<and> occ s I b u (t - 1))"
    "small hi [- at_var s a u t, - at_var s b u (t - 1)]"
    using lits by (simp_all add: small_def)
  show "variables s = 2 \<Longrightarrow> (clause_true I [- pass_var s a v d (t - 1), - at_var s b u (t - 1)] \<longleftrightarrow>
      \<not> (passes s I a v d (t - 1) \<and> occ s I b u (t - 1))) \<and> small hi [- pass_var s a v d (t - 1), - at_var s b u (t - 1)]"
    using one lits by (simp add: small_def)
  show "(clause_true I [- shift_var s v d (t - 1), - shift_var s u e (t - 1)] \<longleftrightarrow>
      \<not> (shifts s I v d (t - 1) \<and> shifts s I u e (t - 1))) \<and> small hi [- shift_var s v d (t - 1), - shift_var s u e (t - 1)]"
    if v3: "variables s = 3" and e: "e < 5" "shift_found (SHIFT s u e) (t - 1)"
  proof -
    obtain mid where P: "shift_table s (max_timestep s) mid hi" using ready_shift [OF R v3] by blast
    note U = slotD(2) [OF R D(3)]
    show ?thesis
      using one(2) [OF v3] shift_lits(1) [OF P U e] shift_tableD(1) [OF P] shift_tableD(5) [OF P U e] by (simp add: small_def)
  qed
qed

lemma demand_map:
  assumes "\<And>x. x \<in> set xs \<Longrightarrow> (clause_true I (f x) \<longleftrightarrow> \<not> Q x) \<and> small hi (f x)"
  shows "cnf_true I (map f xs) \<longleftrightarrow> (\<forall>x \<in> set xs. \<not> Q x)" "\<forall>c \<in> set (map f xs). small hi c"
  using assms by (simp_all add: cnf_simps)

lemma pebble_shift_eq:
  assumes R: "enc_ready s lo hi" and v3: "variables s = 3" and ok: "\<forall>x \<in> set (pebble_conflicts s). enter_ok (cfg_of s) x"
  shows "conf_pebble_shift_on_demand_clauses s = concat (map (\<lambda>(a, b, v, u, t).
      map (\<lambda>e. [- shift_var s v (find_dir s v u) (t - 1), - shift_var s u e (t - 1)])
        (filter (\<lambda>e. shift_found (SHIFT s u e) (t - 1)) [1..<5])) (pebble_conflicts s))"
proof -
  have "timestep (SHIFT s v (find_dir s v u)) ! shift_index (SHIFT s v (find_dir s v u)) (t - 1) = t - 1"
    if "(a, b, v, u, t) \<in> set (pebble_conflicts s)" for a b v u t
  proof -
    have e: "enter_ok (cfg_of s) (a, b, v, u, t)" using ok that by blast
    note D = enter_okD [OF R e]
    have u: "slot (cfg_of s) a u (t - 1 + 1)" using D(2) by simp
    from slot_edge(2) [OF R D(1) u D(4,6,7) v3] show ?thesis by (simp add: shift_found_def)
  qed
  moreover have "concat (map (\<lambda>e. if f e then [g e] else []) es) = map g (filter f es)"
    for f and g :: "nat \<Rightarrow> clause" and es by (induction es) simp_all
  ultimately show ?thesis
    unfolding conf_pebble_shift_on_demand_clauses_def Let_def
    by (intro arg_cong [where f = concat] map_cong refl) auto
qed

lemma demand_families:
  assumes R: "enc_ready s lo hi" and ok: "conflicts_ok (cfg_of s) s"
  shows "cnf_true I (conf_vertex_on_demand_clauses s) \<longleftrightarrow>
      (\<forall>(a, b, v, t) \<in> set (vertex_conflicts s). \<not> (occ s I a v t \<and> occ s I b v t))"
    and "\<forall>c \<in> set (conf_vertex_on_demand_clauses s). small hi c"
    and "variables s = 1 \<Longrightarrow> (cnf_true I (conf_swapping_at_on_demand_clauses s) \<longleftrightarrow>
      (\<forall>x \<in> set (swap_conflicts s). \<not> swap_true s I x)) \<and> (\<forall>c \<in> set (conf_swapping_at_on_demand_clauses s). small hi c)"
    and "variables s = 2 \<Longrightarrow> (cnf_true I (conf_swapping_pass_on_demand_clauses s) \<longleftrightarrow>
      (\<forall>x \<in> set (swap_conflicts s). \<not> swap_true s I x)) \<and> (\<forall>c \<in> set (conf_swapping_pass_on_demand_clauses s). small hi c)"
    and "variables s = 3 \<Longrightarrow> (cnf_true I (conf_swapping_shift_on_demand_clauses s) \<longleftrightarrow>
      (\<forall>x \<in> set (swap_conflicts s). \<not> swap_true s I x)) \<and> (\<forall>c \<in> set (conf_swapping_shift_on_demand_clauses s). small hi c)"
    and "variables s = 1 \<Longrightarrow> (cnf_true I (conf_pebble_at_on_demand_clauses s) \<longleftrightarrow>
      (\<forall>x \<in> set (pebble_conflicts s). \<not> enter_true s I x)) \<and> (\<forall>c \<in> set (conf_pebble_at_on_demand_clauses s). small hi c)"
    and "variables s = 2 \<Longrightarrow> (cnf_true I (conf_pebble_pass_on_demand_clauses s) \<longleftrightarrow>
      (\<forall>x \<in> set (pebble_conflicts s). \<not> enter_true s I x)) \<and> (\<forall>c \<in> set (conf_pebble_pass_on_demand_clauses s). small hi c)"
    and "variables s = 3 \<Longrightarrow> (cnf_true I (conf_pebble_shift_on_demand_clauses s) \<longleftrightarrow>
      (\<forall>x \<in> set (pebble_conflicts s). \<not> enter_true s I x)) \<and> (\<forall>c \<in> set (conf_pebble_shift_on_demand_clauses s). small hi c)"
proof -
  note ok' = ok [unfolded conflicts_ok_def]
  have V: "vertex_ok (cfg_of s) (a, b, v, t)" if "(a, b, v, t) \<in> set (vertex_conflicts s)" for a b v t using ok' that by blast
  have S: "swap_ok (cfg_of s) (a, b, v, u, t)" if "(a, b, v, u, t) \<in> set (swap_conflicts s)" for a b v u t using ok' that by blast
  have E: "enter_ok (cfg_of s) (a, b, v, u, t)" if "(a, b, v, u, t) \<in> set (pebble_conflicts s)" for a b v u t using ok' that by blast
  have P: "\<forall>x \<in> set (pebble_conflicts s). enter_ok (cfg_of s) x" using ok' by blast
  let ?v = "\<lambda>(a, b, v, t). [- at_var s a v t, - at_var s b v t]" and ?Q = "\<lambda>(a, b, v, t). occ s I a v t \<and> occ s I b v t"
  have 0: "(clause_true I (?v x) \<longleftrightarrow> \<not> ?Q x) \<and> small hi (?v x)" if mem: "x \<in> set (vertex_conflicts s)" for x
  proof -
    obtain a b v t where x: "x = (a, b, v, t)" by (cases x) auto
    show ?thesis using vertex_clause [OF R V, of a b v t] that unfolding x prod.case by blast
  qed
  note D = demand_map [where f = ?v and Q = ?Q and xs = "vertex_conflicts s", OF 0]
  show "cnf_true I (conf_vertex_on_demand_clauses s) \<longleftrightarrow>
      (\<forall>(a, b, v, t) \<in> set (vertex_conflicts s). \<not> (occ s I a v t \<and> occ s I b v t))"
    "\<forall>c \<in> set (conf_vertex_on_demand_clauses s). small hi c"
    using D unfolding conf_vertex_on_demand_clauses_def by (simp_all add: case_prod_beta)
  show "(cnf_true I (conf_swapping_at_on_demand_clauses s) \<longleftrightarrow>
      (\<forall>x \<in> set (swap_conflicts s). \<not> swap_true s I x)) \<and> (\<forall>c \<in> set (conf_swapping_at_on_demand_clauses s). small hi c)"
    if v: "variables s = 1"
    unfolding conf_swapping_at_on_demand_clauses_def
    by (intro conjI demand_map [where I = I and hi = hi and Q = "swap_true s I"]) (use swap_clause(1,2) [OF R S] v in \<open>auto simp: swap_true_def by_kind_def\<close>)
  show "(cnf_true I (conf_swapping_pass_on_demand_clauses s) \<longleftrightarrow>
      (\<forall>x \<in> set (swap_conflicts s). \<not> swap_true s I x)) \<and> (\<forall>c \<in> set (conf_swapping_pass_on_demand_clauses s). small hi c)"
    if v: "variables s = 2"
    unfolding conf_swapping_pass_on_demand_clauses_def Let_def
    by (intro conjI demand_map [where I = I and hi = hi and Q = "swap_true s I"]) (use swap_clause(3) [OF R S v] v in \<open>auto simp: swap_true_def by_kind_def\<close>)
  show "(cnf_true I (conf_swapping_shift_on_demand_clauses s) \<longleftrightarrow>
      (\<forall>x \<in> set (swap_conflicts s). \<not> swap_true s I x)) \<and> (\<forall>c \<in> set (conf_swapping_shift_on_demand_clauses s). small hi c)"
    if v: "variables s = 3"
    unfolding conf_swapping_shift_on_demand_clauses_def Let_def
    by (intro conjI demand_map [where I = I and hi = hi and Q = "swap_true s I"]) (use swap_clause(4) [OF R S v] v in \<open>auto simp: swap_true_def by_kind_def\<close>)
  show "(cnf_true I (conf_pebble_at_on_demand_clauses s) \<longleftrightarrow>
      (\<forall>x \<in> set (pebble_conflicts s). \<not> enter_true s I x)) \<and> (\<forall>c \<in> set (conf_pebble_at_on_demand_clauses s). small hi c)"
    if v: "variables s = 1"
    unfolding conf_pebble_at_on_demand_clauses_def
    by (intro conjI demand_map [where I = I and hi = hi and Q = "enter_true s I"]) (use enter_clause(1,2) [OF R E] v in \<open>auto simp: enter_true_def by_kind_def\<close>)
  show "(cnf_true I (conf_pebble_pass_on_demand_clauses s) \<longleftrightarrow>
      (\<forall>x \<in> set (pebble_conflicts s). \<not> enter_true s I x)) \<and> (\<forall>c \<in> set (conf_pebble_pass_on_demand_clauses s). small hi c)"
    if v: "variables s = 2"
    unfolding conf_pebble_pass_on_demand_clauses_def Let_def
    by (intro conjI demand_map [where I = I and hi = hi and Q = "enter_true s I"]) (use enter_clause(3) [OF R E v] v in \<open>auto simp: enter_true_def by_kind_def\<close>)
  show "(cnf_true I (conf_pebble_shift_on_demand_clauses s) \<longleftrightarrow>
      (\<forall>x \<in> set (pebble_conflicts s). \<not> enter_true s I x)) \<and> (\<forall>c \<in> set (conf_pebble_shift_on_demand_clauses s). small hi c)"
    if v: "variables s = 3"
  proof -
    let ?g = "\<lambda>(a, b, v, u, t). map (\<lambda>e. [- shift_var s v (find_dir s v u) (t - 1), - shift_var s u e (t - 1)])
        (filter (\<lambda>e. shift_found (SHIFT s u e) (t - 1)) [1..<5])"
    have "(cnf_true I (?g x) \<longleftrightarrow> \<not> enter_true s I x) \<and> (\<forall>c \<in> set (?g x). small hi c)" if "x \<in> set (pebble_conflicts s)" for x
    proof -
      obtain a b w u t where x: "x = (a, b, w, u, t)" by (cases x) auto
      let ?f = "\<lambda>e. [- shift_var s w (find_dir s w u) (t - 1), - shift_var s u e (t - 1)]"
        and ?es = "filter (\<lambda>e. shift_found (SHIFT s u e) (t - 1)) [1..<5]"
      have c: "(clause_true I (?f e) \<longleftrightarrow> \<not> (shifts s I w (find_dir s w u) (t - 1) \<and> shifts s I u e (t - 1))) \<and> small hi (?f e)"
        if "e \<in> set ?es" for e
        using enter_clause(4) [OF R E v, of a b w u t e] that \<open>x \<in> set (pebble_conflicts s)\<close> x by simp
      have "enter_true s I x \<longleftrightarrow> (\<exists>e \<in> set ?es. shifts s I w (find_dir s w u) (t - 1) \<and> shifts s I u e (t - 1))"
        using v x by (auto simp: enter_true_def by_kind_def shifts_def)
      moreover have "?g x = map ?f ?es" using x by simp
      ultimately show ?thesis
        using demand_map [where xs = ?es and f = ?f and I = I and hi = hi and
            Q = "\<lambda>e. shifts s I w (find_dir s w u) (t - 1) \<and> shifts s I u e (t - 1)", OF c] by simp blast
    qed
    then show ?thesis unfolding pebble_shift_eq [OF R v P] by (simp add: cnf_simps)
  qed
qed

lemma demand_sem:
  assumes R: "enc_ready s lo hi" and ok: "conflicts_ok (cfg_of s) s"
  shows "cnf_true I (demand_cnf s) \<longleftrightarrow> demand_meaning s I" and "\<forall>c \<in> set (demand_cnf s). small hi c"
proof -
  note F = demand_families [OF R ok]
  have app: "cnf_true I (F @ G) \<longleftrightarrow> cnf_true I F \<and> cnf_true I G" for F G by simp
  consider "variables s = 1" | "variables s = 2" | "variables s = 3" using enc_readyD(12) [OF R] by blast
  then have "(cnf_true I (demand_cnf s) \<longleftrightarrow> demand_meaning s I) \<and> (\<forall>c \<in> set (demand_cnf s). small hi c)"
  proof cases
    case 1
    then show ?thesis
      using F(1,2) F(3,6) enc_readyD(9) [OF R] unfolding demand_cnf_def demand_meaning_def by_kind_def app by auto
  next
    case 2
    then show ?thesis
      using F(1,2) F(4,7) enc_readyD(9) [OF R] unfolding demand_cnf_def demand_meaning_def by_kind_def app by auto
  next
    case 3
    then show ?thesis
      using F(1,2) F(5,8) enc_readyD(9) [OF R] unfolding demand_cnf_def demand_meaning_def by_kind_def app by auto
  qed
  then show "cnf_true I (demand_cnf s) \<longleftrightarrow> demand_meaning s I" "\<forall>c \<in> set (demand_cnf s). small hi c" by simp_all
qed

section \<open>Solutions satisfy the clauses\<close>

lemma settles_demand:
  assumes R: "enc_ready s lo hi" and S: "settles s p" and J: "reads s J p" and ok: "conflicts_ok (cfg_of s) s"
  shows "demand_meaning s J"
  unfolding demand_meaning_def
proof (intro conjI impI ballI)
  note ok' = ok [unfolded conflicts_ok_def] and V = settles_fin [OF R S J]
  note kinds = enc_readyD(12) [OF R]
  fix x assume "x \<in> set (vertex_conflicts s)"
  moreover obtain a b v t where x: "x = (a, b, v, t)" by (cases x) auto
  ultimately have "vertex_ok (cfg_of s) (a, b, v, t)" using ok' by blast
  then have "a \<noteq> b" "slot (cfg_of s) a v t" "slot (cfg_of s) b v t" by (simp_all add: vertex_ok_def)
  then show "case x of (a, b, v, t) \<Rightarrow> \<not> (occ s J a v t \<and> occ s J b v t)"
    using settles_occ_free [OF R S J, of a b v t] slotD(1,2) [OF R] x by simp
next
  note ok' = ok [unfolded conflicts_ok_def] and V = settles_fin [OF R S J] and kinds = enc_readyD(12) [OF R]
  fix x assume mv: "movement s = 1" and "x \<in> set (swap_conflicts s)"
  moreover obtain a b v u t where x: "x = (a, b, v, u, t)" by (cases x) auto
  ultimately have ok: "swap_ok (cfg_of s) (a, b, v, u, t)" using ok' by blast
  note D = swap_okD [OF R ok]
  have ab: "a < agents s" "b < agents s" "v < vertices s" "u < vertices s" using slotD(1,2) [OF R] D(1-3) by blast+
  have ne: "a \<noteq> b" "nb s v (find_dir s v u) \<noteq> v" using ok D(9) by (simp_all add: swap_ok_def)
  note swap = leaves_swap [OF S mv _ _ ne(2), of _ _ t "opp (find_dir s v u)", unfolded D(9), OF _ _ _ _ D(10)]
  show "\<not> swap_true s J x"
  proof
    assume T: "swap_true s J x"
    consider "variables s = 1" | "variables s = 2" | "variables s = 3" using kinds by blast
    then show False
    proof cases
      case 1
      then have o: "occ s J a v t" "occ s J a u (t + 1)" "occ s J b v (t + 1)" "occ s J b u t"
        using T x by (simp_all add: swap_true_def by_kind_def)
      have t: "0 \<le> t" "nat (t + 1) = Suc (nat t)" using V(1) [OF ab(1,3) o(1)] by simp_all
      show False
        using V(3) [OF ab(1,3) o(1)] V(3) [OF ab(1,4) o(2)] V(3) [OF ab(2,3) o(3)] V(3) [OF ab(2,4) o(4)]
          settles_free(2) [OF S ab(1,2) ne(1) mv, of "nat t"] t(2) by metis
    next
      case 2
      then have "passes s J a v (find_dir s v u) t" "passes s J b u (opp (find_dir s v u)) t"
        using T x by (simp_all add: swap_true_def by_kind_def)
      then show False
        using swap [OF ab(1,2)] readsD(2) [OF J 2 ab(1,3) D(5)] readsD(2) [OF J 2 ab(2,4) D(6)] by blast
    next
      case 3
      then have "shifts s J v (find_dir s v u) t" "shifts s J u (opp (find_dir s v u)) t"
        using T x by (simp_all add: swap_true_def by_kind_def)
      then show False
        using swap readsD(3) [OF J 3 ab(3) D(5)] readsD(3) [OF J 3 ab(4) D(6)] by blast
    qed
  qed
next
  note ok' = ok [unfolded conflicts_ok_def] and V = settles_fin [OF R S J] and kinds = enc_readyD(12) [OF R]
  fix x assume mv: "movement s = 2" and "x \<in> set (pebble_conflicts s)"
  moreover obtain a b v u t where x: "x = (a, b, v, u, t)" by (cases x) auto
  ultimately have ok: "enter_ok (cfg_of s) (a, b, v, u, t)" using ok' by blast
  note D = enter_okD [OF R ok]
  have ab: "a < agents s" "b < agents s" "v < vertices s" "u < vertices s" using slotD(1,2) [OF R] D(1-3) by blast+
  have ne: "a \<noteq> b" "v \<noteq> u" using ok by (simp_all add: enter_ok_def)
  show "\<not> enter_true s J x"
  proof
    assume T: "enter_true s J x"
    consider "variables s = 1" | "variables s = 2" | "variables s = 3" using kinds by blast
    then show False
    proof cases
      case 1
      then have o: "occ s J a u t" "occ s J b u (t - 1)" using T x by (simp_all add: enter_true_def by_kind_def)
      have t: "nat t = Suc (nat (t - 1))" using V(1) [OF ab(2,4) o(2)] by simp
      show False
        using V(3) [OF ab(1,4) o(1)] V(3) [OF ab(2,4) o(2)] settles_free(3) [OF S ab(1,2) ne(1) mv, of "nat (t - 1)"] t by metis
    next
      case 2
      then have o: "passes s J a v (find_dir s v u) (t - 1)" "occ s J b u (t - 1)"
        using T x by (simp_all add: enter_true_def by_kind_def)
      show False
        using leaves_follow [OF S mv ab(1,2) ne(1), of v "find_dir s v u" "t - 1"] D(7)
          readsD(2) [OF J 2 ab(1,3) D(4)] V(3) [OF ab(2,4) o(2)] o(1) by simp
    next
      case 3
      then obtain e where e: "e < 5" and o: "shifts s J v (find_dir s v u) (t - 1)" "shifts s J u e (t - 1)"
        using T x by (auto simp: enter_true_def by_kind_def)
      obtain a' where a: "a' < agents s" "leaves s p a' v (find_dir s v u) (t - 1)" using o(1) readsD(3) [OF J 3 ab(3) D(4)] by blast
      obtain b' where b: "b' < agents s" "leaves s p b' u e (t - 1)" using o(2) readsD(3) [OF J 3 ab(4) e] by blast
      have "a' \<noteq> b'" using a(2) b(2) ne(2) by (auto simp: leaves_def)
      from leaves_follow [OF S mv a(1) b(1) this a(2)] show False using b(2) D(7) by (simp add: leaves_def)
    qed
  qed
qed

section \<open>The plan that was read breaks a clause\<close>

definition goals_distinct :: "instance_t \<Rightarrow> nat \<Rightarrow> bool" where
  "goals_distinct i n \<longleftrightarrow> (\<forall>a < n. \<forall>b < n. a \<noteq> b \<longrightarrow> goal_id i a \<noteq> goal_id i b)"

text \<open>The lists of the solver are those collected from trajectories, below the timestep \<open>M\<close>.\<close>

definition collected :: "solver \<Rightarrow> nat \<Rightarrow> trajectories \<Rightarrow> bool" where
  "collected s M p \<longleftrightarrow>
     (\<forall>a b v t. (a, b, v, t) \<in> set (vertex_conflicts s) \<longleftrightarrow>
        a < b \<and> b < agents s \<and> (\<exists>k. t = int k \<and> v = p a k \<and> vertex_at M p a b k)) \<and>
     (\<forall>a b v u t. (a, b, v, u, t) \<in> set (swap_conflicts s) \<longleftrightarrow>
        a < b \<and> b < agents s \<and> (\<exists>k. t = int k \<and> v = p a k \<and> u = p a (k + 1) \<and> swap_at M p a b k)) \<and>
     (\<forall>a b v u t. (a, b, v, u, t) \<in> set (pebble_conflicts s) \<longleftrightarrow>
        movement s = 2 \<and> a \<noteq> b \<and> a < agents s \<and> b < agents s \<and>
        (\<exists>k. t = int k + 1 \<and> v = p a k \<and> u = p a (k + 1) \<and> enter_at M p a b k))"

lemma collectedD:
  assumes "collected s M p"
  shows "(a, b, v, t) \<in> set (vertex_conflicts s) \<longleftrightarrow>
      a < b \<and> b < agents s \<and> (\<exists>k. t = int k \<and> v = p a k \<and> vertex_at M p a b k)"
    and "(a, b, v, u, t) \<in> set (swap_conflicts s) \<longleftrightarrow>
      a < b \<and> b < agents s \<and> (\<exists>k. t = int k \<and> v = p a k \<and> u = p a (k + 1) \<and> swap_at M p a b k)"
    and "(a, b, v, u, t) \<in> set (pebble_conflicts s) \<longleftrightarrow> movement s = 2 \<and> a \<noteq> b \<and> a < agents s \<and> b < agents s \<and>
      (\<exists>k. t = int k + 1 \<and> v = p a k \<and> u = p a (k + 1) \<and> enter_at M p a b k)"
  using assms unfolding collected_def by (simp_all only:)

lemma GenerateConflicts_collected:
  assumes L: "lists (agents s) M (plan s) p"
  shows "collected (GenerateConflicts s) M p"
  unfolding collected_def GenerateConflicts_eq
  using conflict_sets(1) [OF L] conflict_sets(2) [OF L] conflict_sets(3) [OF L, of _ _ _ _ _ "movement s"] by simp

lemma decode_slot:
  assumes R: "enc_ready s lo hi" and P: "walk_meaning s I" and a: "a < agents s" and t: "int t \<le> fin s a"
  shows "slot (cfg_of s) a (decode s I a t) (int t)" "occ s I a (decode s I a t) (int t)"
proof -
  note o = decode_occ [OF R P a t]
  then have "at_window s a (decode s I a t) (int t)" by (simp add: occ_def)
  then show "slot (cfg_of s) a (decode s I a t) (int t)"
    using o ready_window [OF R a] a enc_readyD(5) [OF R] by (simp add: slot_def)
  show "occ s I a (decode s I a t) (int t)" using o by simp
qed

text \<open>Agents that meet, or one of which moves, have not arrived before.\<close>

lemma decode_moving:
  assumes R: "enc_ready s lo hi" and P: "walk_meaning s I" and a: "a < agents s"
    and ne: "decode s I a t \<noteq> decode s I a (t + 1)"
  shows "int t < fin s a"
  using ne decode_goal [OF R P a, of t] decode_goal [OF R P a, of "t + 1"] by fastforce

lemma decode_meeting:
  assumes R: "enc_ready s lo hi" and P: "walk_meaning s I" and ab: "a < agents s" "b < agents s" "a \<noteq> b"
    and G: "goals_distinct (inst s) (agents s)" and eq: "decode s I a t = decode s I b t"
  shows "int t \<le> fin s a" "int t \<le> fin s b"
proof -
  have half: "int t \<le> fin s a" if ab: "a < agents s" "b < agents s" "a \<noteq> b" and eq: "decode s I a t = decode s I b t" for a b
  proof (rule ccontr)
    assume n: "\<not> int t \<le> fin s a"
    then have g: "decode s I b t = goal_id (inst s) a" using decode_goal [OF R P ab(1), of t] eq by simp
    show False
    proof (cases "int t \<le> fin s b")
      case True
      then show False using decode_meet_arrived [OF R P ab, of t] n g by simp
    next
      case False
      then show False using decode_goal [OF R P ab(2), of t] g G ab unfolding goals_distinct_def by simp
    qed
  qed
  show "int t \<le> fin s a" by (rule half [OF ab eq])
  show "int t \<le> fin s b" by (rule half [OF ab(2,1) _ eq [symmetric]]) (use ab in simp)
qed

lemma decode_entering:
  assumes R: "enc_ready s lo hi" and P: "walk_meaning s I" and ab: "a < agents s" "b < agents s" "a \<noteq> b"
    and ne: "decode s I a t \<noteq> decode s I a (t + 1)" and eq: "decode s I b t = decode s I a (t + 1)"
  shows "int t < fin s a" "int t < fin s b"
proof -
  show a: "int t < fin s a" by (rule decode_moving [OF R P ab(1) ne])
  show "int t < fin s b"
  proof (rule ccontr)
    assume n: "\<not> int t < fin s b"
    then have "decode s I a (t + 1) = goal_id (inst s) b" using decode_goal [OF R P ab(2), of t] eq by simp
    moreover have "fin s b < int (t + 1)" "int (t + 1) \<le> fin s a" "b \<noteq> a" using n a ab by auto
    ultimately show False using decode_meet_arrived [OF R P ab(2,1), of "t + 1"] by blast
  qed
qed

lemma decode_move:
  assumes R: "enc_ready s lo hi" and P: "walk_meaning s I" and a: "a < agents s"
    and ne: "decode s I a t \<noteq> decode s I a (t + 1)"
  shows "(decode s I a t, decode s I a (t + 1)) \<in> moves (inst s)"
    and "goes s I a (decode s I a t) (find_dir s (decode s I a t) (decode s I a (t + 1))) (int t)"
proof -
  let ?v = "decode s I a t" and ?u = "decode s I a (t + 1)"
  have t: "int t < fin s a" by (rule decode_moving [OF R P a ne])
  then have o: "?v < vertices s" "0 \<le> cfg_first (cfg_of s) a ?v" "occ s I a ?v (int t)" using decode_occ [OF R P a, of t] by simp_all
  show m: "(?v, ?u) \<in> moves (inst s)" using on_map_steps [OF decode_on_map [OF R P] a, of t] ne by simp
  obtain d where d: "d < 5" "has_nb s ?v d" "goes s I a ?v d (int t)" "?u = nb s ?v d"
    using decode_next [OF R P a o t] by auto
  have "find_dir s ?v ?u < 5" "has_nb s ?v (find_dir s ?v ?u)" "nb s ?v (find_dir s ?v ?u) = ?u"
    using find_dir_move [OF R o(1) m ne] by auto
  then have "find_dir s ?v ?u = d" using nb_inj [OF R o(1) _ _ d(1,2)] d(4) by simp
  then show "goes s I a ?v (find_dir s ?v ?u) (int t)" using d(3) by simp
qed

lemma collected_ok:
  assumes R: "enc_ready s lo hi" and P: "walk_meaning s I" and G: "goals_distinct (inst s) (agents s)"
    and C: "collected s M (decode s I)"
  shows "conflicts_ok (cfg_of s) s"
  unfolding conflicts_ok_def
proof (intro conjI ballI)
  let ?p = "decode s I"
  note slot = decode_slot(1) [OF R P]
  show "vertex_ok (cfg_of s) x" if mem: "x \<in> set (vertex_conflicts s)" for x
  proof -
    obtain a b v t where x: "x = (a, b, v, t)" by (cases x) auto
    obtain k where k: "a < b" "b < agents s" "t = int k" "v = ?p a k" "?p a k = ?p b k"
      using mem unfolding x collectedD(1) [OF C] vertex_at_def by metis
    then have ab: "a < agents s" "a \<noteq> b" by simp_all
    note m = decode_meeting [OF R P ab(1) k(2) ab(2) G k(5)]
    show ?thesis using slot [OF ab(1) m(1)] slot [OF k(2) m(2)] k ab x by (simp add: vertex_ok_def)
  qed
  show "swap_ok (cfg_of s) x" if mem: "x \<in> set (swap_conflicts s)" for x
  proof -
    obtain a b v u t where x: "x = (a, b, v, u, t)" by (cases x) auto
    obtain k where k: "a < b" "b < agents s" "t = int k" "v = ?p a k" "u = ?p a (k + 1)"
      "?p a k = ?p b (k + 1)" "?p a (k + 1) = ?p b k" "?p a k \<noteq> ?p b k"
      using mem unfolding x collectedD(2) [OF C] swap_at_def by metis
    then have ab: "a < agents s" "a \<noteq> b" by simp_all
    have ne: "?p a k \<noteq> ?p a (k + 1)" "?p b k \<noteq> ?p b (k + 1)" using k by simp_all
    note t = decode_moving [OF R P ab(1) ne(1)] decode_moving [OF R P k(2) ne(2)]
    show ?thesis
      using slot [OF ab(1), of k] slot [OF ab(1), of "k + 1"] slot [OF k(2), of k] slot [OF k(2), of "k + 1"] t
        decode_move(1) [OF R P ab(1) ne(1)] ne(1) k(3-7) ab x by (simp add: swap_ok_def add.commute)
  qed
  show "enter_ok (cfg_of s) x" if mem: "x \<in> set (pebble_conflicts s)" for x
  proof -
    obtain a b v u t where x: "x = (a, b, v, u, t)" by (cases x) auto
    obtain k where k: "a \<noteq> b" "a < agents s" "b < agents s" "t = int k + 1" "v = ?p a k" "u = ?p a (k + 1)"
      "?p b k = ?p a (k + 1)" "?p a k \<noteq> ?p a (k + 1)"
      using mem unfolding x collectedD(3) [OF C] enter_at_def by metis
    note t = decode_entering [OF R P k(2,3,1,8,7)]
    show ?thesis
      using slot [OF k(2), of k] slot [OF k(2), of "k + 1"] slot [OF k(3), of k] t
        decode_move(1) [OF R P k(2,8)] k x by (simp add: enter_ok_def add.commute)
  qed
qed

lemma collected_vertex:
  assumes R: "enc_ready s lo hi" and P: "walk_meaning s I" and G: "goals_distinct (inst s) (agents s)"
    and C: "collected s M (decode s I)" and ab: "a < agents s" "b < agents s" "a \<noteq> b" and v: "vertex_at M (decode s I) a b k"
  shows "\<not> demand_meaning s I"
proof -
  have broken: "\<not> demand_meaning s I" if ab: "a < b" "b < agents s" and v: "vertex_at M (decode s I) a b k" for a b
  proof -
    have a: "a < agents s" "a \<noteq> b" and eq: "decode s I a k = decode s I b k" using ab v by (simp_all add: vertex_at_def)
    note m = decode_meeting [OF R P a(1) ab(2) a(2) G eq]
    have "(a, b, decode s I a k, int k) \<in> set (vertex_conflicts s)" using collectedD(1) [OF C] ab v by blast
    moreover have "occ s I a (decode s I a k) (int k)" "occ s I b (decode s I a k) (int k)"
      using decode_slot(2) [OF R P a(1) m(1)] decode_slot(2) [OF R P ab(2) m(2)] eq by simp_all
    ultimately show ?thesis unfolding demand_meaning_def by blast
  qed
  have "vertex_at M (decode s I) b a k" using v by (simp add: vertex_at_def)
  then show ?thesis using broken [of a b] broken [of b a] ab v by (cases "a < b") auto
qed

lemma collected_swap:
  assumes R: "enc_ready s lo hi" and P: "walk_meaning s I" and mv: "movement s = 1"
    and C: "collected s M (decode s I)" and ab: "a < b" "b < agents s" and w: "swap_at M (decode s I) a b k"
  shows "\<not> demand_meaning s I"
proof -
  let ?v = "decode s I a k" and ?u = "decode s I a (k + 1)"
  have eq: "decode s I b k = ?u" "decode s I b (k + 1) = ?v" and ne: "?v \<noteq> ?u" "decode s I b k \<noteq> decode s I b (k + 1)"
    using w by (simp_all add: swap_at_def)
  have a: "a < agents s" using ab by simp
  note t = decode_moving [OF R P a ne(1)] decode_moving [OF R P ab(2) ne(2)]
  have o: "occ s I a ?v (int k)" "occ s I a ?u (int k + 1)" "occ s I b ?v (int k + 1)" "occ s I b ?u (int k)"
    using decode_slot(2) [OF R P a, of k] decode_slot(2) [OF R P a, of "k + 1"]
      decode_slot(2) [OF R P ab(2), of k] decode_slot(2) [OF R P ab(2), of "k + 1"] t eq by (simp_all add: add.commute)
  have v: "?v < vertices s" and u: "?u < vertices s"
    using slotD(2) [OF R decode_slot(1) [OF R P a, of k]] slotD(2) [OF R decode_slot(1) [OF R P a, of "k + 1"]] t by simp_all
  let ?d = "find_dir s ?v ?u"
  have mem: "(a, b, ?v, ?u, int k) \<in> set (swap_conflicts s)" unfolding collectedD(2) [OF C] using ab w by blast
  note ga = decode_move [OF R P a ne(1)] and gb = decode_move [OF R P ab(2) ne(2), unfolded eq]
  note D = find_dir_move [OF R v ga(1) ne(1)] and E = find_dir_move [OF R u gb(1) ne(1) [symmetric]]
  have "find_dir s ?u ?v = opp ?d"
    using nb_opp [OF R v _ D(2), of "find_dir s ?u ?v"] D(1,3) E by simp
  then have g: "goes s I a ?v ?d (int k)" "goes s I b ?u (opp ?d) (int k)" using ga(2) gb(2) by simp_all
  have "swap_true s I (a, b, ?v, ?u, int k)"
    using o g unfolding swap_true_def prod.case goes_def by_kind_def by (simp split: if_splits)
  then show ?thesis using mem mv unfolding demand_meaning_def by blast
qed

lemma collected_enter:
  assumes R: "enc_ready s lo hi" and P: "walk_meaning s I" and G: "goals_distinct (inst s) (agents s)" and mv: "movement s = 2"
    and C: "collected s M (decode s I)" and ab: "a < agents s" "b < agents s" "a \<noteq> b" and w: "enter_at M (decode s I) a b k"
  shows "\<not> demand_meaning s I"
proof -
  let ?v = "decode s I a k" and ?u = "decode s I a (k + 1)"
  have eq: "decode s I b k = ?u" and ne: "?v \<noteq> ?u" using w by (simp_all add: enter_at_def)
  note t = decode_entering [OF R P ab ne eq]
  have o: "occ s I a ?v (int k)" "occ s I a ?u (int k + 1)" "occ s I b ?u (int k)"
    using decode_slot(2) [OF R P ab(1), of k] decode_slot(2) [OF R P ab(1), of "k + 1"]
      decode_slot(2) [OF R P ab(2), of k] t eq by (simp_all add: add.commute)
  have u: "?u < vertices s" "0 \<le> cfg_first (cfg_of s) b ?u"
    using slotD(2,3) [OF R decode_slot(1) [OF R P ab(2), of k]] t eq by simp_all
  let ?x = "(a, b, ?v, ?u, int k + 1)"
  have mem: "?x \<in> set (pebble_conflicts s)" unfolding collectedD(3) [OF C] using ab mv w by blast
  note ga = decode_move(2) [OF R P ab(1) ne]
  obtain e where e: "e < 5" "has_nb s ?u e" "goes s I b ?u e (int k)" "decode s I b (k + 1) = nb s ?u e"
    using decode_next [OF R P ab(2), of k] u o(3) t(2) eq by auto
  show ?thesis
  proof (cases "e = 0")
    case True
    then have "decode s I b (k + 1) = ?u" using e(4) by (simp add: nb_def GetNeighbor_def)
    then have "vertex_at M (decode s I) a b (k + 1)" using w by (simp add: vertex_at_def enter_at_def)
    then show ?thesis by (rule collected_vertex [OF R P G C ab])
  next
    case False
    then have e1: "e \<in> {1..<5}" using e(1) by simp
    have "enter_true s I ?x"
    proof (cases "variables s = 1 \<or> variables s = 2")
      case True
      then show ?thesis
        using o ga unfolding enter_true_def prod.case goes_def by_kind_def by (auto split: if_splits)
    next
      case False
      then have "shifts s I ?v (find_dir s ?v ?u) (int k)" "shifts s I ?u e (int k)"
        using ga e(3) by (simp_all add: goes_def by_kind_def)
      then have "\<exists>e \<in> {1..<5}. shifts s I ?v (find_dir s ?v ?u) (int k) \<and> shifts s I ?u e (int k)" using e1 by blast
      then show ?thesis using False by (simp add: enter_true_def by_kind_def)
    qed
    then show ?thesis using mem mv unfolding demand_meaning_def by blast
  qed
qed

text \<open>If the trajectories collide, some clause made from the conflicts is false under the model.\<close>

lemma collected_false:
  assumes R: "enc_ready s lo hi" and P: "walk_meaning s I" and G: "goals_distinct (inst s) (agents s)"
    and C: "collected s M (decode s I)" and M: "1 \<le> M"
    and rest: "\<And>a t. a < agents s \<Longrightarrow> M \<le> t + 1 \<Longrightarrow> decode s I a t = goal_id (inst s) a"
    and clash: "\<not> collision_free (movement s) (agents s) (decode s I)"
  shows "\<exists>c \<in> set (demand_cnf s). \<not> clause_true I c \<and> small hi c"
proof -
  let ?p = "decode s I"
  note mv = enc_readyD(9) [OF R]
  from clash obtain a b k where ab: "a < b" "b < agents s" and
    "vertex_at M ?p a b k \<or> swap_at M ?p a b k \<or> movement s = 2 \<and> (enter_at M ?p a b k \<or> enter_at M ?p b a k)"
  proof -
    have "collision_free (movement s) (agents s) ?p" if "\<forall>a b t. a < b \<longrightarrow> b < agents s \<longrightarrow> \<not> vertex_at M ?p a b t \<and>
        \<not> swap_at M ?p a b t \<and> (movement s = 2 \<longrightarrow> \<not> enter_at M ?p a b t \<and> \<not> enter_at M ?p b a t)"
      using that no_conflict_iff [OF M rest mv] by simp
    then show thesis using that clash by blast
  qed
  then consider (v) "vertex_at M ?p a b k" | (s) "movement s = 1" "swap_at M ?p a b k"
    | (e) "movement s = 2" "enter_at M ?p a b k" | (f) "movement s = 2" "enter_at M ?p b a k"
    using mv by (auto simp: swap_at_def enter_at_def)
  then have "\<not> demand_meaning s I"
  proof cases
    case v
    then show ?thesis using collected_vertex [OF R P G C, of a b k] ab by simp
  next
    case s
    then show ?thesis using collected_swap [OF R P s(1) C ab] by simp
  next
    case e
    then show ?thesis using collected_enter [OF R P G e(1) C, of a b k] ab by simp
  next
    case f
    then show ?thesis using collected_enter [OF R P G f(1) C, of b a k] ab by simp
  qed
  then have "\<not> cnf_true I (demand_cnf s)" using demand_sem(1) [OF R collected_ok [OF R P G C]] by simp
  then show ?thesis using demand_sem(2) [OF R collected_ok [OF R P G C]] by (auto simp: cnf_true_def)
qed

end
