(* ===== verification/Solve_Loop.thy ===== *)
theory Solve_Loop
  imports Plans
begin

text \<open>
  \<open>_MAPFSAT_ISolver::Solve\<close> and \<open>InvokeSolver\<close> of \<open>src/src/encodings/solver_common.cpp\<close>. The virtual
  methods \<open>CreateFormula\<close> and \<open>InvokeSolverImplementation\<close> are arguments; the locale
  \<open>encoding_backend\<close> states what \<open>Solve\<close> relies on, and its lemmas say what \<open>Solve\<close> returns.
\<close>

section \<open>Invoking the solver\<close>

text \<open>
  \<open>cnf_printable.clear()\<close> resets the error flags of the stream and keeps its text, so it does not show
  in the state.
\<close>

definition before_invoke :: "solver \<Rightarrow> solver" where
  "before_invoke s =
     (let s1 = (if \<not> print_plan s \<and> \<not> keep_plan s \<and> lazy_const s \<noteq> 2 then CleanUp s else s) in s1\<lparr>plan := []\<rparr>)"

definition InvokeSolver :: "(int \<Rightarrow> solver \<Rightarrow> int \<times> solver) \<Rightarrow> int \<Rightarrow> solver \<Rightarrow> int \<times> solver" where
  "InvokeSolver invoke timelimit s =
     (let (res, s1) = invoke timelimit (before_invoke s);
          s2 = (if plan s1 \<noteq> [] \<and> lazy_const s1 = 2 then GenerateConflicts s1 else s1)
      in (res, s2\<lparr>solver_calls := solver_calls s2 + 1\<rparr>))"

section \<open>The loop\<close>

text \<open>The local variables of the loop: the solver, the time left, the building and the solving time.\<close>

type_synonym loop_state = "solver \<times> int \<times> int \<times> int"

definition solve_start :: "nat \<Rightarrow> int \<Rightarrow> bool \<Rightarrow> solver \<Rightarrow> loop_state" where
  "solve_start ags input_delta keep s =
     (s\<lparr>delta := input_delta, solver_calls := 0, nr_vars := 1, nr_clauses := 0, nr_clauses_move := 0,
        nr_clauses_dupli := 0, nr_clauses_conflict := 0, nr_clauses_soc := 0, nr_clauses_unit := 0,
        keep_plan := keep, vertex_conflicts := [], swap_conflicts := [], pebble_conflicts := [],
        SAT_solver := None, at := None, pass := None, shift := None, agents := ags,
        vertices := number_of_vertices (inst s), first_try := True\<rparr>, timeout s * 1000, 0, 0)"

text \<open>The first lines of a round: a solver is created unless the formula is extended incrementally.\<close>

definition open_round :: "solver \<Rightarrow> solver" where
  "open_round s =
     (let s1 = s\<lparr>conflicts_present := False\<rparr> in if SAT_solver s1 = None then CreateSolver s1 else s1)"

definition log_round :: "int \<Rightarrow> int \<Rightarrow> int \<Rightarrow> solver \<Rightarrow> solver" where
  "log_round bt st res s = s\<lparr>solver_log := (solver_log s)
     \<lparr>log_nr_vars := nr_vars s, log_nr_clauses := nr_clauses s, log_nr_clauses_move := nr_clauses_move s,
      log_nr_clauses_dupli := nr_clauses_dupli s, log_nr_clauses_conflict := nr_clauses_conflict s,
      log_nr_clauses_soc := nr_clauses_soc s, log_nr_clauses_unit := nr_clauses_unit s,
      building_time := bt, solving_time := st, solution_mks := GetMksLB (inst s) (agents s) + delta s,
      solution_soc := (if cost_function s = 1 then 0 else GetSocLB (inst s) (agents s) + delta s),
      log_solver_calls := solver_calls s, log_res := res\<rparr>\<rparr>"

definition close_round :: "solver \<Rightarrow> solver" where
  "close_round s = (let s1 = ReleaseSolver (CleanUp s) in s1\<lparr>first_try := True, delta := delta s1 + 1\<rparr>)"

text \<open>One round: \<open>Inl\<close> is a return with its value, \<open>Inr\<close> goes round again.\<close>

definition solve_round ::
  "(int \<Rightarrow> solver \<Rightarrow> int \<times> solver) \<Rightarrow> (int \<Rightarrow> solver \<Rightarrow> int \<times> solver) \<Rightarrow> clock \<Rightarrow> bool \<Rightarrow> loop_state \<Rightarrow>
   (int \<times> solver) + loop_state" where
  "solve_round create invoke clk oneshot = (\<lambda>(s, time_left, bt, st).
     let s0 = open_round s;
         (start1, s1) = now clk s0;
         (nv, s2) = create time_left s1;
         (stop1, s3) = now clk (s2\<lparr>nr_vars := nv\<rparr>);
         (up1, s4) = TimesUp start1 stop1 time_left s3
     in if up1 then Inl (1, s4) else
       let bt1 = bt + millis (stop1 - start1); left1 = time_left - millis (stop1 - start1);
           (start2, s5) = now clk s4;
           (res, s6) = InvokeSolver invoke (left1 + 100) s5;
           (stop2, s7) = now clk s6;
           (up2, s8) = TimesUp start2 stop2 left1 s7
       in if up2 then Inl (1, s8) else
         let st1 = st + millis (stop2 - start2); left2 = left1 - millis (stop2 - start2);
             s9 = log_round bt1 st1 res s8
         in if res = 0 \<and> lazy_const s9 = 2 \<and> conflicts_present s9
            then Inr (s9\<lparr>first_try := False\<rparr>, left2, bt1, st1)
            else let s10 = close_round s9 in
              if res = 0 then Inl (0, s10)
              else if res = -1 then Inl (1, s10)
              else if oneshot then Inl (-1, s10)
              else Inr (s10, left2, bt1, st1))"

partial_function (option) solve_loop ::
  "(loop_state \<Rightarrow> (int \<times> solver) + loop_state) \<Rightarrow> loop_state \<Rightarrow> (int \<times> solver) option" where
  "solve_loop round ls = (case round ls of Inl r \<Rightarrow> Some r | Inr ls' \<Rightarrow> solve_loop round ls')"

definition Solve ::
  "(int \<Rightarrow> solver \<Rightarrow> int \<times> solver) \<Rightarrow> (int \<Rightarrow> solver \<Rightarrow> int \<times> solver) \<Rightarrow> clock \<Rightarrow>
   nat \<Rightarrow> int \<Rightarrow> bool \<Rightarrow> bool \<Rightarrow> solver \<Rightarrow> (int \<times> solver) option" where
  "Solve create invoke clk ags input_delta oneshot keep s =
     solve_loop (solve_round create invoke clk oneshot) (solve_start ags input_delta keep s)"

section \<open>What a back end promises\<close>

text \<open>The part of the solver that a call of the back end keeps.\<close>

definition config :: "solver \<Rightarrow> _" where
  "config s = (class_of s, inst s, agents s, vertices s, delta s, variables s, cost_function s, movement s,
     lazy_const s, duplicates s, use_avoid s, keep_plan s, print_plan s, timeout s,
     log_agents (solver_log s))"

lemma config_fields [simp]:
  "config (s\<lparr>clock_reads := n\<rparr>) = config s" "config (s\<lparr>first_try := b\<rparr>) = config s"
  "config (s\<lparr>solver_calls := x\<rparr>) = config s" "config (s\<lparr>nr_vars := x\<rparr>) = config s"
  "config (s\<lparr>plan := P\<rparr>) = config s" "config (log_round bt st r s) = config s"
  "config (CleanUp s) = config s" "config (before_invoke s) = config s" "config (open_round s) = config s"
  by (simp_all add: config_def log_round_def CleanUp_def before_invoke_def open_round_def CreateSolver_def Let_def
      split: solver_class.split)

lemma config_simps:
  assumes "config t = config s"
  shows "inst t = inst s" "agents t = agents s" "movement t = movement s" "cost_function t = cost_function s"
    "delta t = delta s" "keep_plan t = keep_plan s" "lazy_const t = lazy_const s"
  using assms by (simp_all add: config_def)

text \<open>
  The plan has conflicts that the formula of the lazy mode does not exclude yet: the next round starts
  in \<open>retry_from\<close>. After an answer \<open>1\<close> the next cost is tried from \<open>go_on_from\<close>. In both, \<open>l\<close> is what
  has been written to the log and \<open>n\<close> the number of clock readings.
\<close>

definition unfinished :: "solver \<Rightarrow> bool" where
  "unfinished s \<longleftrightarrow> lazy_const s = 2 \<and> conflicts_present s"

definition retry_from :: "logger \<Rightarrow> nat \<Rightarrow> solver \<Rightarrow> solver" where
  "retry_from l n s = open_round (s\<lparr>solver_log := l, clock_reads := n, first_try := False\<rparr>)"

definition go_on_from :: "logger \<Rightarrow> nat \<Rightarrow> solver \<Rightarrow> solver" where
  "go_on_from l n s = open_round (close_round (s\<lparr>solver_log := l, clock_reads := n\<rparr>))"

text \<open>
  A back end accepts a solver; then \<open>CreateFormula\<close> returns a solver that holds the formula, unless it
  runs out of time, and \<open>InvokeSolver\<close> says whether there is a solution of the cost, or leaves
  conflicts. The measure \<open>todo\<close> bounds how often that can happen.
\<close>

locale encoding_backend =
  fixes create invoke :: "int \<Rightarrow> solver \<Rightarrow> int \<times> solver"
    and clk :: clock
    and accepts :: "solver \<Rightarrow> bool"
    and holds :: "solver \<Rightarrow> solver \<Rightarrow> bool"
    and todo :: "solver \<Rightarrow> nat"
  assumes create_holds: "accepts s \<Longrightarrow> create lim s = (l, t) \<Longrightarrow> l \<noteq> -1 \<Longrightarrow> holds s (t\<lparr>nr_vars := l\<rparr>)"
    and create_clock: "accepts s \<Longrightarrow> create lim s = (l, t) \<Longrightarrow> clock_reads s < clock_reads t"
    and create_late: "accepts s \<Longrightarrow> create lim s = (-1, t) \<Longrightarrow>
      lim < millis (clk (clock_reads t - 1) - clk (clock_reads s))"
    and holds_config: "holds s t \<Longrightarrow> config t = config s"
    and holds_clock: "holds s t \<Longrightarrow> holds s (t\<lparr>clock_reads := n\<rparr>)"
    and invoke_frame: "holds s t \<Longrightarrow> InvokeSolver invoke lim t = (r, u) \<Longrightarrow>
      config u = config t \<and> clock_reads u = clock_reads t"
    and invoke_answer: "holds s t \<Longrightarrow> InvokeSolver invoke lim t = (r, u) \<Longrightarrow>
      r = 0 \<and> \<not> unfinished u \<and> has_solution s (cost_bound s) \<and> (keep_plan s \<longrightarrow> good_plan s (cost_bound s) (plan u)) \<or>
      r = 0 \<and> unfinished u \<and> (\<forall>l n. accepts (retry_from l n u) \<and> todo (retry_from l n u) < todo s) \<or>
      r = 1 \<and> (\<not> has_solution s (cost_bound s) \<or> lim \<le> millis (clk (clock_reads t) - clk (clock_reads t - 1))) \<and>
        (\<forall>l n. accepts (go_on_from l n u))"
begin

text \<open>The state in which a round calls \<open>CreateFormula\<close>.\<close>

definition opened :: "solver \<Rightarrow> solver" where
  "opened s = snd (now clk (open_round s))"

definition ready :: "solver \<Rightarrow> bool" where
  "ready s \<longleftrightarrow> accepts (opened s)"

text \<open>\<open>in_time n left\<close>: no later reading of the clock is more than \<open>left\<close> milliseconds after reading \<open>n\<close>.\<close>

definition in_time :: "nat \<Rightarrow> int \<Rightarrow> bool" where
  "in_time n left \<longleftrightarrow> (\<forall>m. clk m - clk n \<le> 1000000 * left)"

text \<open>What a round that is not cut off by the time limit does.\<close>

definition round_done :: "solver \<Rightarrow> int \<Rightarrow> bool \<Rightarrow> (int \<times> solver) + loop_state \<Rightarrow> bool" where
  "round_done s left oneshot res \<longleftrightarrow>
     (\<exists>t. config t = config s \<and>
        (has_solution s (cost_bound s) \<and> res = Inl (0, close_round t) \<and>
           (keep_plan s \<longrightarrow> good_plan s (cost_bound s) (plan t))
         \<or> \<not> has_solution s (cost_bound s) \<and> oneshot \<and> res = Inl (-1, close_round t)
         \<or> (\<exists>u left' bt st. res = Inr (u, left', bt, st) \<and> ready u \<and>
              (in_time (clock_reads s) left \<longrightarrow> in_time (clock_reads u) left') \<and>
              (\<not> has_solution s (cost_bound s) \<and> \<not> oneshot \<and> u = close_round t \<or>
               u = t \<and> todo (opened u) < todo (opened s)))))"

lemma round_doneI:
  assumes "config t = config s"
  shows "has_solution s (cost_bound s) \<Longrightarrow> keep_plan s \<longrightarrow> good_plan s (cost_bound s) (plan t) \<Longrightarrow>
      round_done s left oneshot (Inl (0, close_round t))"
    and "\<not> has_solution s (cost_bound s) \<Longrightarrow> oneshot \<Longrightarrow> round_done s left oneshot (Inl (-1, close_round t))"
    and "ready u \<Longrightarrow> (in_time (clock_reads s) left \<Longrightarrow> in_time (clock_reads u) left') \<Longrightarrow>
      \<not> has_solution s (cost_bound s) \<and> \<not> oneshot \<and> u = close_round t \<or> u = t \<and> todo (opened u) < todo (opened s) \<Longrightarrow>
      round_done s left oneshot (Inr (u, left', bt, st))"
  unfolding round_done_def using assms by blast+

lemma open_round_frame [simp]:
  "clock_reads (open_round s) = clock_reads s" "keep_plan (open_round s) = keep_plan s"
  by (simp_all add: open_round_def CreateSolver_def Let_def split: solver_class.split)

lemma opened_eq: "opened s = (open_round s)\<lparr>clock_reads := Suc (clock_reads s)\<rparr>"
  by (simp add: opened_def now_def)

lemma opened_starts:
  "opened (s\<lparr>solver_log := l, clock_reads := n, first_try := False\<rparr>) = retry_from l (Suc n) s"
  "opened (close_round (s\<lparr>solver_log := l, clock_reads := n\<rparr>)) = go_on_from l (Suc n) s"
  by (simp_all add: opened_eq retry_from_def go_on_from_def open_round_def close_round_def
      CreateSolver_def ReleaseSolver_def CleanUp_def Let_def split: solver_class.split)

lemma config_problem:
  "config t = config s \<Longrightarrow> has_solution t = has_solution s \<and> good_plan t = good_plan s \<and> cost_bound t = cost_bound s"
  by (simp add: fun_eq_iff config_def has_solution_def good_plan_def cost_bound_def)

lemma millis_mono: "x \<le> y \<Longrightarrow> 0 \<le> x \<Longrightarrow> millis x \<le> millis y"
  by (simp add: millis_def zdiv_mono1)

lemma millis_le: "0 \<le> x \<Longrightarrow> 1000000 * millis x \<le> x"
  by (simp add: millis_def)

lemma millis_over: "0 \<le> x \<Longrightarrow> lim < millis x \<Longrightarrow> 1000000 * lim < x"
  using millis_le [of x] by linarith

lemma TimesUp_eq: "TimesUp a b lim s = (if lim < millis (b - a) then (True, ReleaseSolver (CleanUp s)) else (False, s))"
  by (simp add: TimesUp_def)

lemma log_round_frame:
  "log_round bt st r (s\<lparr>clock_reads := n\<rparr>) = (log_round bt st r s)\<lparr>clock_reads := n\<rparr>"
  "lazy_const (log_round bt st r s) = lazy_const s" "conflicts_present (log_round bt st r s) = conflicts_present s"
  by (simp_all add: log_round_def)

lemma round_spec:
  assumes rdy: "ready s" and clk: "mono clk"
    and run: "solve_round create invoke clk oneshot (s, left, bt, st) = res"
  shows "(\<exists>u. res = Inl (1, u)) \<and> \<not> in_time (clock_reads s) left \<or> round_done s left oneshot res"
proof -
  let ?n = "clock_reads s"
  let ?s1 = "opened s"
  obtain nv s2 where c: "create left ?s1 = (nv, s2)" by fastforce
  let ?m = "clock_reads s2"
  let ?s4 = "s2\<lparr>nr_vars := nv, clock_reads := Suc ?m\<rparr>"
  let ?d1 = "clk ?m - clk ?n" and ?d2 = "clk (Suc (Suc ?m)) - clk (Suc ?m)"
  let ?left1 = "left - millis ?d1"
  let ?s5 = "?s4\<lparr>clock_reads := Suc (Suc ?m)\<rparr>"
  obtain r u where i: "InvokeSolver invoke (?left1 + 100) ?s5 = (r, u)" by fastforce
  have acc: "accepts ?s1" using rdy by (simp add: ready_def)
  have nm: "Suc ?n < ?m" using create_clock [OF acc c] by (simp add: opened_eq)
  have d1: "0 \<le> ?d1" and d2: "0 \<le> ?d2" using monoD [OF clk] nm by simp_all
  let ?t = "(log_round (bt + millis ?d1) (st + millis ?d2) r u)\<lparr>clock_reads := Suc (clock_reads u)\<rparr>"
  let ?retry = "Inr (?t\<lparr>first_try := False\<rparr>, ?left1 - millis ?d2, bt + millis ?d1, st + millis ?d2)"
  let ?next = "Inr (close_round ?t, ?left1 - millis ?d2, bt + millis ?d1, st + millis ?d2)"
  have run: "res = (if left < millis ?d1 then Inl (1, ReleaseSolver (CleanUp ?s4))
      else if ?left1 < millis (clk (clock_reads u) - clk (Suc ?m)) then Inl (1, ReleaseSolver (CleanUp (u\<lparr>clock_reads := Suc (clock_reads u)\<rparr>)))
      else (let t = (log_round (bt + millis ?d1) (st + millis (clk (clock_reads u) - clk (Suc ?m))) r u)\<lparr>clock_reads := Suc (clock_reads u)\<rparr>;
            left2 = ?left1 - millis (clk (clock_reads u) - clk (Suc ?m));
            st2 = st + millis (clk (clock_reads u) - clk (Suc ?m)) in
        if r = 0 \<and> unfinished u then Inr (t\<lparr>first_try := False\<rparr>, left2, bt + millis ?d1, st2)
        else if r = 0 then Inl (0, close_round t)
        else if r = -1 then Inl (1, close_round t)
        else if oneshot then Inl (-1, close_round t)
        else Inr (close_round t, left2, bt + millis ?d1, st2)))"
    unfolding run [symmetric] using c i
    by (cases "left < millis ?d1"; cases "?left1 < millis (clk (clock_reads u) - clk (Suc ?m))")
      (simp_all add: solve_round_def now_def opened_eq TimesUp_eq log_round_frame unfinished_def Let_def)
  show ?thesis
  proof (cases "left < millis ?d1")
    case True
    then have "\<not> in_time ?n left"
      using millis_over [OF d1 True] unfolding in_time_def by (meson linorder_not_less)
    then show ?thesis using run True by auto
  next
    case False
    have nv: "nv \<noteq> -1"
    proof
      assume "nv = -1"
      then have "left < millis (clk (?m - 1) - clk (Suc ?n))" using create_late [OF acc] c by (simp add: opened_eq)
      moreover have "millis (clk (?m - 1) - clk (Suc ?n)) \<le> millis ?d1"
        using monoD [OF clk, of "Suc ?n" "?m - 1"] monoD [OF clk, of "?m - 1" ?m] monoD [OF clk, of ?n "Suc ?n"] nm
        by (intro millis_mono) auto
      ultimately show False using False by simp
    qed
    have H: "holds ?s1 ?s5"
      using holds_clock [OF create_holds [OF acc c nv], of "Suc (Suc ?m)"] by simp
    have cu: "clock_reads u = Suc (Suc ?m)" and cfg: "config u = config s"
      using invoke_frame [OF H i] holds_config [OF H] by (simp_all add: opened_eq)
    have prob: "has_solution ?s1 = has_solution s" "cost_bound ?s1 = cost_bound s" "good_plan ?s1 = good_plan s"
      "keep_plan ?s1 = keep_plan s"
      using config_problem [of ?s1 s] config_simps(6) [of ?s1 s] by (simp_all add: opened_eq)
    show ?thesis
    proof (cases "?left1 < millis ?d2")
      case True
      have "1000000 * left < clk (Suc (Suc ?m)) - clk ?n"
        using millis_over [OF d2 True] millis_le [OF d1] monoD [OF clk, of ?m "Suc ?m"] by simp
      then have "\<not> in_time ?n left" unfolding in_time_def by (meson linorder_not_less)
      then show ?thesis using run True False cu by auto
    next
      case fast: False
      have left: "in_time (Suc (Suc (Suc ?m))) (?left1 - millis ?d2)" if it: "in_time ?n left"
        unfolding in_time_def
      proof
        fix k
        have "clk k - clk ?n \<le> 1000000 * left" using it by (simp add: in_time_def)
        moreover have "clk ?m \<le> clk (Suc ?m)" "clk (Suc (Suc ?m)) \<le> clk (Suc (Suc (Suc ?m)))"
          using monoD [OF clk] by simp_all
        ultimately show "clk k - clk (Suc (Suc (Suc ?m))) \<le> 1000000 * (?left1 - millis ?d2)"
          using millis_le [OF d1] millis_le [OF d2] by (simp add: algebra_simps)
      qed
      have res: "res = (if r = 0 \<and> unfinished u then ?retry else if r = 0 then Inl (0, close_round ?t)
          else if r = -1 then Inl (1, close_round ?t) else if oneshot then Inl (-1, close_round ?t) else ?next)"
        unfolding run cu if_not_P [OF False] if_not_P [OF fast] Let_def by (rule refl)
      let ?n4 = "Suc (Suc (Suc (Suc ?m)))"
      obtain l where l: "log_round (bt + millis ?d1) (st + millis ?d2) r u = u\<lparr>solver_log := l\<rparr>"
        by (simp add: log_round_def)
      have t: "config ?t = config s" "config (?t\<lparr>first_try := False\<rparr>) = config s"
        using cfg by simp_all
      have close: "plan ?t = plan u" "clock_reads (close_round ?t) = Suc (Suc (Suc ?m))"
        using cu by (simp_all add: log_round_def close_round_def ReleaseSolver_def CleanUp_def Let_def split: solver_class.split)
      have starts: "opened (?t\<lparr>first_try := False\<rparr>) = retry_from l ?n4 u" "opened (close_round ?t) = go_on_from l ?n4 u"
        unfolding l cu by (rule opened_starts)+
      have late: "\<not> ?left1 + 100 \<le> millis (clk (clock_reads ?s5) - clk (clock_reads ?s5 - 1))" using fast by simp
      from invoke_answer [OF H i] late
      consider (sol) "r = 0" "\<not> unfinished u" "has_solution s (cost_bound s)" "keep_plan s \<longrightarrow> good_plan s (cost_bound s) (plan u)"
        | (more) "r = 0" "unfinished u" "accepts (retry_from l ?n4 u)" "todo (retry_from l ?n4 u) < todo ?s1"
        | (none) "r = 1" "\<not> has_solution s (cost_bound s)" "accepts (go_on_from l ?n4 u)"
        unfolding prob by blast
      then have "round_done s left oneshot res"
      proof cases
        case sol
        then have eq: "res = Inl (0, close_round ?t)" using res by simp
        show ?thesis unfolding eq by (rule round_doneI(1) [OF t(1) sol(3)]) (use sol(4) close(1) in simp)
      next
        case more
        then have eq: "res = ?retry" using res by simp
        show ?thesis
          unfolding eq
        proof (rule round_doneI(3) [OF t(2)])
          show "ready (?t\<lparr>first_try := False\<rparr>)" unfolding ready_def starts(1) by (rule more(3))
          show "in_time (clock_reads (?t\<lparr>first_try := False\<rparr>)) (?left1 - millis ?d2)" if "in_time ?n left"
            using left [OF that] cu by simp
          show "\<not> has_solution s (cost_bound s) \<and> \<not> oneshot \<and> ?t\<lparr>first_try := False\<rparr> = close_round (?t\<lparr>first_try := False\<rparr>) \<or>
              ?t\<lparr>first_try := False\<rparr> = ?t\<lparr>first_try := False\<rparr> \<and> todo (opened (?t\<lparr>first_try := False\<rparr>)) < todo (opened s)"
            unfolding starts(1) using more(4) by blast
        qed
      next
        case none
        show ?thesis
        proof (cases oneshot)
          case True
          then have eq: "res = Inl (-1, close_round ?t)" using none(1) res by simp
          show ?thesis unfolding eq by (rule round_doneI(2) [OF t(1) none(2) True])
        next
          case False
          then have eq: "res = ?next" using none(1) res by simp
          show ?thesis
            unfolding eq
          proof (rule round_doneI(3) [OF t(1)])
            show "ready (close_round ?t)" unfolding ready_def starts(2) by (rule none(3))
            show "in_time (clock_reads (close_round ?t)) (?left1 - millis ?d2)" if "in_time ?n left"
              unfolding close(2) by (rule left [OF that])
            show "\<not> has_solution s (cost_bound s) \<and> \<not> oneshot \<and> close_round ?t = close_round ?t \<or>
                close_round ?t = ?t \<and> todo (opened (close_round ?t)) < todo (opened s)"
              using none(2) False by blast
          qed
        qed
      qed
      then show ?thesis ..
    qed
  qed
qed

text \<open>The costs above the lower bound for which there is a solution, and its plans.\<close>

definition solvable_at :: "solver \<Rightarrow> int \<Rightarrow> bool" where
  "solvable_at s d \<longleftrightarrow> has_solution s (cost_bound s - delta s + d)"

definition plan_at :: "solver \<Rightarrow> int \<Rightarrow> int list list \<Rightarrow> bool" where
  "plan_at s d P \<longleftrightarrow> good_plan s (cost_bound s - delta s + d) P"

definition verdict :: "solver \<Rightarrow> bool \<Rightarrow> int \<Rightarrow> solver \<Rightarrow> bool" where
  "verdict s oneshot r u \<longleftrightarrow>
     r = 1 \<or>
     r = 0 \<and> delta s < delta u \<and> (oneshot \<longrightarrow> delta u = delta s + 1) \<and> solvable_at s (delta u - 1) \<and>
       (\<forall>d. delta s \<le> d \<longrightarrow> d < delta u - 1 \<longrightarrow> \<not> solvable_at s d) \<and>
       (keep_plan s \<longrightarrow> plan_at s (delta u - 1) (plan u)) \<or>
     r = -1 \<and> oneshot \<and> delta u = delta s + 1 \<and> \<not> solvable_at s (delta s)"

lemma close_round_frame [simp]:
  "inst (close_round t) = inst t" "agents (close_round t) = agents t" "movement (close_round t) = movement t"
  "cost_function (close_round t) = cost_function t" "delta (close_round t) = delta t + 1"
  "keep_plan (close_round t) = keep_plan t" "plan (close_round t) = plan t"
  by (simp_all add: close_round_def ReleaseSolver_def CleanUp_def Let_def split: solver_class.split)

lemma same_problem:
  assumes "config t = config s"
  shows "delta t = delta s" "keep_plan t = keep_plan s" "solvable_at t = solvable_at s" "plan_at t = plan_at s"
    "solvable_at (close_round t) = solvable_at s" "plan_at (close_round t) = plan_at s"
    "has_solution s (cost_bound s) = solvable_at s (delta s)" "good_plan s (cost_bound s) = plan_at s (delta s)"
  using config_simps [OF assms]
  by (simp_all add: fun_eq_iff solvable_at_def plan_at_def has_solution_def good_plan_def cost_bound_def)

lemma verdict_same:
  assumes "config t = config s" "verdict t oneshot r u"
  shows "verdict s oneshot r u"
  using assms(2) same_problem(1-4) [OF assms(1)] by (simp add: verdict_def)

lemma verdict_next:
  assumes t: "config t = config s" and no: "\<not> solvable_at s (delta s)"
    and v: "verdict (close_round t) False r u"
  shows "verdict s False r u"
proof (cases "r = 0")
  case True
  note same = same_problem [OF t]
  have "\<not> solvable_at s d" if "delta s \<le> d" "d < delta u - 1" for d
  proof (cases "d = delta s")
    case False
    then have "delta (close_round t) \<le> d" using that(1) same(1) by simp
    then show ?thesis using v True that(2) same(5) unfolding verdict_def by auto
  qed (use no in simp)
  then show ?thesis using v True same unfolding verdict_def by simp
next
  case False
  then show ?thesis using v by (simp add: verdict_def)
qed

text \<open>An induction over the rounds of a call, for a property of the first solver and the result.\<close>

lemma loop_rounds:
  assumes clk: "mono clk" and rdy: "ready s"
    and ret: "solve_loop (solve_round create invoke clk oneshot) (s, left, bt, st) = Some (r, u)"
    and late: "\<And>s left u. ready s \<Longrightarrow> Q s 1 u"
    and found: "\<And>s t. ready s \<Longrightarrow> config t = config s \<Longrightarrow> solvable_at s (delta s) \<Longrightarrow>
      keep_plan s \<longrightarrow> plan_at s (delta s) (plan t) \<Longrightarrow> Q s 0 (close_round t)"
    and none: "\<And>s t. ready s \<Longrightarrow> config t = config s \<Longrightarrow> \<not> solvable_at s (delta s) \<Longrightarrow> oneshot \<Longrightarrow> Q s (-1) (close_round t)"
    and more: "\<And>s t r u. ready s \<Longrightarrow> config t = config s \<Longrightarrow> \<not> solvable_at s (delta s) \<Longrightarrow> \<not> oneshot \<Longrightarrow>
      Q (close_round t) r u \<Longrightarrow> Q s r u"
    and retry: "\<And>s t r u. ready s \<Longrightarrow> config t = config s \<Longrightarrow> Q t r u \<Longrightarrow> Q s r u"
  shows "Q s r u"
proof -
  let ?P = "\<lambda>f ls q. f = solve_round create invoke clk oneshot \<longrightarrow> ready (fst ls) \<longrightarrow> Q (fst ls) (fst q) (snd q)"
  have "?P (solve_round create invoke clk oneshot) (s, left, bt, st) (r, u)"
  proof (rule solve_loop.raw_induct [where P = ?P, OF _ ret])
    fix loop f ls q
    assume IH: "\<And>f ls q. loop f ls = Some q \<Longrightarrow> ?P f ls q"
      and step: "(case f ls of Inl r \<Rightarrow> Some r | Inr ls' \<Rightarrow> loop f ls') = Some q"
    show "?P f ls q"
    proof (intro impI)
      assume f: "f = solve_round create invoke clk oneshot" and rdy: "ready (fst ls)"
      obtain s left bt st where ls: "ls = (s, left, bt, st)" by (cases ls) auto
      have rdy': "ready s" using rdy ls by simp
      from round_spec [OF rdy' clk refl, of oneshot left bt st]
      consider (late) u where "f ls = Inl (1, u)" | (full) "round_done s left oneshot (f ls)"
        using f ls by blast
      then show "Q (fst ls) (fst q) (snd q)"
      proof cases
        case late
        then show ?thesis using step assms(4) [OF rdy'] ls by auto
      next
        case full
        then obtain t where t: "config t = config s" and
          "solvable_at s (delta s) \<and> f ls = Inl (0, close_round t) \<and> (keep_plan s \<longrightarrow> plan_at s (delta s) (plan t)) \<or>
           \<not> solvable_at s (delta s) \<and> oneshot \<and> f ls = Inl (-1, close_round t) \<or>
           (\<exists>u left' bt st. f ls = Inr (u, left', bt, st) \<and> ready u \<and>
              (\<not> solvable_at s (delta s) \<and> \<not> oneshot \<and> u = close_round t \<or> u = t))"
          unfolding round_done_def using same_problem(7,8) [OF refl] by metis
        then consider (found) "solvable_at s (delta s)" "f ls = Inl (0, close_round t)" "keep_plan s \<longrightarrow> plan_at s (delta s) (plan t)"
          | (none) "\<not> solvable_at s (delta s)" "oneshot" "f ls = Inl (-1, close_round t)"
          | (again) u left' bt' st' where "f ls = Inr (u, left', bt', st')" "ready u"
              "\<not> solvable_at s (delta s) \<and> \<not> oneshot \<and> u = close_round t \<or> u = t"
          by blast
        then show ?thesis
        proof cases
          case found
          then show ?thesis using step assms(5) [OF rdy' t] ls by auto
        next
          case none
          then show ?thesis using step assms(6) [OF rdy' t] ls by auto
        next
          case again
          then have "loop f (u, left', bt', st') = Some q" using step by simp
          from IH [OF this] f again(2) have "Q u (fst q) (snd q)" by simp
          then show ?thesis using again(3) assms(7,8) [OF rdy' t] ls by auto
        qed
      qed
    qed
  qed
  then show ?thesis using rdy by simp
qed

text \<open>Whatever \<open>Solve\<close> returns is right.\<close>

lemma loop_sound:
  assumes clk: "mono clk" and rdy: "ready s"
    and ret: "solve_loop (solve_round create invoke clk oneshot) (s, left, bt, st) = Some (r, u)"
  shows "verdict s oneshot r u"
proof (rule loop_rounds [OF clk rdy ret, where Q = "\<lambda>s. verdict s oneshot"])
  show "verdict s oneshot 1 u" for s u by (simp add: verdict_def)
  show "verdict s oneshot 0 (close_round t)"
    if "config t = config s" "solvable_at s (delta s)" "keep_plan s \<longrightarrow> plan_at s (delta s) (plan t)" for s t
    using that same_problem(1) [OF that(1)] by (simp add: verdict_def)
  show "verdict s oneshot (-1) (close_round t)"
    if "config t = config s" "\<not> solvable_at s (delta s)" "oneshot" for s t
    using that same_problem(1) [OF that(1)] by (simp add: verdict_def)
  show "verdict s oneshot r u"
    if "config t = config s" "\<not> solvable_at s (delta s)" "\<not> oneshot" "verdict (close_round t) oneshot r u" for s t r u
    using verdict_next [OF that(1,2)] that(3,4) by simp
  show "verdict s oneshot r u" if "config t = config s" "verdict t oneshot r u" for s t r u
    by (rule verdict_same [OF that])
qed

text \<open>
  With enough time, \<open>Solve\<close> finds a solution if there is one: the number of costs to try decreases, or
  it stays and \<open>todo\<close> decreases.
\<close>

lemma loop_returns:
  assumes clk: "mono clk"
  shows "ready s \<Longrightarrow> in_time (clock_reads s) left \<Longrightarrow> solvable_at s (delta s + int k) \<Longrightarrow>
    \<exists>u. solve_loop (solve_round create invoke clk False) (s, left, bt, st) = Some (0, u)"
proof (induction "(k, todo (opened s))" arbitrary: k s left bt st
    rule: wf_induct_rule [OF wf_lex_prod [OF wf_less wf_less]])
  case (1 k s)
  let ?round = "solve_round create invoke clk False"
  have "round_done s left False (?round (s, left, bt, st))"
    using round_spec [OF 1(2) clk refl, of False left bt st] 1(3) by blast
  then obtain t where t: "config t = config s" and
    "solvable_at s (delta s) \<and> ?round (s, left, bt, st) = Inl (0, close_round t) \<or>
     (\<exists>u left' bt' st'. ?round (s, left, bt, st) = Inr (u, left', bt', st') \<and> ready u \<and> in_time (clock_reads u) left' \<and>
        (\<not> solvable_at s (delta s) \<and> u = close_round t \<or> u = t \<and> todo (opened u) < todo (opened s)))"
    unfolding round_done_def using same_problem(7) [OF refl] 1(3) by metis
  then consider (found) "?round (s, left, bt, st) = Inl (0, close_round t)"
    | (more) u left' bt' st' where "?round (s, left, bt, st) = Inr (u, left', bt', st')" "ready u" "in_time (clock_reads u) left'"
        "\<not> solvable_at s (delta s)" "u = close_round t"
    | (retry) u left' bt' st' where "?round (s, left, bt, st) = Inr (u, left', bt', st')" "ready u" "in_time (clock_reads u) left'"
        "u = t" "todo (opened u) < todo (opened s)"
    by blast
  then show ?case
  proof cases
    case found
    then show ?thesis by (subst solve_loop.simps) simp
  next
    case more
    obtain j where j: "k = Suc j" using more(4) 1(4) by (cases k) auto
    have "solvable_at u (delta u + int j)"
      using 1(4) same_problem(1,5) [OF t] j more(5) by (simp add: algebra_simps)
    then have "\<exists>v. solve_loop ?round (u, left', bt', st') = Some (0, v)"
      using 1(1) [of j u left' bt' st'] j more(2,3) by simp
    then show ?thesis using more(1) by (subst solve_loop.simps) simp
  next
    case retry
    have "solvable_at u (delta u + int k)" using 1(4) same_problem(1,3) [OF t] retry(4) by simp
    then have "\<exists>v. solve_loop ?round (u, left', bt', st') = Some (0, v)"
      using 1(1) [of k u left' bt' st'] retry(2,3,5) by simp
    then show ?thesis using retry(1) by (subst solve_loop.simps) simp
  qed
qed

end

section \<open>The state a call leaves\<close>

text \<open>What \<open>Solve\<close> logs is about the last cost it tried.\<close>

definition logged :: "solver \<Rightarrow> int \<Rightarrow> bool" where
  "logged u r \<longleftrightarrow>
     solution_mks (solver_log u) = GetMksLB (inst u) (agents u) + (delta u - 1) \<and>
     solution_soc (solver_log u) = (if cost_function u = 1 then 0 else GetSocLB (inst u) (agents u) + (delta u - 1)) \<and>
     (log_res (solver_log u) = 0 \<longleftrightarrow> r = 0)"

lemma close_round_log:
  "r = 0 \<longleftrightarrow> res = 0 \<Longrightarrow> logged (close_round (log_round bt st res s)) r"
  by (simp add: logged_def close_round_def log_round_def ReleaseSolver_def CleanUp_def Let_def split: solver_class.split)

lemma solve_round_logged:
  assumes "solve_round create invoke clk oneshot ls = Inl (r, u)" "r \<noteq> 1"
  shows "logged u r"
proof -
  obtain s left bt st where ls: "ls = (s, left, bt, st)" by (cases ls) auto
  show ?thesis
    using assms unfolding ls solve_round_def
    by (auto simp: Let_def case_prod_beta close_round_log split: if_splits)
qed

lemma solve_loop_logged:
  assumes "solve_loop (solve_round create invoke clk oneshot) ls = Some (r, u)" "r \<noteq> 1"
  shows "logged u r"
proof -
  let ?P = "\<lambda>f ls q. f = solve_round create invoke clk oneshot \<longrightarrow> fst q \<noteq> 1 \<longrightarrow> logged (snd q) (fst q)"
  have "?P (solve_round create invoke clk oneshot) ls (r, u)"
  proof (rule solve_loop.raw_induct [where P = ?P, OF _ assms(1)])
    fix loop f ls q
    assume IH: "\<And>f ls q. loop f ls = Some q \<Longrightarrow> ?P f ls q"
      and step: "(case f ls of Inl r \<Rightarrow> Some r | Inr ls' \<Rightarrow> loop f ls') = Some q"
    show "?P f ls q"
    proof (intro impI)
      assume f: "f = solve_round create invoke clk oneshot" and r: "fst q \<noteq> 1"
      show "logged (snd q) (fst q)"
      proof (cases "f ls")
        case (Inl q')
        then show ?thesis using step f r solve_round_logged [of create invoke clk oneshot ls "fst q" "snd q"] by simp
      next
        case (Inr ls')
        then show ?thesis using IH [of f ls' q] step f r by simp
      qed
    qed
  qed
  then show ?thesis using assms(2) by simp
qed

text \<open>What \<open>Solve\<close> leaves alone.\<close>

definition setting :: "solver \<Rightarrow> _" where
  "setting s = (class_of s, inst s, agents s, variables s, cost_function s, movement s, lazy_const s, duplicates s,
     use_avoid s, keep_plan s, print_plan s, timeout s, log_agents (solver_log s))"

lemma config_setting: "config t = config s \<Longrightarrow> setting t = setting s"
  by (simp add: config_def setting_def)

lemma round_setting: "setting (open_round s) = setting s" "setting (close_round s) = setting s"
  by (simp_all add: setting_def open_round_def CreateSolver_def close_round_def ReleaseSolver_def CleanUp_def Let_def
      split: solver_class.split)

context encoding_backend
begin

lemma loop_setting:
  assumes clk: "mono clk" and rdy: "ready s"
    and ret: "solve_loop (solve_round create invoke clk oneshot) (s, left, bt, st) = Some (r, u)" "r \<noteq> 1"
  shows "setting u = setting s"
proof -
  have same: "setting (close_round t) = setting s" if "config t = config s" for s t
    using config_setting [OF that] round_setting by simp
  have "r \<noteq> 1 \<longrightarrow> setting u = setting s"
  proof (rule loop_rounds [OF clk rdy ret(1), where Q = "\<lambda>s r u. r \<noteq> 1 \<longrightarrow> setting u = setting s"])
    show "r \<noteq> 1 \<longrightarrow> setting u = setting s"
      if "config t = config s" "r \<noteq> 1 \<longrightarrow> setting u = setting (close_round t)" for s t u :: solver and r :: int
      using that same [OF that(1)] by simp
    show "r \<noteq> 1 \<longrightarrow> setting u = setting s"
      if "config t = config s" "r \<noteq> 1 \<longrightarrow> setting u = setting t" for s t u :: solver and r :: int
      using that config_setting [OF that(1)] by simp
  qed (simp_all add: same)
  then show ?thesis using ret(2) by simp
qed

end

end
