(* ===== verification/Sat_Contract.thy ===== *)
theory Sat_Contract
  imports Demand Solve_Loop
begin

text \<open>
  The contract of \<open>CreateFormula\<close> of the SAT back end, for every kind of variables, eager and lazy: the
  clauses the solver holds after a call \<open>encode\<close> the instance for the requested cost. Every solution
  gives a model; a model gives trajectories within the cost, without collisions in the eager mode.
\<close>

section \<open>The tables\<close>

text \<open>Two states that agree in the tables and the parameters have the same variables and clauses.\<close>

definition same_tables :: "solver \<Rightarrow> solver \<Rightarrow> bool" where
  "same_tables t s \<longleftrightarrow>
     inst t = inst s \<and> variables t = variables s \<and> cost_function t = cost_function s \<and> movement t = movement s \<and>
     lazy_const t = lazy_const s \<and> duplicates t = duplicates s \<and> agents t = agents s \<and> vertices t = vertices s \<and>
     delta t = delta s \<and> max_timestep t = max_timestep s \<and> at t = at s \<and> pass t = pass s \<and> shift t = shift s \<and>
     shift_times_start t = shift_times_start s \<and> shift_times_end t = shift_times_end s"

lemma same_tables_view: "same_tables (view s) s"
  by (simp add: same_tables_def)

lemma same_tables_sym: "same_tables t s \<Longrightarrow> same_tables s t"
  by (simp add: same_tables_def)

lemma same_tables_trans: "same_tables u t \<Longrightarrow> same_tables t s \<Longrightarrow> same_tables u s"
  by (simp add: same_tables_def)

lemma same_fields:
  assumes "same_tables t s"
  shows "inst t = inst s" "variables t = variables s" "cost_function t = cost_function s" "movement t = movement s"
    "lazy_const t = lazy_const s" "duplicates t = duplicates s" "agents t = agents s" "vertices t = vertices s"
    "delta t = delta s" "max_timestep t = max_timestep s"
    "shift_times_start t = shift_times_start s" "shift_times_end t = shift_times_end s"
    "AT t = AT s" "PASS t = PASS s" "SHIFT t = SHIFT s" "has_nb t = has_nb s" "nb t = nb s"
    "first_time t = first_time s" "last_time t = last_time s" "cfg_of t = cfg_of s"
  using assms
  by (simp_all add: same_tables_def fun_eq_iff AT_def PASS_def SHIFT_def has_nb_def nb_def first_time_def last_time_def cfg_of_def)

lemma same_ready:
  assumes "same_tables t s"
  shows "enc_ready t = enc_ready s"
  unfolding fun_eq_iff enc_ready_def at_table_def pass_table_def shift_table_def may_shift_def same_fields [OF assms]
  by simp

lemma same_clauses:
  assumes "same_tables t s"
  shows "eager_cnf t = eager_cnf s" "positions_cnf t = positions_cnf s" "steps_cnf t = steps_cnf s"
  unfolding eager_cnf_def positions_cnf_def steps_cnf_def by_kind_def
    conf_vertex_clauses_def conf_swapping_at_clauses_def conf_swapping_pass_clauses_def
    conf_swapping_shift_clauses_def conf_pebble_at_clauses_def conf_pebble_pass_clauses_def conf_pebble_shift_clauses_def
    start_clauses_def goal_clauses_def none_at_goal_clauses_def next_vertex_at_clauses_def next_vertices_def
    enter_vertex_pass_clauses_def next_edge_pass_clauses_def next_edges_def exactly_one_shift_clauses_def
    next_vertex_shift_clauses_def same_fields [OF assms]
  by (rule refl)+

lemma same_meaning:
  assumes "same_tables t s"
  shows "occ t = occ s" "passes t = passes s" "shifts t = shifts s" "walk_meaning t = walk_meaning s"
    "dup_meaning t = dup_meaning s" "cost_meaning t = cost_meaning s"
proof -
  show occ: "occ t = occ s" and "passes t = passes s" "shifts t = shifts s"
    by (intro ext; simp add: occ_def passes_def shifts_def same_fields [OF assms])+
  show "walk_meaning t = walk_meaning s"
    by (intro ext) (simp add: walk_meaning_def same_clauses [OF assms])
  show "dup_meaning t = dup_meaning s"
    by (intro ext) (simp add: dup_meaning_def single_everywhere_def single_at_def same_fields [OF assms] occ)
  show "cost_meaning t = cost_meaning s"
    unfolding cost_meaning_def within_delay_def at_goal_by_def not_elsewhere_by_def fun_eq_iff same_fields [OF assms] occ
    by simp
qed

lemma same_decode:
  assumes "same_tables t s"
  shows "decode t I = decode s I"
proof -
  note M = same_meaning [OF assms] and S = same_fields [OF assms]
  have g: "goes t = goes s" by (intro ext) (simp add: goes_def by_kind_def M S)
  have "decode t I a k = decode s I a k" for a k
  proof (induction k)
    case (Suc k)
    show ?case unfolding decode.simps first_neighbor_def g S Suc by (rule refl)
  qed (simp add: S)
  then show ?thesis by (intro ext)
qed

lemma same_reads:
  assumes "same_tables t s"
  shows "reads t = reads s" "settles t = settles s"
  unfolding fun_eq_iff reads_def settles_def leaves_def same_meaning [OF assms] same_fields [OF assms] by simp_all

section \<open>What a formula encodes\<close>

definition encodes :: "solver \<Rightarrow> int \<Rightarrow> cnf \<Rightarrow> bool" where
  "encodes s n F \<longleftrightarrow>
     (\<exists>lo hi. enc_ready s lo hi \<and> hi \<le> n) \<and>
     (\<forall>I. cnf_true I F \<longrightarrow> walk_meaning s I \<and> dup_meaning s I \<and> cost_meaning s I \<and>
        (lazy_const s = 1 \<longrightarrow> cnf_true I (eager_cnf s))) \<and>
     (\<forall>p. solution (inst s) (agents s) (movement s) (cost_function s) (cost_bound s) p \<longrightarrow>
        settles s p \<and> (\<exists>J. cnf_true J F \<and> reads s J p))"

lemma same_encodes:
  assumes "same_tables t s"
  shows "encodes t = encodes s"
proof -
  have "cost_bound t = cost_bound s" by (simp add: cost_bound_def same_fields [OF assms])
  then show ?thesis
    by (intro ext) (simp add: encodes_def same_ready [OF assms] same_meaning [OF assms] same_clauses [OF assms]
        same_reads [OF assms] same_fields [OF assms])
qed

text \<open>The trajectories of a model, and the models of solutions.\<close>

lemma encodes_model:
  assumes E: "encodes s n F" and I: "cnf_true I F"
  shows "walk_meaning s I" "on_map (inst s) (agents s) (decode s I)"
    "within_cost (inst s) (agents s) (cost_function s) (cost_bound s) (decode s I)"
    "lazy_const s = 1 \<Longrightarrow> collision_free (movement s) (agents s) (decode s I)"
proof -
  obtain lo hi where R: "enc_ready s lo hi" using E unfolding encodes_def by blast
  have M: "walk_meaning s I" "dup_meaning s I" "cost_meaning s I" "lazy_const s = 1 \<Longrightarrow> cnf_true I (eager_cnf s)"
    using E I unfolding encodes_def by blast+
  show "walk_meaning s I" by (rule M)
  show "on_map (inst s) (agents s) (decode s I)" by (rule decode_on_map [OF R M(1)])
  show "within_cost (inst s) (agents s) (cost_function s) (cost_bound s) (decode s I)" by (rule kept_within_cost [OF R decode_kept [OF R M(1)] M(2,3)])
  show "lazy_const s = 1 \<Longrightarrow> collision_free (movement s) (agents s) (decode s I)"
    using M(4) by (intro decode_collision_free [OF R M(1)])
qed

lemma encodes_solution:
  "encodes s n F \<Longrightarrow> has_solution s (cost_bound s) \<Longrightarrow> \<exists>J. cnf_true J F"
  unfolding encodes_def has_solution_def by blast

lemma encodes_more:
  assumes E: "encodes s n F" and ok: "conflicts_ok (cfg_of s) s" and lz: "lazy_const s = 2"
  shows "encodes s n (F @ demand_cnf s)"
proof -
  obtain lo hi where R: "enc_ready s lo hi" using E unfolding encodes_def by blast
  have "cnf_true J (demand_cnf s)" if "settles s p" "reads s J p" for J p
    using settles_demand [OF R that ok] demand_sem(1) [OF R ok] by simp
  then have "settles s p \<and> (\<exists>J. cnf_true J (F @ demand_cnf s) \<and> reads s J p)"
    if "solution (inst s) (agents s) (movement s) (cost_function s) (cost_bound s) p" for p
    using E that unfolding encodes_def by (metis cnf_true_append)
  then show ?thesis using E lz unfolding encodes_def by simp
qed

lemma sat_formula_encodes:
  assumes R: "enc_ready s lo hi" and enc: "amk_ok enc" and lz: "lazy_const s \<in> {1, 2}"
    and ok: "lazy_const s = 2 \<longrightarrow> conflicts_ok (cfg_of s) s"
  shows "encodes s (snd (sat_formula enc hi s)) (fst (sat_formula enc hi s))"
proof -
  have le: "hi \<le> snd (sat_formula enc hi s)"
  proof -
    have 1: "hi \<le> snd (dup_cnf enc hi s)" by (rule gadgetD(1) [OF dup_gadget [OF R enc]])
    moreover from gadgetD(1) [OF cost_gadget [OF R enc this]]
    have "snd (dup_cnf enc hi s) \<le> snd (cost_cnf enc (snd (dup_cnf enc hi s)) s)" .
    ultimately show ?thesis by (simp add: sat_formula_def moves_cnf_eq case_prod_beta Let_def)
  qed
  have conf: "cnf_true J (conflicts_cnf s)" if "settles s p" "reads s J p" for J p
    using settles_conflicts [OF R that] settles_demand [OF R that] demand_sem(1) [OF R] ok lz
    by (auto simp: conflicts_cnf_def)
  have "settles s p \<and> (\<exists>J. cnf_true J (fst (sat_formula enc hi s)) \<and> reads s J p)"
    if "solution (inst s) (agents s) (movement s) (cost_function s) (cost_bound s) p" for p
    using solution_model [OF R enc that] conf unfolding sat_formula_true by blast
  moreover have "walk_meaning s I \<and> dup_meaning s I \<and> cost_meaning s I \<and> (lazy_const s = 1 \<longrightarrow> cnf_true I (eager_cnf s))"
    if "cnf_true I (fst (sat_formula enc hi s))" for I
  proof -
    have I: "base_true enc hi s I" "cnf_true I (conflicts_cnf s)" using that unfolding sat_formula_true by blast+
    show ?thesis using base_sound [OF R enc I(1)] I(2) by (auto simp: conflicts_cnf_def split: if_splits)
  qed
  ultimately show ?thesis unfolding encodes_def using R le by blast
qed

section \<open>The states in which \<open>CreateFormula\<close> is called\<close>

text \<open>What does not change while \<open>Solve\<close> runs. The lazy mode is right for agents with different goals.\<close>

definition sat_setting :: "solver \<Rightarrow> bool" where
  "sat_setting s \<longleftrightarrow>
     sat_mode s \<and> prepared (inst s) (agents s) \<and> (\<forall>a < agents s. 0 \<le> SP_lengths (inst s) ! a) \<and>
     vertices s = number_of_vertices (inst s) \<and> 0 \<le> delta s \<and>
     movement s \<in> {1, 2} \<and> cost_function s \<in> {1, 2} \<and> duplicates s \<in> {1, 2} \<and>
     (lazy_const s = 2 \<longrightarrow> goals_distinct (inst s) (agents s))"

lemma config_sat_setting:
  assumes "config t = config s"
  shows "sat_setting t = sat_setting s"
  using assms by (simp add: config_def sat_setting_def sat_mode_def)

lemma at_table_edges:
  "at_table (s\<lparr>pass := x\<rparr>) = at_table s"
  "at_table (s\<lparr>shift := w, shift_times_start := y, shift_times_end := z, max_timestep := n\<rparr>) = at_table s"
  by (simp_all add: fun_eq_iff at_table_def AT_def first_time_def last_time_def)

lemma var_state_ready:
  assumes S: "sat_setting s" and nr: "1 \<le> nr_vars s"
  shows "enc_ready (var_state s) (nr_vars s) (var_next s)"
proof -
  let ?t = "var_state s" and ?n = "GetMksLB (inst s) (agents s) + delta s"
  let ?s1 = "snd (CreateAt (nr_vars s) ?n (view s))" and ?l1 = "fst (CreateAt (nr_vars s) ?n (view s))"
  have prep: "prepared (inst s) (agents s)" and sp: "\<And>a. a < agents s \<Longrightarrow> 0 \<le> SP_lengths (inst s) ! a"
    and delta: "0 \<le> delta s" and v: "variables s \<in> {1, 2, 3}"
    using S by (auto simp: sat_setting_def sat_mode_def)
  have le: "SP_lengths (inst s) ! a \<le> fin ?t a" if "a < agents s" for a
    using mks_LB_ge [OF prep that] delta by (simp add: cfg_fin_def)
  have ok: "cfg_ok (cfg_of ?t)"
    using prep sp le S by (auto simp: cfg_ok_def sat_setting_def)
  have A: "at_table ?s1 ?n (nr_vars s) ?l1" by (rule CreateAt_table [OF nr])
  note l1 = at_tableD(1,2) [OF A]
  have mk: "(var_next s, ?t) = by_kind s (?l1, ?s1) (CreatePass ?l1 ?n ?s1) (CreateShift ?l1 ?n ?s1)"
    by (simp add: var_next_def var_state_def make_variables_def by_kind_def case_prod_beta)
  have "\<exists>mid \<le> var_next s. at_table ?t ?n (nr_vars s) mid \<and>
      (variables s = 2 \<longrightarrow> pass_table ?t ?n mid (var_next s)) \<and> (variables s = 3 \<longrightarrow> shift_table ?t ?n mid (var_next s))"
  proof (intro exI [of _ ?l1])
    consider "variables s = 1" | "variables s = 2" | "variables s = 3" using v by blast
    then show "?l1 \<le> var_next s \<and> at_table ?t ?n (nr_vars s) ?l1 \<and>
      (variables s = 2 \<longrightarrow> pass_table ?t ?n ?l1 (var_next s)) \<and> (variables s = 3 \<longrightarrow> shift_table ?t ?n ?l1 (var_next s))"
    proof cases
      case 1
      then have e: "var_next s = ?l1" "?t = ?s1" using mk by (simp_all add: by_kind_def prod_eq_iff)
      show ?thesis unfolding e using A 1 by simp
    next
      case 2
      then have e: "var_next s = fst (CreatePass ?l1 ?n ?s1)" "?t = snd (CreatePass ?l1 ?n ?s1)"
        using mk by (simp_all add: by_kind_def prod_eq_iff)
      have P: "pass_table ?t ?n ?l1 (var_next s)" unfolding e by (rule CreatePass_table) (use l1 in simp)
      have "at_table ?t = at_table ?s1" unfolding e CreatePass_eq snd_conv by (rule at_table_edges)
      then show ?thesis using A P pass_tableD(2) [OF P] 2 by simp
    next
      case 3
      then have e: "var_next s = fst (CreateShift ?l1 ?n ?s1)" "?t = snd (CreateShift ?l1 ?n ?s1)"
        using mk by (simp_all add: by_kind_def prod_eq_iff)
      have P: "shift_table ?t ?n ?l1 (var_next s)" unfolding e by (rule CreateShift_table) (use l1 in simp)
      have "at_table ?t = at_table ?s1" unfolding e CreateShift_eq snd_conv by (rule at_table_edges)
      then show ?thesis using A P shift_tableD(2) [OF P] 3 by simp
    qed
  qed
  then show ?thesis using ok S by (simp add: enc_ready_def sat_setting_def sat_mode_def)
qed

text \<open>The formula after the call with the next free variable, and the tables it is about.\<close>

definition formula_of :: "amk_encoder \<Rightarrow> solver \<Rightarrow> cnf \<times> int" where
  "formula_of enc s =
     (if first_try s then sat_formula enc (var_next s) (var_state s)
      else (the (SAT_solver s) @ conflicts_cnf (view s), nr_vars s))"

definition tables_of :: "solver \<Rightarrow> solver" where
  "tables_of s = (if first_try s then var_state s else view s)"

definition sat_start :: "solver \<Rightarrow> bool" where
  "sat_start s \<longleftrightarrow>
     sat_setting s \<and> \<not> conflicts_present s \<and> 1 \<le> nr_vars s \<and>
     (if first_try s then SAT_solver s = Some []
      else lazy_const s = 2 \<and> (\<exists>F. SAT_solver s = Some F \<and> encodes s (nr_vars s) F)) \<and>
     (lazy_const s = 2 \<longrightarrow> conflicts_ok (cfg_of (tables_of s)) s)"

lemma tables_of_fields [simp]:
  "inst (tables_of s) = inst s" "agents (tables_of s) = agents s" "variables (tables_of s) = variables s"
  "lazy_const (tables_of s) = lazy_const s" "movement (tables_of s) = movement s"
  "cost_function (tables_of s) = cost_function s" "delta (tables_of s) = delta s"
  "vertex_conflicts (tables_of s) = vertex_conflicts s" "swap_conflicts (tables_of s) = swap_conflicts s"
  "pebble_conflicts (tables_of s) = pebble_conflicts s" "view (tables_of s) = tables_of s"
  by (simp_all add: tables_of_def)

lemma conflicts_ok_tables: "conflicts_ok w (tables_of s) = conflicts_ok w s"
  by (simp add: conflicts_ok_def)

lemma cost_bound_tables [simp]: "cost_bound (tables_of s) = cost_bound s"
  by (simp add: cost_bound_def)

lemma config_view: "config (view s) = config s"
  by (simp add: config_def)

lemma config_tables: "config (tables_of s) = config s"
  by (simp add: tables_of_def config_view) (simp add: config_def)

lemma formula_of_encodes:
  assumes S: "sat_start s" and enc: "amk_ok enc"
  shows "encodes (tables_of s) (snd (formula_of enc s)) (fst (formula_of enc s))" and "1 \<le> snd (formula_of enc s)"
proof -
  have set: "sat_setting s" and nr: "1 \<le> nr_vars s" and lz: "lazy_const s \<in> {1, 2}"
    and ok: "lazy_const s = 2 \<longrightarrow> conflicts_ok (cfg_of (tables_of s)) (tables_of s)"
    using S by (auto simp: sat_start_def sat_setting_def sat_mode_def conflicts_ok_tables)
  have "encodes (tables_of s) (snd (formula_of enc s)) (fst (formula_of enc s)) \<and> 1 \<le> snd (formula_of enc s)"
  proof (cases "first_try s")
    case True
    note R = var_state_ready [OF set nr]
    have E: "encodes (var_state s) (snd (sat_formula enc (var_next s) (var_state s))) (fst (sat_formula enc (var_next s) (var_state s)))"
      using sat_formula_encodes [OF R enc] lz ok True by (simp add: tables_of_def)
    then obtain lo hi where "enc_ready (var_state s) lo hi" "hi \<le> snd (sat_formula enc (var_next s) (var_state s))"
      unfolding encodes_def by blast
    then show ?thesis using E at_tableD(1,2) [OF enc_readyD(2)] True by (fastforce simp: formula_of_def tables_of_def)
  next
    case False
    then obtain F where F: "SAT_solver s = Some F" "encodes s (nr_vars s) F" "lazy_const s = 2"
      using S by (auto simp: sat_start_def)
    have "encodes (view s) (nr_vars s) F" using F(2) same_encodes [OF same_tables_view] by simp
    from encodes_more [OF this] ok F(3) False have "encodes (view s) (nr_vars s) (F @ demand_cnf (view s))"
      by (simp add: tables_of_def)
    then show ?thesis using F False nr by (simp add: formula_of_def tables_of_def conflicts_cnf_def)
  qed
  then show "encodes (tables_of s) (snd (formula_of enc s)) (fst (formula_of enc s))" "1 \<le> snd (formula_of enc s)" by simp_all
qed

text \<open>What the call returns.\<close>

lemma CreateFormula_formula:
  assumes S: "sat_start s" and run: "CreateFormula_SAT enc clk limit s = (l, t)"
  shows "clock_reads s < clock_reads t"
    and "l = -1 \<and> timed_out clk limit s t \<or>
      l = snd (formula_of enc s) \<and> SAT_solver t = Some (fst (formula_of enc s)) \<and> view t = tables_of s"
proof -
  have mode: "sat_mode s" using S by (simp add: sat_start_def sat_setting_def)
  have "clock_reads s < clock_reads t \<and> (l = -1 \<and> timed_out clk limit s t \<or>
      l = snd (formula_of enc s) \<and> SAT_solver t = Some (fst (formula_of enc s)) \<and> view t = tables_of s)"
  proof (cases "first_try s")
    case True
    then show ?thesis using CreateFormula_cases [OF mode True run] S
      by (auto simp: formula_of_def tables_of_def sat_start_def)
  next
    case False
    then show ?thesis using CreateFormula_again [OF mode False run] S
      by (auto simp: formula_of_def tables_of_def sat_start_def)
  qed
  then show "clock_reads s < clock_reads t"
    "l = -1 \<and> timed_out clk limit s t \<or>
      l = snd (formula_of enc s) \<and> SAT_solver t = Some (fst (formula_of enc s)) \<and> view t = tables_of s" by blast+
qed

end
