(* ===== verification/Sat_Backend.thy ===== *)
theory Sat_Backend
  imports Sat_Contract
begin

text \<open>
  The SAT back end keeps the promises of \<open>encoding_backend\<close> for every kind of variables, eager and lazy,
  so \<open>Solve\<close> is correct with it. What is assumed of the two libraries: \<open>amk_ok\<close> of PBLib's encoder and
  \<open>sat_solver_ok\<close> of CaDiCaL.
\<close>

section \<open>CaDiCaL\<close>

text \<open>
  An answer of the solver is right, and it gives up only after the watchdog has stopped it, at the
  time limit: the clock is read before the call (reading \<open>n - 1\<close>) and after it (reading \<open>n\<close>).
\<close>

definition sat_solver_ok :: "clock \<Rightarrow> sat_solver \<Rightarrow> bool" where
  "sat_solver_ok clk cadical \<longleftrightarrow>
     (\<forall>n lim F. let (ret, val) = cadical n lim F in
        ret = 10 \<and> cnf_true (model_of val) F \<or>
        ret = 20 \<and> \<not> (\<exists>I. cnf_true I F) \<or>
        ret = 0 \<and> lim \<le> millis (clk n - clk (n - 1)))"

text \<open>A solver that tries every assignment.\<close>

definition naive_sat :: sat_solver where
  "naive_sat n lim F =
     (case List.find (\<lambda>S. cnf_true (\<lambda>x. x \<in> set S) F) (subseqs (remdups (map abs (concat F)))) of
        Some S \<Rightarrow> (10, \<lambda>x. if x \<in> set S then 1 else 0)
      | None \<Rightarrow> (20, \<lambda>_. 0))"

lemma naive_sat_ok: "sat_solver_ok clk naive_sat"
proof -
  have "let (ret, val) = naive_sat n lim F in ret = 10 \<and> cnf_true (model_of val) F \<or> ret = 20 \<and> \<not> (\<exists>I. cnf_true I F)"
    for n lim F
  proof -
    let ?vs = "remdups (map abs (concat F))" and ?Q = "\<lambda>S. cnf_true (\<lambda>x. x \<in> set S) F"
    show ?thesis
    proof (cases "List.find ?Q (subseqs ?vs)")
      case (Some S)
      then have "?Q S" by (auto simp: find_Some_iff)
      moreover have "model_of (\<lambda>x. if x \<in> set S then 1 else 0) = (\<lambda>x. x \<in> set S)"
        by (auto simp: fun_eq_iff model_of_def)
      ultimately show ?thesis using Some by (simp add: naive_sat_def)
    next
      case None
      have "\<not> cnf_true I F" for I
      proof
        assume I: "cnf_true I F"
        have vs: "set ?vs = cnf_vars F" by (auto simp: cnf_vars_def clause_vars_def)
        have "cnf_true I F = cnf_true (\<lambda>x. x \<in> set (filter I ?vs)) F"
          by (rule cnf_true_cong) (use vs in auto)
        then have "?Q (filter I ?vs)" using I by simp
        moreover have "filter I ?vs \<in> set (subseqs ?vs)" by (rule filter_subseq)
        ultimately show False using None by (auto simp: find_None_iff)
      qed
      then show ?thesis using None by (simp add: naive_sat_def)
    qed
  qed
  then show ?thesis unfolding sat_solver_ok_def Let_def case_prod_beta by blast
qed

section \<open>Before and after the solver\<close>

lemma read_plan_frame [simp]:
  "config (read_plan nxt s) = config s" "clock_reads (read_plan nxt s) = clock_reads s"
  "nr_vars (read_plan nxt s) = nr_vars s" "SAT_solver (read_plan nxt s) = SAT_solver s"
  "view (read_plan nxt s) = view s"
  by (simp_all add: read_plan_def NormalizePlan_def config_def view_def case_prod_beta Let_def)

text \<open>
  The solver after \<open>CreateFormula\<close>. The tables are needed when a plan is read; in the other cases
  \<open>InvokeSolver\<close> deletes them.
\<close>

definition wants_plan :: "solver \<Rightarrow> bool" where
  "wants_plan s \<longleftrightarrow> print_plan s \<or> keep_plan s \<or> lazy_const s = 2"

definition sat_accepts :: "amk_encoder \<Rightarrow> sat_solver \<Rightarrow> clock \<Rightarrow> solver \<Rightarrow> bool" where
  "sat_accepts enc cadical clk s \<longleftrightarrow> sat_start s \<and> amk_ok enc \<and> sat_solver_ok clk cadical"

definition sat_holds :: "amk_encoder \<Rightarrow> sat_solver \<Rightarrow> clock \<Rightarrow> solver \<Rightarrow> solver \<Rightarrow> bool" where
  "sat_holds enc cadical clk s t \<longleftrightarrow>
     sat_accepts enc cadical clk s \<and> config t = config s \<and>
     SAT_solver t = Some (fst (formula_of enc s)) \<and> nr_vars t = snd (formula_of enc s) \<and>
     (wants_plan t \<longrightarrow> view t = tables_of s)"

text \<open>The clauses over the variables of the formula that it does not have yet.\<close>

definition sat_todo :: "amk_encoder \<Rightarrow> solver \<Rightarrow> nat" where
  "sat_todo enc s = card {c. small (snd (formula_of enc s)) c \<and> c \<notin> set (fst (formula_of enc s))}"

lemma finite_small: "finite {c. small n c \<and> P c}"
proof (rule finite_subset)
  show "{c. small n c \<and> P c} \<subseteq> {c. set c \<subseteq> {- n..n} \<and> length c \<le> 4}" by (fastforce simp: small_def)
  show "finite {c. set c \<subseteq> {- n..n} \<and> length c \<le> 4}" by (rule finite_lists_length_le) simp
qed

lemma wants_plan_config: "config t = config s \<Longrightarrow> wants_plan t = wants_plan s"
  by (simp add: config_def wants_plan_def)

lemma sat_holds_create:
  assumes acc: "sat_accepts enc cadical clk s" and c: "CreateFormula_SAT enc clk lim s = (l, t)" "l \<noteq> -1"
  shows "sat_holds enc cadical clk s (t\<lparr>nr_vars := l\<rparr>)"
proof -
  have S: "sat_start s" using acc by (simp add: sat_accepts_def)
  note C = CreateFormula_formula [OF S c(1)]
  then have l: "l = snd (formula_of enc s)" "SAT_solver t = Some (fst (formula_of enc s))" "view t = tables_of s"
    using c(2) by auto
  have "config t = config s" using config_view [of t] config_tables [of s] l(3) by simp
  moreover have "view (t\<lparr>nr_vars := l\<rparr>) = view t" by (simp add: view_def)
  ultimately show ?thesis using acc l by (simp add: sat_holds_def)
qed

lemma sat_create_late:
  assumes acc: "sat_accepts enc cadical clk s" and c: "CreateFormula_SAT enc clk lim s = (l, t)"
  shows "clock_reads s < clock_reads t" "l = -1 \<Longrightarrow> timed_out clk lim s t"
proof -
  have S: "sat_start s" and enc: "amk_ok enc" using acc by (simp_all add: sat_accepts_def)
  note C = CreateFormula_formula [OF S c]
  show "clock_reads s < clock_reads t" by (rule C(1))
  show "timed_out clk lim s t" if "l = -1" using C(2) formula_of_encodes(2) [OF S enc] that by auto
qed

lemma sat_holds_clock: "sat_holds enc cadical clk s t \<Longrightarrow> sat_holds enc cadical clk s (t\<lparr>clock_reads := n\<rparr>)"
proof -
  have "view (t\<lparr>clock_reads := n\<rparr>) = view t" by (simp add: view_def)
  then show "sat_holds enc cadical clk s t \<Longrightarrow> ?thesis" by (simp add: sat_holds_def wants_plan_def)
qed

lemma before_invoke_frame [simp]:
  "SAT_solver (before_invoke t) = SAT_solver t" "nr_vars (before_invoke t) = nr_vars t"
  "clock_reads (before_invoke t) = clock_reads t" "plan (before_invoke t) = []"
  by (simp_all add: before_invoke_def CleanUp_def Let_def)

lemma before_invoke_view: "wants_plan t \<Longrightarrow> view (before_invoke t) = view t"
  by (auto simp: before_invoke_def wants_plan_def view_def Let_def)

text \<open>\<open>InvokeSolver\<close>, by the answer of the SAT solver.\<close>

definition collect :: "solver \<Rightarrow> solver" where
  "collect s = (if plan s \<noteq> [] \<and> lazy_const s = 2 then GenerateConflicts s else s)"

lemma InvokeSolver_SAT_cases:
  assumes "InvokeSolver (InvokeSolverImplementation_SAT cadical) lim t = (r, u)"
    and F: "SAT_solver t = Some F" and c: "cadical (clock_reads t) lim F = (ret, val)"
  defines "b \<equiv> before_invoke t"
  shows "ret \<noteq> 10 \<Longrightarrow> r = 1 \<and> u = b\<lparr>solver_calls := solver_calls b + 1\<rparr>"
    and "ret = 10 \<Longrightarrow> \<not> wants_plan t \<Longrightarrow> r = 0 \<and> u = b\<lparr>solver_calls := solver_calls b + 1\<rparr>"
    and "ret = 10 \<Longrightarrow> wants_plan t \<Longrightarrow> r = 0 \<and>
      u = (let p = read_plan (GetNextVertex_SAT val b) b in (collect p)\<lparr>solver_calls := solver_calls (collect p) + 1\<rparr>)"
proof -
  have b: "SAT_solver b = Some F" "clock_reads b = clock_reads t" "plan b = []" "wants_plan b = wants_plan t"
    using F wants_plan_config [of "before_invoke t" t] unfolding b_def by simp_all
  have inv: "InvokeSolverImplementation_SAT cadical lim b = (if ret = 10 then 0 else 1,
      if wants_plan t \<and> ret = 10 then read_plan (GetNextVertex_SAT val b) b else b)"
  proof -
    have w: "(print_plan b \<or> keep_plan b \<or> lazy_const b = 2) = wants_plan t" using b(4) by (simp add: wants_plan_def)
    show ?thesis unfolding InvokeSolverImplementation_SAT_def w b option.sel c Let_def prod.case by (rule refl)
  qed
  have ru: "(r, u) = (let (res, s1) = InvokeSolverImplementation_SAT cadical lim b; s2 = collect s1 in
      (res, s2\<lparr>solver_calls := solver_calls s2 + 1\<rparr>))"
    using assms(1) unfolding InvokeSolver_def b_def [symmetric] collect_def by (rule sym)
  have cb: "collect b = b" using b(3) by (simp add: collect_def)
  show "ret \<noteq> 10 \<Longrightarrow> r = 1 \<and> u = b\<lparr>solver_calls := solver_calls b + 1\<rparr>"
    "ret = 10 \<Longrightarrow> \<not> wants_plan t \<Longrightarrow> r = 0 \<and> u = b\<lparr>solver_calls := solver_calls b + 1\<rparr>"
    "ret = 10 \<Longrightarrow> wants_plan t \<Longrightarrow> r = 0 \<and>
      u = (let p = read_plan (GetNextVertex_SAT val b) b in (collect p)\<lparr>solver_calls := solver_calls (collect p) + 1\<rparr>)"
    unfolding Let_def using ru [unfolded Let_def] cb by (simp_all add: inv)
qed

lemma collect_frame [simp]:
  "config (collect s) = config s" "clock_reads (collect s) = clock_reads s" "nr_vars (collect s) = nr_vars s"
  "SAT_solver (collect s) = SAT_solver s" "plan (collect s) = plan s"
  by (simp_all add: collect_def GenerateConflicts_eq config_def)

lemma collect_same: "same_tables (collect s) s"
  by (simp add: collect_def GenerateConflicts_eq same_tables_def)

lemma sat_invoke_frame:
  assumes h: "sat_holds enc cadical clk s t"
    and i: "InvokeSolver (InvokeSolverImplementation_SAT cadical) lim t = (r, u)"
  shows "config u = config t \<and> clock_reads u = clock_reads t \<and> nr_vars u = nr_vars t \<and> SAT_solver u = SAT_solver t"
proof -
  have F: "SAT_solver t = Some (fst (formula_of enc s))" using h by (simp add: sat_holds_def)
  obtain ret val where c: "cadical (clock_reads t) lim (fst (formula_of enc s)) = (ret, val)" by fastforce
  note C = InvokeSolver_SAT_cases [OF i F c]
  show ?thesis
    by (cases "ret = 10"; cases "wants_plan t") (use C in \<open>simp_all add: Let_def\<close>)
qed

section \<open>A model gives a plan\<close>

lemma sat_plan:
  assumes h: "sat_holds enc cadical clk s t" and w: "wants_plan t" and I: "cnf_true (model_of val) (fst (formula_of enc s))"
  defines "b \<equiv> before_invoke t"
  defines "p \<equiv> read_plan (GetNextVertex_SAT val b) b"
  shows "same_tables b (tables_of s)" and "encodes b (snd (formula_of enc s)) (fst (formula_of enc s))"
    and "plan_follows (inst s) (agents s) (plan p) (decode b (model_of val))"
    and "on_map (inst s) (agents s) (decode b (model_of val))"
    and "within_cost (inst s) (agents s) (cost_function s) (cost_bound s) (decode b (model_of val))"
    and "lazy_const s = 1 \<Longrightarrow> collision_free (movement s) (agents s) (decode b (model_of val))"
proof -
  have acc: "sat_accepts enc cadical clk s" and v: "view t = tables_of s" and cfg: "config t = config s"
    using h w by (simp_all add: sat_holds_def)
  have S: "sat_start s" "amk_ok enc" using acc by (simp_all add: sat_accepts_def)
  have "view b = tables_of s" unfolding b_def using before_invoke_view [OF w] v by simp
  then show same: "same_tables b (tables_of s)" using same_tables_sym [OF same_tables_view [of b]] by simp
  show E: "encodes b (snd (formula_of enc s)) (fst (formula_of enc s))"
    using formula_of_encodes(1) [OF S] same_encodes [OF same] by simp
  then obtain lo hi where R: "enc_ready b lo hi" unfolding encodes_def by blast
  have f: "inst b = inst s" "agents b = agents s" "movement b = movement s" "cost_function b = cost_function s"
    "lazy_const b = lazy_const s" "cost_bound b = cost_bound s"
    using config_simps [OF cfg] config_simps [of b t] unfolding b_def by (simp_all add: cost_bound_def)
  note M = encodes_model [OF E I]
  show "plan_follows (inst s) (agents s) (plan p) (decode b (model_of val))"
    using read_plan_follows [OF R M(1)] f by (simp add: p_def)
  show "on_map (inst s) (agents s) (decode b (model_of val))"
    "within_cost (inst s) (agents s) (cost_function s) (cost_bound s) (decode b (model_of val))"
    "lazy_const s = 1 \<Longrightarrow> collision_free (movement s) (agents s) (decode b (model_of val))"
    using M(2-4) f by simp_all
qed

text \<open>The state in which a round starts again after conflicts were found.\<close>

lemma retry_fields:
  assumes "SAT_solver u = Some F"
  shows "retry_from l n u = u\<lparr>solver_log := l, clock_reads := n, first_try := False, conflicts_present := False\<rparr>"
  using assms by (simp add: retry_from_def open_round_def Let_def)

lemma sat_setting_fields [simp]:
  "sat_setting (s\<lparr>solver_log := l\<rparr>) = sat_setting s" "sat_setting (s\<lparr>clock_reads := n\<rparr>) = sat_setting s"
  "sat_setting (s\<lparr>first_try := b\<rparr>) = sat_setting s" "sat_setting (s\<lparr>conflicts_present := b\<rparr>) = sat_setting s"
  "sat_setting (s\<lparr>solver_calls := x\<rparr>) = sat_setting s"
  by (simp_all add: sat_setting_def sat_mode_def)

lemma collected_cong:
  "vertex_conflicts t = vertex_conflicts s \<Longrightarrow> swap_conflicts t = swap_conflicts s \<Longrightarrow>
   pebble_conflicts t = pebble_conflicts s \<Longrightarrow> agents t = agents s \<Longrightarrow> movement t = movement s \<Longrightarrow>
   collected t = collected s"
  by (intro ext) (simp add: collected_def)

lemma sat_retry_state:
  fixes l :: logger and n :: nat
  assumes h: "sat_holds enc cadical clk s t" and lz: "lazy_const s = 2" and I: "cnf_true (model_of val) (fst (formula_of enc s))"
  defines "b \<equiv> before_invoke t"
  defines "p \<equiv> read_plan (GetNextVertex_SAT val b) b"
  defines "u \<equiv> (collect p)\<lparr>solver_calls := solver_calls (collect p) + 1\<rparr>"
  defines "r \<equiv> retry_from l n u"
  shows "r = u\<lparr>solver_log := l, clock_reads := n, first_try := False, conflicts_present := False\<rparr>"
    and "SAT_solver u = Some (fst (formula_of enc s))" "nr_vars u = snd (formula_of enc s)" "config u = config s"
    and "lazy_const p = 2" "agents p = agents s" "lazy_const r = 2" "inst r = inst s" "agents r = agents s" "movement r = movement s"
    and "same_tables r b" "same_tables (view r) b"
proof -
  have cfg: "config t = config s" and FS: "SAT_solver t = Some (fst (formula_of enc s))" "nr_vars t = snd (formula_of enc s)"
    using h by (simp_all add: sat_holds_def)
  show lb: "lazy_const p = 2" "agents p = agents s"
    using lz config_simps(2,7) [OF cfg] config_simps(2,7) [of p t] by (simp_all add: p_def b_def)
  show uF: "SAT_solver u = Some (fst (formula_of enc s))" "nr_vars u = snd (formula_of enc s)" "config u = config s"
    using FS cfg by (simp_all add: u_def p_def b_def)
  show r: "r = u\<lparr>solver_log := l, clock_reads := n, first_try := False, conflicts_present := False\<rparr>"
    unfolding r_def by (rule retry_fields [OF uF(1)])
  show "lazy_const r = 2" "inst r = inst s" "agents r = agents s" "movement r = movement s"
    using config_simps [OF uF(3)] lz by (simp_all add: r)
  have "same_tables u b"
    by (simp add: u_def p_def collect_def GenerateConflicts_eq same_tables_def read_plan_def NormalizePlan_def case_prod_beta Let_def)
  then show "same_tables r b" unfolding r by (simp add: same_tables_def)
  then show "same_tables (view r) b" using same_tables_trans [OF same_tables_view] by blast
qed

text \<open>The formula of the next round is the old one and clauses of which the model just found breaks one.\<close>

definition refuted :: "amk_encoder \<Rightarrow> (int \<Rightarrow> int) \<Rightarrow> solver \<Rightarrow> solver \<Rightarrow> bool" where
  "refuted enc val s r \<longleftrightarrow>
     (\<exists>D. formula_of enc r = (fst (formula_of enc s) @ D, snd (formula_of enc s)) \<and>
        (\<exists>c \<in> set D. small (snd (formula_of enc s)) c \<and> \<not> clause_true (model_of val) c))"

lemma refuted_todo:
  assumes I: "cnf_true (model_of val) (fst (formula_of enc s))" and r: "refuted enc val s r"
  shows "sat_todo enc r < sat_todo enc s"
proof -
  let ?F = "fst (formula_of enc s)" and ?n = "snd (formula_of enc s)"
  obtain D c where D: "formula_of enc r = (?F @ D, ?n)" and c: "c \<in> set D" "small ?n c" "\<not> clause_true (model_of val) c"
    using r unfolding refuted_def by blast
  have "c \<notin> set ?F" using c(3) I by (auto simp: cnf_true_def)
  then have "c \<in> {c. small ?n c \<and> c \<notin> set ?F} - {c. small ?n c \<and> c \<notin> set (?F @ D)}" using c by simp
  then have "{c. small ?n c \<and> c \<notin> set (?F @ D)} \<subset> {c. small ?n c \<and> c \<notin> set ?F}" by auto
  then show ?thesis
    unfolding sat_todo_def D fst_conv snd_conv by (rule psubset_card_mono [OF finite_small])
qed

lemma sat_retry:
  assumes h: "sat_holds enc cadical clk s t" and lz: "lazy_const s = 2" and I: "cnf_true (model_of val) (fst (formula_of enc s))"
  defines "b \<equiv> before_invoke t"
  defines "p \<equiv> read_plan (GetNextVertex_SAT val b) b"
  defines "u \<equiv> (collect p)\<lparr>solver_calls := solver_calls (collect p) + 1\<rparr>"
  assumes ne: "plan p \<noteq> []" and clash: "\<not> collision_free (movement s) (agents s) (decode b (model_of val))"
  shows "sat_accepts enc cadical clk (retry_from l n u) \<and> refuted enc val s (retry_from l n u)"
proof -
  let ?F = "fst (formula_of enc s)" and ?n = "snd (formula_of enc s)" and ?I = "model_of val" and ?r = "retry_from l n u"
  have S: "sat_start s" "amk_ok enc" "sat_solver_ok clk cadical" and w: "wants_plan t"
    using h lz config_simps(7) [of t s] by (simp_all add: sat_holds_def sat_accepts_def wants_plan_def)
  note B = sat_plan [OF h w I, folded b_def, folded p_def]
  note uF = sat_retry_state(2-6) [OF h lz I, folded b_def, folded p_def, folded u_def]
  note state = sat_retry_state(1,7-12) [where l = l and n = n, OF h lz I, folded b_def, folded p_def, folded u_def]
  note r = state(1) and f = state(2-5) and same = state(6,7)
  have E: "encodes ?r ?n ?F" "encodes (view ?r) ?n ?F" using B(2) same_encodes [OF same(1)] same_encodes [OF same(2)] by simp_all
  obtain lo hi where R: "enc_ready (view ?r) lo hi" "hi \<le> ?n" using E(2) unfolding encodes_def by blast
  note W = encodes_model(1) [OF E(2) I]
  have dec: "decode (view ?r) ?I = decode b ?I" by (rule same_decode [OF same(2)])
  have G: "goals_distinct (inst (view ?r)) (agents (view ?r))" using S(1) lz f by (simp add: sat_start_def sat_setting_def)
  obtain M where M: "1 \<le> M" and L: "lists (agents s) M (plan p) (decode b ?I)"
    and rest: "\<And>a k. a < agents s \<Longrightarrow> M \<le> k + 1 \<Longrightarrow> decode b ?I a k = goal_id (inst s) a"
    using plan_follows_lists [OF B(3)] by blast
  have "collected (GenerateConflicts p) M (decode b ?I)"
    using GenerateConflicts_collected [of p M "decode b ?I"] L uF(5) by simp
  moreover have "collected (view ?r) = collected (GenerateConflicts p)"
  proof -
    have u: "u = (GenerateConflicts p)\<lparr>solver_calls := solver_calls (GenerateConflicts p) + 1\<rparr>"
      using ne uF(4) by (simp add: u_def collect_def)
    show ?thesis unfolding r by (rule collected_cong) (simp_all add: u)
  qed
  ultimately have C: "collected (view ?r) M (decode (view ?r) ?I)" using dec by simp
  have ok: "conflicts_ok (cfg_of (tables_of ?r)) ?r"
    using collected_ok [OF R(1) W G C] conflicts_ok_tables [of _ ?r] by (simp add: tables_of_def r)
  obtain c where c: "c \<in> set (demand_cnf (view ?r))" "\<not> clause_true ?I c" "small hi c"
    using collected_false [OF R(1) W G C M] rest clash dec f by auto
  have "formula_of enc ?r = (?F @ demand_cnf (view ?r), ?n)"
    using f(1) uF conflicts_cnf_def [of "view ?r"] by (simp add: formula_of_def r)
  moreover have "small ?n c" using c(3) R(2) by (fastforce simp: small_def)
  ultimately have "refuted enc val s ?r" unfolding refuted_def using c(1,2) by blast
  moreover have "sat_start ?r"
    using config_sat_setting [OF uF(3)] S(1) E(1) f(1) uF formula_of_encodes(2) [OF S(1,2)] ok by (simp add: r sat_start_def)
  ultimately show ?thesis using S by (simp add: sat_accepts_def)
qed

text \<open>The state in which the next cost is tried: the conflicts stay in the windows.\<close>

lemma go_on_fields:
  assumes "class_of u = MAPFSAT_SAT"
  shows "go_on_from l n u = u\<lparr>solver_log := l, clock_reads := n, shift := None, shift_times_start := None,
    shift_times_end := None, pass := None, at := None, SAT_solver := Some [], first_try := True,
    delta := delta u + 1, conflicts_present := False\<rparr>"
  using assms by (simp add: go_on_from_def open_round_def close_round_def ReleaseSolver_def CreateSolver_def CleanUp_def Let_def)

lemma sat_go_on:
  assumes h: "sat_holds enc cadical clk s t"
  defines "b \<equiv> before_invoke t"
  defines "u \<equiv> b\<lparr>solver_calls := solver_calls b + 1\<rparr>"
  shows "sat_accepts enc cadical clk (go_on_from l n u)"
proof -
  let ?g = "go_on_from l n u"
  have acc: "sat_accepts enc cadical clk s" and cfg: "config t = config s" and nv: "nr_vars t = snd (formula_of enc s)"
    and v: "wants_plan t \<longrightarrow> view t = tables_of s"
    using h by (simp_all add: sat_holds_def)
  have S: "sat_start s" "amk_ok enc" "sat_solver_ok clk cadical" using acc by (simp_all add: sat_accepts_def)
  have u: "config u = config s" "nr_vars u = snd (formula_of enc s)" using cfg nv by (simp_all add: u_def b_def)
  have set: "sat_setting u" using config_sat_setting [OF u(1)] S(1) by (simp add: sat_start_def)
  have g: "?g = u\<lparr>solver_log := l, clock_reads := n, shift := None, shift_times_start := None,
      shift_times_end := None, pass := None, at := None, SAT_solver := Some [], first_try := True,
      delta := delta u + 1, conflicts_present := False\<rparr>"
    using set by (intro go_on_fields) (simp add: sat_setting_def sat_mode_def)
  have set': "sat_setting ?g" using set unfolding g by (simp add: sat_setting_def sat_mode_def)
  have nr: "1 \<le> nr_vars ?g" using formula_of_encodes(2) [OF S(1,2)] u(2) by (simp add: g)
  have f: "inst ?g = inst s" "agents ?g = agents s" "cost_function ?g = cost_function s" "delta ?g = delta s + 1"
    "lazy_const ?g = lazy_const s"
    using config_simps [OF u(1)] by (simp_all add: g)
  have "conflicts_ok (cfg_of (var_state ?g)) ?g" if lz: "lazy_const s = 2"
  proof -
    obtain lo hi where R: "enc_ready (tables_of s) lo hi"
      using formula_of_encodes(1) [OF S(1,2)] unfolding encodes_def by blast
    note R' = var_state_ready [OF set' nr]
    have "conflicts_ok (cfg_of (tables_of s)) s" using S(1) lz by (simp add: sat_start_def)
    then have "conflicts_ok (cfg_of (var_state ?g)) s"
    proof (rule conflicts_ok_mono [OF _ enc_readyD(1) [OF R] enc_readyD(1) [OF R']])
      show "w_timesteps (cfg_of (tables_of s)) \<le> w_timesteps (cfg_of (var_state ?g))"
        using enc_readyD(11) [OF R] f by simp
    qed (use f in simp_all)
    moreover have "vertex_conflicts ?g = vertex_conflicts s" "swap_conflicts ?g = swap_conflicts s"
      "pebble_conflicts ?g = pebble_conflicts s"
    proof -
      have w: "wants_plan t" using lz config_simps(7) [OF cfg] by (simp add: wants_plan_def)
      then have vb: "view b = tables_of s" using before_invoke_view [OF w] v by (simp add: b_def)
      have "vertex_conflicts b = vertex_conflicts s" "swap_conflicts b = swap_conflicts s" "pebble_conflicts b = pebble_conflicts s"
        using arg_cong [OF vb, of vertex_conflicts] arg_cong [OF vb, of swap_conflicts] arg_cong [OF vb, of pebble_conflicts]
        by simp_all
      then show "vertex_conflicts ?g = vertex_conflicts s" "swap_conflicts ?g = swap_conflicts s"
        "pebble_conflicts ?g = pebble_conflicts s" unfolding g by (simp_all add: u_def)
    qed
    ultimately show ?thesis unfolding conflicts_ok_def by simp
  qed
  then have "lazy_const ?g = 2 \<longrightarrow> conflicts_ok (cfg_of (tables_of ?g)) ?g"
    using f(5) by (simp add: tables_of_def) (simp add: g)
  moreover have "first_try ?g" "SAT_solver ?g = Some []" "\<not> conflicts_present ?g" by (simp_all add: g)
  ultimately have "sat_start ?g" using set' nr by (simp add: sat_start_def)
  then show ?thesis using S by (simp add: sat_accepts_def)
qed

section \<open>The promises\<close>

lemma collect_present:
  assumes "plan_follows (inst p) (agents p) (plan p) q" "movement p = 1 \<or> movement p = 2" "\<not> conflicts_present p" "lazy_const p = 2"
  shows "unfinished (collect p) \<longleftrightarrow> \<not> collision_free (movement p) (agents p) q"
    and "unfinished (collect p) \<Longrightarrow> plan p \<noteq> []"
proof -
  have lz: "lazy_const (collect p) = 2" using config_simps(7) [of "collect p" p] assms(4) by simp
  have "unfinished (collect p) \<longleftrightarrow> \<not> collision_free (movement p) (agents p) q" if "plan p \<noteq> []"
    using GenerateConflicts_present [OF assms(1-3)] that lz assms(4) by (simp add: unfinished_def collect_def)
  moreover have "\<not> unfinished (collect p)" "collision_free (movement p) (agents p) q" if e: "plan p = []"
  proof -
    show "\<not> unfinished (collect p)" using e assms(3) by (simp add: unfinished_def collect_def)
    have "agents p = 0" using assms(1) e by (auto simp: plan_follows_def)
    then show "collision_free (movement p) (agents p) q" by (simp add: collision_free_def)
  qed
  ultimately show "unfinished (collect p) \<longleftrightarrow> \<not> collision_free (movement p) (agents p) q"
    "unfinished (collect p) \<Longrightarrow> plan p \<noteq> []" by blast+
qed

lemma sat_found:
  assumes h: "sat_holds enc cadical clk s t" and w: "wants_plan t" and I: "cnf_true (model_of val) (fst (formula_of enc s))"
  defines "b \<equiv> before_invoke t"
  defines "p \<equiv> read_plan (GetNextVertex_SAT val b) b"
  defines "u \<equiv> (collect p)\<lparr>solver_calls := solver_calls (collect p) + 1\<rparr>"
  shows "\<not> unfinished u \<and> has_solution s (cost_bound s) \<and> good_plan s (cost_bound s) (plan u) \<or>
    unfinished u \<and> (\<forall>l n. sat_accepts enc cadical clk (retry_from l n u) \<and> refuted enc val s (retry_from l n u))"
proof -
  let ?q = "decode b (model_of val)"
  note B = sat_plan [OF h w I, folded b_def, folded p_def]
  have S: "sat_start s" and cfg: "config p = config s" and v: "view p = tables_of s"
    using h w before_invoke_view [OF w] by (simp_all add: sat_holds_def sat_accepts_def p_def b_def)
  have lz: "lazy_const s = 1 \<or> lazy_const s = 2" and mv: "movement s = 1 \<or> movement s = 2"
    using S by (auto simp: sat_start_def sat_setting_def sat_mode_def)
  note f = config_simps [OF cfg]
  have uc: "unfinished u = unfinished (collect p)" "plan u = plan p" by (simp_all add: u_def unfinished_def)
  have sol: "has_solution s (cost_bound s) \<and> good_plan s (cost_bound s) (plan u)" if "collision_free (movement s) (agents s) ?q"
    using B(3-5) that uc(2) unfolding has_solution_def good_plan_def solution_def by auto
  show ?thesis
  proof (cases "lazy_const s = 1")
    case True
    then have "\<not> unfinished u" using uc f by (simp add: unfinished_def collect_def)
    then show ?thesis using sol B(6) True by blast
  next
    case False
    then have l2: "lazy_const s = 2" using lz by blast
    have np: "\<not> conflicts_present p"
      using arg_cong [OF v, of conflicts_present] S by (simp add: tables_of_def sat_start_def var_state_def make_variables_eq by_kind_def split: if_splits)
    have pf: "plan_follows (inst p) (agents p) (plan p) ?q" "movement p = 1 \<or> movement p = 2" "lazy_const p = 2"
      using B(3) f mv l2 by simp_all
    note P = collect_present [OF pf(1,2) np pf(3)]
    show ?thesis
    proof (cases "collision_free (movement s) (agents s) ?q")
      case True
      then show ?thesis using sol P(1) uc(1) f by simp
    next
      case clash: False
      then have un: "unfinished (collect p)" using P(1) f by simp
      then show ?thesis
        using sat_retry [OF h l2 I, folded b_def, folded p_def, OF P(2) [OF un] clash, folded u_def] uc(1) by blast
    qed
  qed
qed

lemma sat_invoke_answer:
  assumes h: "sat_holds enc cadical clk s t"
    and i: "InvokeSolver (InvokeSolverImplementation_SAT cadical) lim t = (r, u)"
  shows "r = 0 \<and> \<not> unfinished u \<and> has_solution s (cost_bound s) \<and> (keep_plan s \<longrightarrow> good_plan s (cost_bound s) (plan u)) \<or>
    r = 0 \<and> unfinished u \<and> (\<forall>l n. sat_accepts enc cadical clk (retry_from l n u) \<and> sat_todo enc (retry_from l n u) < sat_todo enc s) \<or>
    r = 1 \<and> (\<not> has_solution s (cost_bound s) \<or> lim \<le> millis (clk (clock_reads t) - clk (clock_reads t - 1))) \<and>
      (\<forall>l n. sat_accepts enc cadical clk (go_on_from l n u))"
proof -
  let ?F = "fst (formula_of enc s)" and ?b = "before_invoke t"
  have acc: "sat_accepts enc cadical clk s" and cfg: "config t = config s" and F: "SAT_solver t = Some ?F"
    using h by (simp_all add: sat_holds_def)
  have S: "sat_start s" "amk_ok enc" "sat_solver_ok clk cadical" using acc by (simp_all add: sat_accepts_def)
  note E = formula_of_encodes(1) [OF S(1,2)]
  obtain ret val where c: "cadical (clock_reads t) lim ?F = (ret, val)" by fastforce
  note C = InvokeSolver_SAT_cases [OF i F c]
  have "let (ret, val) = cadical (clock_reads t) lim ?F in ret = 10 \<and> cnf_true (model_of val) ?F \<or>
      ret = 20 \<and> \<not> (\<exists>I. cnf_true I ?F) \<or> ret = 0 \<and> lim \<le> millis (clk (clock_reads t) - clk (clock_reads t - 1))"
    using S(3) unfolding sat_solver_ok_def by blast
  then consider (sat) "ret = 10" "cnf_true (model_of val) ?F" | (unsat) "ret \<noteq> 10" "\<not> (\<exists>I. cnf_true I ?F)"
    | (late) "ret \<noteq> 10" "lim \<le> millis (clk (clock_reads t) - clk (clock_reads t - 1))"
    using c by auto
  then show ?thesis
  proof cases
    case sat
    show ?thesis
    proof (cases "wants_plan t")
      case True
      then show ?thesis using C(3) [OF sat(1) True, unfolded Let_def] sat_found [OF h True sat(2)] refuted_todo [OF sat(2)] by auto
    next
      case False
      have k: "\<not> keep_plan s" "lazy_const s \<noteq> 2" using False config_simps(6,7) [OF cfg] by (simp_all add: wants_plan_def)
      have u: "r = 0" "u = ?b\<lparr>solver_calls := solver_calls ?b + 1\<rparr>" using C(2) [OF sat(1) False] by simp_all
      have "lazy_const u = lazy_const s" using config_simps(7) [of ?b s] cfg u(2) by simp
      then have nu: "\<not> unfinished u" using k(2) by (simp add: unfinished_def)
      have l1: "lazy_const s = 1" using S(1) k(2) by (auto simp: sat_start_def sat_setting_def sat_mode_def)
      have "has_solution (tables_of s) (cost_bound (tables_of s))"
        using encodes_model(2-4) [OF E sat(2)] l1 unfolding has_solution_def solution_def by auto
      then have "has_solution s (cost_bound s)" by (simp add: has_solution_def)
      then show ?thesis using u(1) nu k by blast
    qed
  next
    case unsat
    have u: "r = 1" "u = ?b\<lparr>solver_calls := solver_calls ?b + 1\<rparr>" using C(1) [OF unsat(1)] by simp_all
    have "\<not> has_solution (tables_of s) (cost_bound (tables_of s))" using encodes_solution [OF E] unsat(2) by blast
    then have "\<not> has_solution s (cost_bound s)" by (simp add: has_solution_def)
    then show ?thesis using u sat_go_on [OF h] by simp
  next
    case late
    have u: "r = 1" "u = ?b\<lparr>solver_calls := solver_calls ?b + 1\<rparr>" using C(1) [OF late(1)] by simp_all
    then show ?thesis using late(2) sat_go_on [OF h] by simp
  qed
qed

interpretation sat: encoding_backend "CreateFormula_SAT enc clk" "InvokeSolverImplementation_SAT cadical" clk
  "sat_accepts enc cadical clk" "sat_holds enc cadical clk" "sat_todo enc" for enc cadical clk
proof (unfold_locales, goal_cases)
  case (1 s lim l t)
  then show ?case by (rule sat_holds_create)
next
  case (2 s lim l t)
  then show ?case by (rule sat_create_late(1))
next
  case (3 s lim t)
  then show ?case using sat_create_late(2) [OF 3 refl] by (simp add: timed_out_def)
next
  case (4 s t)
  then show ?case by (simp add: sat_holds_def)
next
  case (5 s t n)
  then show ?case by (rule sat_holds_clock)
next
  case (6 s t lim r u)
  then show ?case using sat_invoke_frame by blast
next
  case (7 s t lim r u)
  then show ?case by (rule sat_invoke_answer)
qed

end
