(* ===== verification/Solve_Correct.thy ===== *)
theory Solve_Correct
  imports Sat_Backend
begin

text \<open>
  From the calls a user of the library makes (build an instance, \<open>SetAgents\<close>, create a SAT solver,
  \<open>SetData\<close>, \<open>Solve\<close>) to what \<open>Solve\<close> returns, in terms of plans on the map.
\<close>

section \<open>Costs of solutions\<close>

definition lower_bound :: "instance_t \<Rightarrow> nat \<Rightarrow> nat \<Rightarrow> int" where
  "lower_bound i n cf = (if cf = 1 then GetMksLB i n else GetSocLB i n)"

lemma within_cost_mono:
  assumes "within_cost i n cf k p" "k \<le> k'"
  shows "within_cost i n cf k' p"
proof -
  from assms(1) obtain c where c: "\<forall>a < n. arrives i p a (c a)"
    "if cf = 1 then \<forall>a < n. int (c a) + 1 \<le> k else (\<Sum>a<n. int (c a) + 1) \<le> k"
    unfolding within_cost_def by blast
  have "if cf = 1 then \<forall>a < n. int (c a) + 1 \<le> k' else (\<Sum>a<n. int (c a) + 1) \<le> k'"
    using c(2) assms(2) by (auto split: if_splits intro: order_trans)
  then show ?thesis using c(1) unfolding within_cost_def by blast
qed

lemma solution_mono: "solution i n mv cf k p \<Longrightarrow> k \<le> k' \<Longrightarrow> solution i n mv cf k' p"
  unfolding solution_def using within_cost_mono [of i n cf k p k'] by blast

text \<open>No solution is cheaper than the lower bound of the instance.\<close>

lemma arrival_bound:
  assumes prep: "prepared i n" and p: "on_map i n p" and a: "a < n" and c: "arrives i p a c"
  shows "SP_lengths i ! a \<le> int c"
proof -
  have "p a 0 = start_id i a" "\<And>t. p a (Suc t) = p a t \<or> (p a t, p a (Suc t)) \<in> moves i"
    using p a by (auto simp: on_map_def)
  then have "\<exists>m \<le> t. (start_id i a, p a t) \<in> moves i ^^ m" for t
  proof (induction t)
    case (Suc t)
    then obtain m where m: "m \<le> t" "(start_id i a, p a t) \<in> moves i ^^ m" by blast
    show ?case
    proof (cases "p a (Suc t) = p a t")
      case False
      then have "(start_id i a, p a (Suc t)) \<in> moves i ^^ Suc m" using Suc.prems(2) [of t] m(2) by auto
      then show ?thesis using m(1) by (intro exI [of _ "Suc m"]) simp
    qed (use m in \<open>auto intro: le_SucI\<close>)
  qed auto
  then obtain m where "m \<le> c" "(start_id i a, goal_id i a) \<in> moves i ^^ m"
    using c unfolding arrives_def by (metis order_refl)
  then show ?thesis using is_dist_le [OF SP_length_dist [OF prep a]] by fastforce
qed

lemma solution_lower_bound:
  assumes prep: "prepared i n" and cf: "cf = 1 \<Longrightarrow> 0 < n" and s: "solution i n mv cf k p"
  shows "lower_bound i n cf \<le> k"
proof -
  obtain c where c: "\<forall>a < n. arrives i p a (c a)"
    "if cf = 1 then \<forall>a < n. int (c a) + 1 \<le> k else (\<Sum>a<n. int (c a) + 1) \<le> k"
    and p: "on_map i n p"
    using s unfolding solution_def within_cost_def by blast
  have sp: "SP_lengths i ! a + 1 \<le> int (c a) + 1" if "a < n" for a
    using arrival_bound [OF prep p that] c(1) that by simp
  show ?thesis
  proof (cases "cf = 1")
    case True
    have le: "SP_lengths i ! a + 1 \<le> k" if "a < n" for a using sp [OF that] c(2) True that by force
    have "0 \<le> k" using c(2) True cf by force
    then have "mks_LBs i ! n \<le> k" using le by (auto simp: mks_LB_Max [OF prep order_refl])
    then show ?thesis using True mks_LB_nonneg [OF prep order_refl] by (simp add: lower_bound_def GetMksLB_def)
  next
    case False
    have "soc_LBs i ! n \<le> (\<Sum>a<n. int (c a) + 1)"
      unfolding soc_LB_sum [OF prep order_refl] by (rule sum_mono) (use sp in simp)
    then show ?thesis
      using False c(2) soc_LB_nonneg [OF prep order_refl] by (simp add: lower_bound_def GetSocLB_def)
  qed
qed

section \<open>The calls of a user\<close>

definition libraries_ok :: "amk_encoder \<Rightarrow> sat_solver \<Rightarrow> clock \<Rightarrow> bool" where
  "libraries_ok enc cadical clk \<longleftrightarrow> amk_ok enc \<and> sat_solver_ok clk cadical \<and> mono clk"

definition goals_reachable :: "instance_t \<Rightarrow> nat \<Rightarrow> bool" where
  "goals_reachable i n \<longleftrightarrow> (\<forall>a < n. (start_id i a, goal_id i a) \<in> (moves i)\<^sup>*)"

lemma make_instance_SetAgents:
  assumes "input_ok mv starts goals" "n \<le> length starts" "SetAgents n (make_instance mv starts goals sc mp) = Some i"
  shows "prepared i n" and "same_map (make_instance mv starts goals sc mp) i"
  using SetAgents_prepared [of "make_instance mv starts goals sc mp" n]
    make_instance_prepared [OF assms(1), of sc mp] assms by auto

text \<open>\<open>Solve\<close> of a SAT solver, with its virtual methods.\<close>

definition Solve_SAT ::
  "amk_encoder \<Rightarrow> sat_solver \<Rightarrow> clock \<Rightarrow> nat \<Rightarrow> int \<Rightarrow> bool \<Rightarrow> bool \<Rightarrow> solver \<Rightarrow> (int \<times> solver) option" where
  "Solve_SAT enc cadical clk = Solve (CreateFormula_SAT enc clk) (InvokeSolverImplementation_SAT cadical) clk"

text \<open>
  A solver of the SAT back end, whose positions to avoid are not used. In the lazy mode the agents must
  have different goals.
\<close>

definition sat_client :: "solver \<Rightarrow> bool" where
  "sat_client s \<longleftrightarrow>
     class_of s = MAPFSAT_SAT \<and> variables s \<in> {1, 2, 3} \<and> lazy_const s \<in> {1, 2} \<and> \<not> use_avoid s \<and>
     cost_function s \<in> {1, 2} \<and> movement s \<in> {1, 2} \<and> duplicates s \<in> {1, 2}"

definition goals_fit :: "nat \<Rightarrow> instance_t \<Rightarrow> nat \<Rightarrow> bool" where
  "goals_fit lz i n \<longleftrightarrow> goals_reachable i n \<and> (lz = 2 \<longrightarrow> goals_distinct i n)"

lemma new_sat_client:
  assumes "new_MAPFSAT_SAT var cf m lz dup slv nm s0 = Some s1"
  shows "sat_client (SetData i l to cf_path q pp False s1)"
    and "inst (SetData i l to cf_path q pp False s1) = i"
    and "cost_function (SetData i l to cf_path q pp False s1) = cf"
    and "movement (SetData i l to cf_path q pp False s1) = m"
    and "lazy_const (SetData i l to cf_path q pp False s1) = lz"
    and "clock_reads (SetData i l to cf_path q pp False s1) = clock_reads s0"
    and "timeout (SetData i l to cf_path q pp False s1) = to"
proof -
  have "encoding_args_ok var cf m lz dup" and s1: "s1 = s0\<lparr>class_of := MAPFSAT_SAT, solver_name := nm, variables := var,
      cost_function := cf, movement := m, lazy_const := lz, duplicates := dup, solver_to_use := slv\<rparr>"
    using assms by (simp_all add: new_MAPFSAT_SAT_def split: if_splits)
  then show "sat_client (SetData i l to cf_path q pp False s1)"
    by (simp add: sat_client_def SetData_def encoding_args_ok_def)
  show "inst (SetData i l to cf_path q pp False s1) = i" "cost_function (SetData i l to cf_path q pp False s1) = cf"
    "movement (SetData i l to cf_path q pp False s1) = m" "lazy_const (SetData i l to cf_path q pp False s1) = lz"
    "clock_reads (SetData i l to cf_path q pp False s1) = clock_reads s0" "timeout (SetData i l to cf_path q pp False s1) = to"
    unfolding s1 by (simp_all add: SetData_def)
qed

lemma solve_start_ready:
  assumes s: "sat_client s" and prep: "prepared (inst s) n"
    and fit: "goals_fit (lazy_const s) (inst s) n" and d: "0 \<le> d" and lib: "libraries_ok enc cadical clk"
  shows "sat.ready clk enc cadical (fst (solve_start n d keep s))"
proof -
  let ?t = "sat.opened clk (fst (solve_start n d keep s))"
  have sp: "\<forall>a < n. 0 \<le> SP_lengths (inst s) ! a"
    using fit is_dist_reach [OF SP_length_dist [OF prep]] by (simp add: goals_fit_def goals_reachable_def)
  have t: "?t = (fst (solve_start n d keep s))\<lparr>conflicts_present := False, SAT_solver := Some [], clock_reads := Suc (clock_reads s)\<rparr>"
    using s by (simp add: sat.opened_def now_def open_round_def CreateSolver_def solve_start_def sat_client_def Let_def)
  have "sat_setting ?t"
    using s prep sp d fit
    unfolding t by (simp add: sat_setting_def sat_mode_def solve_start_def sat_client_def goals_fit_def)
  moreover have "conflicts_ok w ?t" for w unfolding t by (simp add: conflicts_ok_def solve_start_def)
  moreover have "first_try ?t" "SAT_solver ?t = Some []" "\<not> conflicts_present ?t" "1 \<le> nr_vars ?t"
    unfolding t by (simp_all add: solve_start_def)
  ultimately have "sat_start ?t" by (simp add: sat_start_def)
  then show ?thesis using lib by (simp add: sat.ready_def sat_accepts_def libraries_ok_def)
qed

text \<open>The verdict of \<open>Solve\<close>: what the value \<open>r\<close> and the final solver \<open>u\<close> say about the instance.\<close>

definition solve_verdict :: "instance_t \<Rightarrow> nat \<Rightarrow> nat \<Rightarrow> nat \<Rightarrow> int \<Rightarrow> bool \<Rightarrow> bool \<Rightarrow> int \<Rightarrow> solver \<Rightarrow> bool" where
  "solve_verdict i n m cf d oneshot keep r u \<longleftrightarrow>
     (let solvable = (\<lambda>k. \<exists>p. solution i n m cf (lower_bound i n cf + k) p); k = delta u - 1 in
      r = 1 \<or>
      r = 0 \<and> d \<le> k \<and> (oneshot \<longrightarrow> k = d) \<and> solvable k \<and> (\<forall>j. d \<le> j \<longrightarrow> j < k \<longrightarrow> \<not> solvable j) \<and>
        (keep \<longrightarrow> (\<exists>p. solution i n m cf (lower_bound i n cf + k) p \<and> plan_follows i n (GetPlan u) p)) \<or>
      r = -1 \<and> oneshot \<and> k = d \<and> \<not> solvable d)"

lemma start_problem:
  assumes t: "t = fst (solve_start n d keep s)"
  shows "delta t = d" "keep_plan t = keep" "clock_reads t = clock_reads s"
    "sat.solvable_at t k \<longleftrightarrow>
      (\<exists>p. solution (inst s) n (movement s) (cost_function s) (lower_bound (inst s) n (cost_function s) + k) p)"
    "sat.plan_at t k P \<longleftrightarrow>
      (\<exists>p. solution (inst s) n (movement s) (cost_function s) (lower_bound (inst s) n (cost_function s) + k) p \<and>
        plan_follows (inst s) n P p)"
proof -
  have f: "inst t = inst s" "agents t = n" "cost_function t = cost_function s" "movement t = movement s" "delta t = d"
    "keep_plan t = keep" "clock_reads t = clock_reads s"
    by (simp_all add: t solve_start_def)
  then show "delta t = d" "keep_plan t = keep" "clock_reads t = clock_reads s" by simp_all
  have "cost_bound t - delta t + k = lower_bound (inst s) n (cost_function s) + k" for k
    using f by (simp add: cost_bound_def lower_bound_def)
  then show "sat.solvable_at t k \<longleftrightarrow>
      (\<exists>p. solution (inst s) n (movement s) (cost_function s) (lower_bound (inst s) n (cost_function s) + k) p)"
    "sat.plan_at t k P \<longleftrightarrow>
      (\<exists>p. solution (inst s) n (movement s) (cost_function s) (lower_bound (inst s) n (cost_function s) + k) p \<and>
        plan_follows (inst s) n P p)"
    using f by (simp_all add: sat.solvable_at_def sat.plan_at_def has_solution_def good_plan_def)
qed

lemma Solve_SAT_verdict:
  assumes s: "sat_client s" and prep: "prepared (inst s) n"
    and fit: "goals_fit (lazy_const s) (inst s) n" and d: "0 \<le> d" and lib: "libraries_ok enc cadical clk"
    and ret: "Solve_SAT enc cadical clk n d oneshot keep s = Some (r, u)"
  shows "solve_verdict (inst s) n (movement s) (cost_function s) d oneshot keep r u"
proof -
  let ?s = "fst (solve_start n d keep s)"
  have "solve_loop (solve_round (CreateFormula_SAT enc clk) (InvokeSolverImplementation_SAT cadical) clk oneshot)
      (?s, timeout s * 1000, 0, 0) = Some (r, u)"
    using ret by (simp add: Solve_SAT_def Solve_def solve_start_def)
  from sat.loop_sound [OF _ solve_start_ready [OF s prep fit d lib] this]
  have "sat.verdict ?s oneshot r u" using lib by (simp add: libraries_ok_def)
  then show ?thesis
    unfolding sat.verdict_def solve_verdict_def Let_def start_problem [OF refl] GetPlan_def
    by auto
qed

lemma Solve_SAT_finds:
  assumes s: "sat_client s" and prep: "prepared (inst s) n"
    and fit: "goals_fit (lazy_const s) (inst s) n" and d: "0 \<le> d" and lib: "libraries_ok enc cadical clk"
    and time: "\<forall>j. clk j - clk (clock_reads s) \<le> 1000000 * (timeout s * 1000)"
    and sol: "solution (inst s) n (movement s) (cost_function s) (lower_bound (inst s) n (cost_function s) + k) p" "d \<le> k"
  shows "\<exists>u. Solve_SAT enc cadical clk n d False keep s = Some (0, u)"
proof -
  let ?s = "fst (solve_start n d keep s)"
  have "sat.solvable_at ?s (delta ?s + int (nat (k - d)))"
    using sol unfolding start_problem [OF refl] by auto
  moreover have "sat.in_time clk (clock_reads ?s) (timeout s * 1000)"
    using time unfolding sat.in_time_def start_problem(3) [OF refl] by blast
  ultimately have "\<exists>u. solve_loop (solve_round (CreateFormula_SAT enc clk) (InvokeSolverImplementation_SAT cadical) clk False)
      (?s, timeout s * 1000, 0, 0) = Some (0, u)"
    using lib solve_start_ready [OF s prep fit d lib]
    by (intro sat.loop_returns [where k = "nat (k - d)"]) (simp_all add: libraries_ok_def)
  then show ?thesis by (simp add: Solve_SAT_def Solve_def solve_start_def)
qed

text \<open>After a call that is not cut off, the solver is ready for the next one, and the log is right.\<close>

lemma Solve_SAT_after:
  assumes s: "sat_client s" and prep: "prepared (inst s) n"
    and fit: "goals_fit (lazy_const s) (inst s) n" and d: "0 \<le> d" and lib: "libraries_ok enc cadical clk"
    and ret: "Solve_SAT enc cadical clk n d oneshot keep s = Some (r, u)" "r \<noteq> 1"
  shows "inst u = inst s" "sat_client u" "lazy_const u = lazy_const s" "movement u = movement s" "cost_function u = cost_function s"
    "timeout u = timeout s" "log_agents (solver_log u) = log_agents (solver_log s)" "agents u = n" "logged u r"
proof -
  let ?s = "fst (solve_start n d keep s)"
  have run: "solve_loop (solve_round (CreateFormula_SAT enc clk) (InvokeSolverImplementation_SAT cadical) clk oneshot)
      (?s, timeout s * 1000, 0, 0) = Some (r, u)"
    using ret(1) by (simp add: Solve_SAT_def Solve_def solve_start_def)
  have "setting u = setting ?s"
    using lib by (intro sat.loop_setting [OF _ solve_start_ready [OF s prep fit d lib] run ret(2)])
      (simp add: libraries_ok_def)
  then have u: "setting u = setting (s\<lparr>agents := n, keep_plan := keep\<rparr>)"
    by (simp add: setting_def solve_start_def)
  then show "inst u = inst s" "lazy_const u = lazy_const s" "movement u = movement s" "cost_function u = cost_function s"
    "timeout u = timeout s" "log_agents (solver_log u) = log_agents (solver_log s)" "agents u = n"
    by (simp_all add: setting_def)
  show "sat_client u" using u s by (simp add: setting_def sat_client_def)
  show "logged u r" by (rule solve_loop_logged [OF run ret(2)])
qed

end
