(* ===== verification/Text.thy ===== *)
theory Text
  imports Prelude "HOL-Library.Char_ord"
begin

text \<open>
  The standard library functions on text that the program uses: cutting a line at a separator with
  \<open>getline\<close>, writing integers to a stream, \<open>atoi\<close>, \<open>stoi\<close>, and formatted input from a stream.
\<close>

section \<open>Cutting at a separator\<close>

definition tab :: char where
  "tab = CHR 0x09"

definition newline :: char where
  "newline = CHR 0x0A"

text \<open>
  The words that \<open>while (getline(in, part, d))\<close> reads one after the other. A separator at the end
  does not start another word.
\<close>

function split_line :: "char \<Rightarrow> string \<Rightarrow> string list" where
  "split_line d [] = []"
| "split_line d (c # cs) = takeWhile (\<lambda>x. x \<noteq> d) (c # cs) # split_line d (drop 1 (dropWhile (\<lambda>x. x \<noteq> d) (c # cs)))"
  by pat_completeness auto
termination
  by (relation "measure (\<lambda>(d, s). length s)")
    (auto simp: less_Suc_eq_le intro: le_trans [OF diff_le_self length_dropWhile_le])

lemma split_line_word:
  assumes "d \<notin> set w"
  shows "split_line d (w @ d # s) = w # split_line d s"
proof (cases w)
  case (Cons c cs)
  have "takeWhile (\<lambda>x. x \<noteq> d) (w @ d # s) = w" "dropWhile (\<lambda>x. x \<noteq> d) (w @ d # s) = d # s"
    using assms by (auto simp: takeWhile_append dropWhile_append)
  then show ?thesis using Cons by simp
qed simp

lemma split_line_last:
  assumes "d \<notin> set w" "w \<noteq> []"
  shows "split_line d w = [w]"
proof -
  obtain c cs where w: "w = c # cs" using assms(2) by (cases w) auto
  have "takeWhile (\<lambda>x. x \<noteq> d) w = w" "dropWhile (\<lambda>x. x \<noteq> d) w = []"
    using assms by (auto simp: takeWhile_eq_all_conv dropWhile_eq_Nil_conv)
  then show ?thesis unfolding w by simp
qed

text \<open>Words that are each followed by the separator.\<close>

definition terminated :: "char \<Rightarrow> string list \<Rightarrow> string" where
  "terminated d ws = concat (map (\<lambda>w. w @ [d]) ws)"

lemma split_terminated_append:
  "(\<And>w. w \<in> set ws \<Longrightarrow> d \<notin> set w) \<Longrightarrow> split_line d (terminated d ws @ s) = ws @ split_line d s"
  by (induction ws) (simp_all add: terminated_def split_line_word)

lemma split_terminated: "(\<And>w. w \<in> set ws \<Longrightarrow> d \<notin> set w) \<Longrightarrow> split_line d (terminated d ws) = ws"
  using split_terminated_append [of ws d "[]"] by simp

section \<open>Writing integers\<close>

definition digit :: "nat \<Rightarrow> char" where
  "digit n = char_of (48 + n)"

fun show_nat :: "nat \<Rightarrow> string" where
  "show_nat n = (if n < 10 then [digit n] else show_nat (n div 10) @ [digit (n mod 10)])"

declare show_nat.simps [simp del]

definition show_int :: "int \<Rightarrow> string" where
  "show_int i = (if i < 0 then CHR ''-'' # show_nat (nat (- i)) else show_nat (nat i))"

section \<open>Reading integers\<close>

definition is_space :: "char \<Rightarrow> bool" where
  "is_space c \<longleftrightarrow> (of_char c :: nat) = 32 \<or> 9 \<le> (of_char c :: nat) \<and> (of_char c :: nat) \<le> 13"

definition is_digit :: "char \<Rightarrow> bool" where
  "is_digit c \<longleftrightarrow> 48 \<le> (of_char c :: nat) \<and> (of_char c :: nat) \<le> 57"

definition digits_value :: "string \<Rightarrow> nat" where
  "digits_value ds = foldl (\<lambda>n c. n * 10 + (of_char c - 48)) 0 ds"

text \<open>The sign and the rest.\<close>

definition read_sign :: "string \<Rightarrow> bool \<times> string" where
  "read_sign s =
     (case s of [] \<Rightarrow> (False, [])
      | c # cs \<Rightarrow> if c = CHR ''-'' then (True, cs) else if c = CHR ''+'' then (False, cs) else (False, s))"

text \<open>The longest prefix that is an integer, after white space.\<close>

definition read_int :: "string \<Rightarrow> int option" where
  "read_int s =
     (let (neg, s1) = read_sign (dropWhile is_space s); ds = takeWhile is_digit s1 in
      if ds = [] then None else Some (if neg then - int (digits_value ds) else int (digits_value ds)))"

datatype exn = Invalid_Argument | Out_Of_Range

definition in_int_range :: "int \<Rightarrow> bool" where
  "in_int_range v \<longleftrightarrow> - (2 ^ 31) \<le> v \<and> v < 2 ^ 31"

definition stoi :: "string \<Rightarrow> exn + int" where
  "stoi s =
     (case read_int s of None \<Rightarrow> Inl Invalid_Argument
      | Some v \<Rightarrow> if in_int_range v then Inr v else Inl Out_Of_Range)"

text \<open>\<open>atoi\<close> is undefined when the number is out of range.\<close>

definition atoi :: "string \<Rightarrow> int" where
  "atoi s = (case read_int s of None \<Rightarrow> 0 | Some v \<Rightarrow> if in_int_range v then v else undefined)"

lemma digit_props:
  assumes "n < 10"
  shows "(of_char (digit n) :: nat) = 48 + n" "is_digit (digit n)"
proof -
  show "(of_char (digit n) :: nat) = 48 + n" using assms by (simp add: digit_def)
  then show "is_digit (digit n)" using assms by (simp add: is_digit_def)
qed

lemma show_nat_digits: "\<forall>c \<in> set (show_nat n). is_digit c" and show_nat_not_Nil: "show_nat n \<noteq> []"
  by (induction n rule: show_nat.induct; subst show_nat.simps; auto simp: digit_props)+

lemma digits_value_append: "digits_value (ds @ [c]) = digits_value ds * 10 + (of_char c - 48)"
  by (simp add: digits_value_def)

lemma digits_value_show: "digits_value (show_nat n) = n"
proof (induction n rule: show_nat.induct)
  case (1 n)
  show ?case
  proof (cases "n < 10")
    case True
    then show ?thesis using digit_props(1) [of n] by (subst show_nat.simps) (simp add: digits_value_def)
  next
    case False
    then show ?thesis
      using 1 digit_props(1) [of "n mod 10"]
      by (subst show_nat.simps) (simp add: digits_value_append)
  qed
qed

lemma is_digit_chars: "is_digit c \<Longrightarrow> \<not> is_space c \<and> c \<noteq> CHR ''-'' \<and> c \<noteq> CHR ''+''"
  by (auto simp: is_digit_def is_space_def)

text \<open>What is written is read back.\<close>

lemma read_show_int_append:
  assumes "s = [] \<or> \<not> is_digit (hd s)"
  shows "read_int (show_int i @ s) = Some i"
proof -
  have tw: "takeWhile is_digit (show_nat n @ s) = show_nat n" for n
    using show_nat_digits [of n] assms by (cases s) (auto simp: takeWhile_append)
  obtain c cs where n: "show_nat (nat i) = c # cs" using show_nat_not_Nil [of "nat i"] by (cases "show_nat (nat i)") auto
  have c: "is_digit c" using show_nat_digits [of "nat i"] n by simp
  show ?thesis
  proof (cases "i < 0")
    case True
    have "\<not> is_space (CHR ''-'')" by (simp add: is_space_def)
    then show ?thesis
      using True tw [of "nat (- i)"] show_nat_not_Nil [of "nat (- i)"]
      by (simp add: read_int_def show_int_def read_sign_def digits_value_show)
  next
    case False
    have "dropWhile is_space (show_nat (nat i) @ s) = show_nat (nat i) @ s"
      "read_sign (show_nat (nat i) @ s) = (False, show_nat (nat i) @ s)"
      using n is_digit_chars [OF c] by (simp_all add: read_sign_def)
    then show ?thesis
      using False tw [of "nat i"] show_nat_not_Nil [of "nat i"]
      by (simp add: read_int_def show_int_def digits_value_show)
  qed
qed

lemma read_show_int: "read_int (show_int i) = Some i"
  using read_show_int_append [of "[]" i] by simp

lemma stoi_show: "in_int_range i \<Longrightarrow> stoi (show_int i) = Inr i"
  by (simp add: stoi_def read_show_int)

lemma atoi_show: "in_int_range i \<Longrightarrow> atoi (show_int i) = i"
  by (simp add: atoi_def read_show_int)

text \<open>A written number contains no white space.\<close>

lemma show_int_chars: "c \<in> set (show_int i) \<Longrightarrow> \<not> is_space c"
  using show_nat_digits is_digit_chars by (fastforce simp: show_int_def is_space_def split: if_splits)

end
