(* ===== verification/Logger.thy ===== *)
theory Logger
  imports Solver_State Text
begin

text \<open>
  The statistics object of \<open>src/src/logger.cpp\<close>: the constructor, \<open>NewInstance\<close> and \<open>PrintStatistics\<close>.
  The pointer to the instance is an argument of the operations that read it.
\<close>

section \<open>Construction and reset\<close>

text \<open>The members the constructor does not set are uninitialised.\<close>

definition new_logger :: "instance_t \<Rightarrow> string \<Rightarrow> int \<Rightarrow> string \<Rightarrow> logger" where
  "new_logger i enc type log_f =
     \<lparr>log_map_name = map_name i, log_scen_name = scen_name i, log_encoding = enc,
      solution_mks = undefined, solution_soc = undefined, building_time = undefined, solving_time = undefined,
      log_nr_vars = undefined, log_nr_clauses = undefined, log_nr_clauses_move = undefined,
      log_nr_clauses_dupli = undefined, log_nr_clauses_conflict = undefined, log_nr_clauses_soc = undefined,
      log_nr_clauses_unit = undefined, log_solver_calls = undefined, log_agents = undefined,
      mksLB = undefined, socLB = undefined, log_res = undefined, log_file = log_f, print_type = type\<rparr>"

definition NewInstance :: "instance_t \<Rightarrow> nat \<Rightarrow> logger \<Rightarrow> logger" where
  "NewInstance i ags l =
     l\<lparr>log_agents := ags, mksLB := GetMksLB i ags, socLB := GetSocLB i ags, solution_mks := 0,
       solution_soc := 0, building_time := 0, solving_time := 0, log_nr_vars := 0, log_nr_clauses := 0,
       log_res := 1\<rparr>"

section \<open>Printing the statistics\<close>

definition solution_text :: "logger \<Rightarrow> string" where
  "solution_text l = (if log_res l = 0 then ''sat'' else ''unsat'')"

text \<open>The numbers in the order they are printed.\<close>

definition log_numbers :: "logger \<Rightarrow> int list" where
  "log_numbers l =
     [int (log_agents l), mksLB l, socLB l, solution_mks l, solution_soc l, building_time l, solving_time l,
      log_solver_calls l, log_nr_vars l, log_nr_clauses l, log_nr_clauses_move l, log_nr_clauses_dupli l,
      log_nr_clauses_conflict l, log_nr_clauses_soc l, log_nr_clauses_unit l]"

definition inline_fields :: "logger \<Rightarrow> string list" where
  "inline_fields l =
     [log_map_name l, log_scen_name l, log_encoding l] @ map show_int (log_numbers l) @ [solution_text l]"

definition inline_text :: "logger \<Rightarrow> string" where
  "inline_text l = terminated tab (inline_fields l) @ [newline]"

definition readable_labels :: "string list" where
  "readable_labels =
     [''Map name:             '', ''Scenario name:        '', ''Encoding used:        '',
      ''Number of agents:     '', ''Mks lower bound:      '', ''Soc lower bound:      '',
      ''Solution mks:         '', ''Solution soc:         '', ''CNF building time:    '',
      ''SAT solving time:     '', ''Nr of solver calls:   '', ''Nr of variables:      '',
      ''Nr of clauses         '', ''Nr of move clauses:   '', ''Nr of dupli clauses:  '',
      ''Nr of conf clauses:   '', ''Nr of soc clauses:    '', ''Nr of unit clauses:   '',
      ''Found solution:       '']"

definition readable_text :: "logger \<Rightarrow> string" where
  "readable_text l =
     [newline] @ ''========== Results =========='' @ [newline] @
     terminated newline (map2 (@) readable_labels (inline_fields l)) @ [newline, newline]"

text \<open>
  Where the text goes: nowhere, to \<open>cout\<close>, or to the end of the log file when it can be opened. The
  type of the print is 0, 1 or 2; other types open the file and write nothing.
\<close>

datatype log_output = Silent | Stdout string | Appended string string | Not_Opened string

definition log_text :: "logger \<Rightarrow> string" where
  "log_text l = (if print_type l = 1 then inline_text l else if print_type l = 2 then readable_text l else [])"

definition PrintStatistics :: "(string \<Rightarrow> bool) \<Rightarrow> logger \<Rightarrow> log_output" where
  "PrintStatistics can_open l =
     (if print_type l = 0 then Silent
      else if log_file l = [] then Stdout (log_text l)
      else if \<not> can_open (log_file l) then Not_Opened (log_file l)
      else Appended (log_file l) (log_text l))"

section \<open>Reading an inline log\<close>

lemma show_int_no_separator: "tab \<notin> set (show_int i)" "newline \<notin> set (show_int i)"
  using show_int_chars [of tab i] show_int_chars [of newline i] by (auto simp: tab_def newline_def is_space_def)

lemma solution_text_no_separator: "tab \<notin> set (solution_text l)" "newline \<notin> set (solution_text l)"
  by (simp_all add: solution_text_def tab_def newline_def)

lemma inline_fields_clean:
  assumes "\<And>w. w \<in> {log_map_name l, log_scen_name l, log_encoding l} \<Longrightarrow> c \<notin> set w" "c = tab \<or> c = newline"
  shows "w \<in> set (inline_fields l) \<Longrightarrow> c \<notin> set w"
  using assms show_int_no_separator solution_text_no_separator by (auto simp: inline_fields_def)

text \<open>The lines of a log file of inline entries, cut at the tabs, are the logged fields.\<close>

lemma inline_log_fields:
  assumes "\<And>l w. l \<in> set ls \<Longrightarrow> w \<in> {log_map_name l, log_scen_name l, log_encoding l} \<Longrightarrow> tab \<notin> set w \<and> newline \<notin> set w"
  shows "map (split_line tab) (split_line newline (concat (map inline_text ls))) = map inline_fields ls"
proof -
  have eq: "concat (map inline_text ls) = terminated newline (map (\<lambda>l. terminated tab (inline_fields l)) ls)"
    by (simp add: terminated_def inline_text_def [abs_def] comp_def)
  have clean: "c \<notin> set w" if "l \<in> set ls" "w \<in> set (inline_fields l)" "c = tab \<or> c = newline" for l w c
    using inline_fields_clean [of l c w] assms that by blast
  have "newline \<notin> set (terminated tab (inline_fields l))" if "l \<in> set ls" for l
    using clean [OF that] by (auto simp: terminated_def tab_def newline_def)
  then have "split_line newline (concat (map inline_text ls)) = map (\<lambda>l. terminated tab (inline_fields l)) ls"
    unfolding eq by (intro split_terminated) auto
  moreover have "split_line tab (terminated tab (inline_fields l)) = inline_fields l" if "l \<in> set ls" for l
    using clean [OF that] by (intro split_terminated) blast
  ultimately show ?thesis by simp
qed

end
