(* ===== verification/Example.thy ===== *)
theory Example
  imports Solve_Correct Logger
begin

text \<open>
  The library client \<open>src/release/example.cpp\<close>: two agents on a map with five free cells that have to
  change places. The concrete data also serves as the input of the witnesses.
\<close>

section \<open>The program\<close>

definition example_map :: "int list list" where
  "example_map = [[-1, -1, 1, -1], [1, 1, 1, 1]]"

definition example_start :: "(int \<times> int) list" where
  "example_start = [(1, 0), (1, 1)]"

definition example_goal :: "(int \<times> int) list" where
  "example_goal = [(1, 1), (1, 0)]"

definition example_instance :: instance_t where
  "example_instance = make_instance example_map example_start example_goal [] []"

text \<open>
  The solver before \<open>Solve\<close>. The instance and the log are shared by pointers, so \<open>SetAgents\<close> and
  \<open>NewInstance\<close>, called after \<open>SetData\<close>, change what the solver sees.
\<close>

definition example_solver :: "solver \<Rightarrow> solver option" where
  "example_solver s0 =
     (let enc = ''soc_parallel_at_eager_single''; log = new_logger example_instance enc 2 [] in
      Option.bind (new_MAPFSAT_SAT 1 2 1 1 1 1 enc s0) (\<lambda>s1.
      let s2 = SetData example_instance log 300 [] False True False s1 in
      Option.bind (SetAgents 2 (inst s2)) (\<lambda>i.
      Some (s2\<lparr>inst := i, solver_log := NewInstance i 2 (solver_log s2)\<rparr>))))"

definition example_main :: "amk_encoder \<Rightarrow> sat_solver \<Rightarrow> clock \<Rightarrow> solver \<Rightarrow> (int \<times> solver) option" where
  "example_main enc cadical clk s0 =
     Option.bind (example_solver s0) (Solve_SAT enc cadical clk 2 2 False False)"

section \<open>Its instance\<close>

lemmas example_defs = example_map_def example_start_def example_goal_def example_instance_def

lemma less_suc_2: "i < (2::nat) \<longleftrightarrow> i = 0 \<or> i = 1"
  by auto

lemma example_input_ok: "input_ok example_map example_start example_goal"
  unfolding input_ok_def map_vector_ok_def cell_in_def example_defs
  by (auto simp: less_suc_2 All_less_Suc)

lemma example_grid:
  "imap example_instance = [[-1, -1, 0, -1], [1, 2, 3, 4]]"
  "coord_list example_instance = [\<lparr>vx = 0, vy = 2\<rparr>, \<lparr>vx = 1, vy = 0\<rparr>, \<lparr>vx = 1, vy = 1\<rparr>, \<lparr>vx = 1, vy = 2\<rparr>, \<lparr>vx = 1, vy = 3\<rparr>]"
  "number_of_vertices example_instance = 5" "height example_instance = 2" "width example_instance = 4"
  by code_simp+


lemma dir_range: "{Suc 0..<5} = {1, 2, 3, 4}"
  by auto

lemma example_moves:
  "{(1, 2), (2, 3), (3, 4), (3, 0), (2, 1), (3, 2), (4, 3), (0, 3)} \<subseteq> moves example_instance"
  by (simp add: moves_def move_rel_def HasNeighborID_def HasNeighbor_def GetNeighbor_def IDtoCoords_def example_grid size_dec_def Let_def dir_range)

section \<open>A solution\<close>

definition example_paths :: trajectories where
  "example_paths a t = (if a = 0 then [1, 2, 3, 4, 3, 2] ! min t 5 else [2, 3, 0, 3, 2, 1] ! min t 5)"

lemma less_suc_6: "t < (6::nat) \<longleftrightarrow> t = 0 \<or> t = 1 \<or> t = 2 \<or> t = 3 \<or> t = 4 \<or> t = 5"
  by auto

lemma example_ids:
  "start_id example_instance 0 = 1" "goal_id example_instance 0 = 2"
  "start_id example_instance 1 = 2" "goal_id example_instance 1 = 1"
  by code_simp+

lemmas example_ids' = example_ids [simplified One_nat_def]

lemma example_on_map: "on_map example_instance 2 example_paths"
proof -
  have "example_paths a (Suc t) = example_paths a t \<or> (example_paths a t, example_paths a (Suc t)) \<in> moves example_instance" for a t
  proof (cases "t < 5")
    case True
    then consider "t = 0" | "t = 1" | "t = 2" | "t = 3" | "t = 4" by linarith
    then show ?thesis using example_moves by cases (simp_all add: example_paths_def)
  qed (simp add: example_paths_def)
  then show ?thesis by (auto simp: on_map_def less_suc_2 example_ids') (simp_all add: example_paths_def)
qed

lemma example_collision_free: "collision_free 1 2 example_paths"
proof -
  have "example_paths 0 t \<noteq> example_paths 1 t \<and> \<not> (example_paths 0 t = example_paths 1 (Suc t) \<and> example_paths 0 (Suc t) = example_paths 1 t)" for t
  proof (cases "t < 5")
    case True
    then consider "t = 0" | "t = 1" | "t = 2" | "t = 3" | "t = 4" by linarith
    then show ?thesis by cases (simp_all add: example_paths_def)
  qed (simp add: example_paths_def)
  then show ?thesis by (auto simp: collision_free_def less_suc_2) (metis)+
qed

lemma example_solution: "solution example_instance 2 1 2 12 example_paths"
proof -
  have "within_cost example_instance 2 2 12 example_paths"
    unfolding within_cost_def arrives_def
    by (rule exI [of _ "\<lambda>_. 5"]) (auto simp: less_suc_2 example_ids' example_paths_def min_def)
  then show ?thesis using example_on_map example_collision_free by (simp add: solution_def)
qed

section \<open>Its solver\<close>

lemma example_prepared:
  shows "\<exists>i. SetAgents 2 example_instance = Some i \<and> prepared i 2 \<and> same_map example_instance i \<and> goals_fit lz i 2"
proof -
  note m = make_instance_prepared [OF example_input_ok, of "[]" "[]", folded example_instance_def]
  have "length (inst_agents example_instance) = 2" using m(2) by (simp add: example_start_def)
  then obtain i where i: "SetAgents 2 example_instance = Some i" "prepared i 2" "same_map example_instance i"
    using SetAgents_prepared [of example_instance 2] m(1,3) by auto
  have "goals_reachable example_instance 2" "goals_distinct example_instance 2"
    using example_moves by (auto simp: goals_reachable_def goals_distinct_def less_suc_2 example_ids')
  then have "goals_fit lz i 2"
    using same_map_queries [OF i(3)] by (simp add: goals_fit_def goals_reachable_def goals_distinct_def)
  with i show ?thesis by blast
qed

lemma solution_same_map: "same_map i i' \<Longrightarrow> solution i' n m cf k p = solution i n m cf k p"
  using same_map_queries [of i i']
  by (simp add: solution_def on_map_def within_cost_def arrives_def)

end
