(* ===== verification/Output.thy ===== *)
theory Output
  imports Plans Logger
begin

text \<open>
  What the program writes to \<open>cout\<close>: the texts of \<open>PrintSolveDetails\<close>, \<open>VerifyPlan\<close> and \<open>PrintPlan\<close> of
  \<open>src/src/encodings/solver_common.cpp\<close> and of the debug prints of \<open>src/src/instance.cpp\<close>.
\<close>

definition line :: "string \<Rightarrow> string" where
  "line s = s @ [newline]"

section \<open>The solver\<close>

definition PrintSolveDetails :: "int \<Rightarrow> solver \<Rightarrow> string" where
  "PrintSolveDetails time_left s =
     (if quiet s then []
      else concat (map line
        [''Currently solving'',
         ''Instance name: '' @ scen_name (inst s),
         ''Map name: '' @ map_name (inst s),
         ''Encoding used: '' @ solver_name s,
         ''SAT solver used: '' @ (if solver_to_use s = 1 then ''CaDiCaL'' else ''Monosat''),
         ''Optimizing function: '' @ (if cost_function s = 1 then ''makespan'' else ''sum of costs''),
         ''Number of agents: '' @ show_nat (agents s),
         ''Mks LB: '' @ show_int (GetMksLB (inst s) (agents s)),
         ''SoC LB: '' @ show_int (GetSocLB (inst s) (agents s)),
         ''Delta: '' @ show_int (delta s),
         ''Remaining time: '' @ show_int time_left @ '' [ms]'',
         []]))"

fun report_text :: "report \<Rightarrow> string" where
  "report_text (VertexReport a1 a2 t v) =
     ''Vertex conflict! Agents '' @ show_nat a1 @ '', '' @ show_nat a2 @ '', timestep '' @ show_nat t @
     '', location '' @ show_int v"
| "report_text (SwapReport a1 a2 t v u) =
     ''Swapping conflict! Agents '' @ show_nat a1 @ '', '' @ show_nat a2 @ '', timestep '' @ show_nat t @
     '', edge ('' @ show_int v @ '','' @ show_int u @ '')''"
| "report_text (PebbleReport a v t b) =
     ''Pebble conflict! Agent '' @ show_nat a @ '' moved into '' @ show_int v @ '' in '' @ show_nat t @
     '', but '' @ show_nat b @ '' was present in previous timestep.''"

definition plan_row_text :: "nat \<Rightarrow> int list \<Rightarrow> string" where
  "plan_row_text a row = ''Agent #'' @ show_nat a @ '' : '' @ concat (map (\<lambda>v. show_int v @ '' '') row)"

definition PrintPlan :: "solver \<Rightarrow> string" where
  "PrintPlan s =
     (let final_timesteps = (if length (plan s) > 0 then length (plan s ! 0) else 0) in
      concat (map (\<lambda>r. line (report_text r)) (VerifyPlan s)) @
      line (''Found plan [agents = '' @ show_nat (agents s) @ ''] [timesteps = '' @ show_nat final_timesteps @ '']'') @
      concat (map (\<lambda>a. line (plan_row_text a (plan s ! a))) [0..<length (plan s)]) @ line [])"

section \<open>The instance\<close>

definition DebugPrint_map :: "int list list \<Rightarrow> instance_t \<Rightarrow> string" where
  "DebugPrint_map m i =
     concat (map (\<lambda>r. line (map (\<lambda>c. if imap i ! r ! c = -1 then CHR ''@''
        else if m ! r ! c = -1 then CHR ''#'' else CHR ''.'') [0..<length (m ! r)])) [0..<length m])"

definition DebugPrint_ints :: "int list \<Rightarrow> string" where
  "DebugPrint_ints xs = line (concat (map (\<lambda>x. show_int x @ '' '') xs))"

definition DebugPrint_vertices :: "vertex list \<Rightarrow> string" where
  "DebugPrint_vertices vs =
     line (concat (map (\<lambda>v. ''('' @ show_nat (vx v) @ '', '' @ show_nat (vy v) @ '') '') vs))"

section \<open>The printed plan\<close>

text \<open>The numbers of a printed row are the positions of the agent.\<close>

lemma row_positions: "map read_int (split_line (CHR '' '') (concat (map (\<lambda>v. show_int v @ '' '') row))) = map Some row"
proof -
  have "CHR '' '' \<notin> set (show_int v)" for v
    using show_int_chars [of "CHR '' ''" v] by (auto simp: is_space_def)
  then have "split_line (CHR '' '') (terminated (CHR '' '') (map show_int row)) = map show_int row"
    by (intro split_terminated) auto
  then show ?thesis by (simp add: terminated_def comp_def read_show_int)
qed

end
