(* ===== verification/Loader.thy ===== *)
theory Loader
  imports Instance Text
begin

text \<open>
  The constructor of \<open>src/src/instance.cpp\<close> that reads files: \<open>LoadAgents\<close> parses a scenario, line by
  line, and \<open>LoadMap\<close> the map it names. The files are a parameter, a map from paths to contents. A
  number that cannot be read throws, which is \<open>Inl\<close>; the messages on \<open>cerr\<close> are not modelled.
\<close>

section \<open>Formatted input\<close>

text \<open>A stream is the text that is left and whether no operation has failed.\<close>

type_synonym stream = "string \<times> bool"

definition skip_line :: "stream \<Rightarrow> stream" where
  "skip_line = (\<lambda>(s, good). if \<not> good \<or> s = [] then ([], False) else (drop 1 (dropWhile (\<lambda>c. c \<noteq> newline) s), True))"

definition skip_word :: "stream \<Rightarrow> stream" where
  "skip_word = (\<lambda>(s, good).
     let s1 = dropWhile is_space s in
     if \<not> good \<or> s1 = [] then ([], False) else (dropWhile (\<lambda>c. \<not> is_space c) s1, True))"

text \<open>
  Extraction of a \<open>size_t\<close> into a variable with the given old value: 0 when there is no number, the
  largest value when it is too large, and wrap-around for a negative number.
\<close>

definition read_size :: "nat \<Rightarrow> stream \<Rightarrow> nat \<times> stream" where
  "read_size old = (\<lambda>(s, good).
     let s1 = dropWhile is_space s in
     if \<not> good \<or> s1 = [] then (old, ([], False))
     else let (neg, s2) = read_sign s1; ds = takeWhile is_digit s2; rest = dropWhile is_digit s2; v = digits_value ds in
       if ds = [] then (0, (rest, False))
       else if 2 ^ 64 \<le> v then (2 ^ 64 - 1, (rest, False))
       else (if neg then (2 ^ 64 - v) mod 2 ^ 64 else v, (rest, True)))"

text \<open>Extraction of a character; the variable keeps its value at the end of the file.\<close>

definition read_char :: "char \<Rightarrow> stream \<Rightarrow> char \<times> stream" where
  "read_char old = (\<lambda>(s, good).
     case dropWhile is_space s of [] \<Rightarrow> (old, ([], False))
     | c # cs \<Rightarrow> if good then (c, (cs, True)) else (old, ([], False)))"

section \<open>The map\<close>

definition load_map_cell :: "nat \<times> nat \<Rightarrow> char \<times> stream \<times> instance_t \<Rightarrow> char \<times> stream \<times> instance_t" where
  "load_map_cell = (\<lambda>(i, j) (c_dump, st, inst).
     let (c, st1) = read_char c_dump st in
     (c, st1,
      if c = CHR ''.'' then
        inst\<lparr>imap := (imap inst)[i := (imap inst ! i)[j := int (number_of_vertices inst)]],
             number_of_vertices := Suc (number_of_vertices inst),
             coord_list := coord_list inst @ [\<lparr>vx = i, vy = j\<rparr>]\<rparr>
      else inst))"

definition LoadMap :: "(string \<Rightarrow> string option) \<Rightarrow> string \<Rightarrow> instance_t \<Rightarrow> instance_t" where
  "LoadMap files map_path inst =
     (case files map_path of
        None \<Rightarrow> inst
      | Some content \<Rightarrow>
          let st1 = skip_line (content, True);
              (h, st2) = read_size (height inst) (skip_word st1);
              (w, st3) = read_size (width inst) (skip_word st2);
              st4 = skip_word st3;
              inst1 = inst\<lparr>height := h, width := w, imap := replicate h (replicate w (-1)), number_of_vertices := 0\<rparr>
          in snd (snd (fold load_map_cell (grid_cells h w) (undefined, st4, inst1))))"

section \<open>The agents\<close>

definition parse_vertex :: "string \<Rightarrow> string \<Rightarrow> exn + vertex" where
  "parse_vertex sx sy =
     (case stoi sx of Inl e \<Rightarrow> Inl e
      | Inr x \<Rightarrow> (case stoi sy of Inl e \<Rightarrow> Inl e | Inr y \<Rightarrow> Inr \<lparr>vx = size_t_of x, vy = size_t_of y\<rparr>))"

definition parse_agent :: "string list \<Rightarrow> exn + agent" where
  "parse_agent parts =
     (case parse_vertex (parts ! 5) (parts ! 4) of Inl e \<Rightarrow> Inl e
      | Inr s \<Rightarrow> (case parse_vertex (parts ! 7) (parts ! 6) of Inl e \<Rightarrow> Inl e
          | Inr g \<Rightarrow> Inr \<lparr>start = s, goal = g\<rparr>))"

fun load_lines ::
  "(string \<Rightarrow> string option) \<Rightarrow> string \<Rightarrow> bool \<Rightarrow> string list \<Rightarrow> instance_t \<Rightarrow> exn + instance_t" where
  "load_lines files map_dir map_loaded [] inst = Inr inst"
| "load_lines files map_dir map_loaded (l # ls) inst =
     (let parts = split_line tab l;
          inst1 = (if map_loaded then inst
                   else LoadMap files (map_dir @ ''/'' @ parts ! 1) (inst\<lparr>map_name := parts ! 1\<rparr>))
      in case parse_agent parts of Inl e \<Rightarrow> Inl e
         | Inr ag \<Rightarrow> load_lines files map_dir True ls (inst1\<lparr>inst_agents := inst_agents inst1 @ [ag]\<rparr>))"

definition LoadAgents :: "(string \<Rightarrow> string option) \<Rightarrow> string \<Rightarrow> string \<Rightarrow> instance_t \<Rightarrow> exn + instance_t" where
  "LoadAgents files agents_path map_dir inst =
     (case files agents_path of
        None \<Rightarrow> Inr inst
      | Some content \<Rightarrow>
          (case load_lines files map_dir False (drop 1 (split_line newline content)) inst of
             Inl e \<Rightarrow> Inl e
           | Inr inst1 \<Rightarrow> Inr (init_tables inst1)))"

definition load_instance :: "(string \<Rightarrow> string option) \<Rightarrow> string \<Rightarrow> string \<Rightarrow> exn + instance_t" where
  "load_instance files map_dir agents_file =
     (case LoadAgents files agents_file map_dir new_instance of
        Inl e \<Rightarrow> Inl e
      | Inr inst \<Rightarrow> Inr (inst\<lparr>last_number_of_agents := 0, scen_name := agents_file\<rparr>))"

section \<open>Reading back a map file\<close>

text \<open>The text of a map, given by its rows, and the matrix the data constructor would be given.\<close>

definition map_text :: "string \<Rightarrow> string list \<Rightarrow> string" where
  "map_text kind rows =
     terminated newline ([kind, ''height '' @ show_nat (length rows), ''width '' @ show_nat (length (rows ! 0)), ''map''] @ rows)"

definition map_rows_ok :: "string list \<Rightarrow> bool" where
  "map_rows_ok rows \<longleftrightarrow>
     rows \<noteq> [] \<and> rows ! 0 \<noteq> [] \<and> (\<forall>row \<in> set rows. length row = length (rows ! 0) \<and> (\<forall>c \<in> set row. \<not> is_space c)) \<and>
     length rows < 2 ^ 64 \<and> length (rows ! 0) < 2 ^ 64"

definition map_cells :: "string list \<Rightarrow> int list list" where
  "map_cells rows = map (map (\<lambda>c. if c = CHR ''.'' then 0 else -1)) rows"

text \<open>The header.\<close>

lemma newline_space [simp]: "is_space newline"
  by (simp add: is_space_def newline_def)

lemma digit_not_space: "is_digit c \<Longrightarrow> \<not> is_space c"
  using is_digit_chars by blast

lemma skip_line_text: "newline \<notin> set w \<Longrightarrow> skip_line (w @ newline # s, True) = (s, True)"
  by (auto simp: skip_line_def dropWhile_append)

lemma skip_word_text:
  assumes "w \<noteq> []" "\<forall>c \<in> set w. \<not> is_space c" "is_space x" "\<forall>c \<in> set b. is_space c"
  shows "skip_word (b @ w @ x # s, True) = (x # s, True)"
proof -
  have "dropWhile is_space (b @ w @ x # s) = w @ x # s"
    using assms by (cases w) (auto simp: dropWhile_append)
  moreover have "dropWhile (\<lambda>c. \<not> is_space c) (w @ x # s) = x # s" using assms by (auto simp: dropWhile_append)
  ultimately show ?thesis using assms(1) by (simp add: skip_word_def Let_def del: dropWhile_eq_Nil_conv)
qed

lemma read_size_text:
  assumes "n < 2 ^ 64" "is_space x" "is_space y"
  shows "read_size old (y # show_nat n @ x # s, True) = (n, (x # s, True))"
proof -
  obtain c cs where n: "show_nat n = c # cs" using show_nat_not_Nil [of n] by (cases "show_nat n") auto
  have c: "is_digit c" using show_nat_digits [of n] n by simp
  have x: "\<not> is_digit x" using assms(2) digit_not_space by blast
  have "dropWhile is_space (show_nat n @ x # s) = show_nat n @ x # s"
    using n digit_not_space [OF c] by simp
  moreover have "read_sign (show_nat n @ x # s) = (False, show_nat n @ x # s)"
    using n is_digit_chars [OF c] by (simp add: read_sign_def)
  moreover have "takeWhile is_digit (show_nat n @ x # s) = show_nat n" "dropWhile is_digit (show_nat n @ x # s) = x # s"
    using show_nat_digits [of n] x by (auto simp: takeWhile_append dropWhile_append)
  ultimately show ?thesis
    using assms(1,3) by (simp add: read_size_def Let_def digits_value_show show_nat_not_Nil del: dropWhile_eq_Nil_conv)
qed

lemma map_header:
  assumes "newline \<notin> set kind" "map_rows_ok rows"
  shows "skip_line (map_text kind rows, True) =
      (''height'' @ CHR '' '' # show_nat (length rows) @ newline # ''width'' @ CHR '' '' # show_nat (length (rows ! 0)) @
        newline # ''map'' @ newline # terminated newline rows, True)"
  using skip_line_text [OF assms(1)] by (simp add: map_text_def terminated_def)

lemma LoadMap_text_eq:
  assumes f: "files path = Some (map_text kind rows)" and k: "newline \<notin> set kind" and ok: "map_rows_ok rows"
  shows "LoadMap files path i =
    snd (snd (fold load_map_cell (grid_cells (length rows) (length (rows ! 0)))
      (undefined, (newline # terminated newline rows, True),
       i\<lparr>height := length rows, width := length (rows ! 0),
         imap := replicate (length rows) (replicate (length (rows ! 0)) (-1)), number_of_vertices := 0\<rparr>)))"
proof -
  let ?h = "length rows" and ?w = "length (rows ! 0)"
  have sp: "is_space (CHR '' '')" by (simp add: is_space_def)
  have words: "\<forall>c \<in> set ''height''. \<not> is_space c" "\<forall>c \<in> set ''width''. \<not> is_space c" "\<forall>c \<in> set ''map''. \<not> is_space c"
    by (simp_all add: is_space_def)
  have lt: "?h < 2 ^ 64" "?w < 2 ^ 64" using ok unfolding map_rows_ok_def by blast+
  define r3 where "r3 = newline # ''map'' @ newline # terminated newline rows"
  define r2 where "r2 = newline # ''width'' @ CHR '' '' # show_nat ?w @ r3"
  have 1: "skip_line (map_text kind rows, True) = (''height'' @ CHR '' '' # show_nat ?h @ r2, True)"
    using map_header [OF k ok] by (simp add: r2_def r3_def)
  have 2: "skip_word (''height'' @ CHR '' '' # show_nat ?h @ r2, True) = (CHR '' '' # show_nat ?h @ r2, True)"
    using skip_word_text [OF _ words(1) sp, of "[]"] by (simp only: append_Nil) simp
  have 3: "read_size (height i) (CHR '' '' # show_nat ?h @ r2, True) = (?h, (r2, True))"
    unfolding r2_def by (rule read_size_text [OF lt(1) newline_space sp])
  have 4: "skip_word (r2, True) = (CHR '' '' # show_nat ?w @ r3, True)"
    using skip_word_text [OF _ words(2) sp, of "[newline]"] by (simp add: r2_def)
  have 5: "read_size (width i) (CHR '' '' # show_nat ?w @ r3, True) = (?w, (r3, True))"
    unfolding r3_def by (rule read_size_text [OF lt(2) newline_space sp])
  have 6: "skip_word (r3, True) = (newline # terminated newline rows, True)"
    using skip_word_text [OF _ words(3) newline_space, of "[newline]"] by (simp add: r3_def)
  show ?thesis by (simp only: LoadMap_def f option.case Let_def 1 2 3 4 5 6 prod.case)
qed

text \<open>Both loops over the cells number the same cells.\<close>

definition same_cells :: "string list \<Rightarrow> (nat \<times> nat) list \<Rightarrow> instance_t \<Rightarrow> instance_t \<Rightarrow> bool" where
  "same_cells rows cs i1 i2 \<longleftrightarrow>
     i1\<lparr>imap := []\<rparr> = i2\<lparr>imap := []\<rparr> \<and>
     length (imap i1) = length rows \<and> length (imap i2) = length rows \<and>
     (\<forall>i < length rows. length (imap i1 ! i) = length (rows ! 0) \<and> length (imap i2 ! i) = length (rows ! 0)) \<and>
     (\<forall>i < length rows. \<forall>j < length (rows ! 0).
        if (i, j) \<in> set cs then imap i1 ! i ! j = -1 \<and> imap i2 ! i ! j = (if rows ! i ! j = CHR ''.'' then 0 else -1)
        else imap i1 ! i ! j = imap i2 ! i ! j)"

lemma read_char_next:
  "filter (\<lambda>c. \<not> is_space c) s = x # xs \<Longrightarrow>
   \<exists>s'. read_char old (s, True) = (x, (s', True)) \<and> filter (\<lambda>c. \<not> is_space c) s' = xs"
proof (induction s)
  case (Cons c s)
  then show ?case by (cases "is_space c") (simp_all add: read_char_def)
qed simp

lemma same_cells_step:
  assumes same: "same_cells rows ((i, j) # cs) i1 i2" and ij: "i < length rows" "j < length (rows ! 0)" "(i, j) \<notin> set cs"
    and st: "filter (\<lambda>c. \<not> is_space c) s = rows ! i ! j # xs"
  shows "\<exists>c s' i1'. load_map_cell (i, j) (c0, (s, True), i1) = (c, (s', True), i1') \<and>
    filter (\<lambda>c. \<not> is_space c) s' = xs \<and> same_cells rows cs i1' (load_cell (i, j) i2)"
proof -
  obtain s' where s': "read_char c0 (s, True) = (rows ! i ! j, (s', True))" "filter (\<lambda>c. \<not> is_space c) s' = xs"
    using read_char_next [OF st] by blast
  have here: "imap i1 ! i ! j = -1" "imap i2 ! i ! j = (if rows ! i ! j = CHR ''.'' then 0 else -1)"
    using same ij by (auto simp: same_cells_def)
  have same_but: "i1\<lparr>imap := []\<rparr> = i2\<lparr>imap := []\<rparr>" using same by (simp add: same_cells_def)
  have eq: "number_of_vertices i1 = number_of_vertices i2" "coord_list i1 = coord_list i2"
    using arg_cong [OF same_but, of number_of_vertices] arg_cong [OF same_but, of coord_list] by simp_all
  have upd: "i1\<lparr>imap := M1, number_of_vertices := n, coord_list := l\<rparr>\<lparr>imap := []\<rparr> =
      i2\<lparr>imap := M2, number_of_vertices := n, coord_list := l\<rparr>\<lparr>imap := []\<rparr>" for M1 M2 n l
    using same_but by (cases i1; cases i2) simp
  have lens: "length (imap i1) = length rows" "length (imap i2) = length rows"
    "\<forall>k < length rows. length (imap i1 ! k) = length (rows ! 0) \<and> length (imap i2 ! k) = length (rows ! 0)"
    using same by (simp_all add: same_cells_def)
  have rest: "if (i', j') \<in> set cs then imap i1 ! i' ! j' = -1 \<and> imap i2 ! i' ! j' = (if rows ! i' ! j' = CHR ''.'' then 0 else -1)
      else (i', j') \<noteq> (i, j) \<longrightarrow> imap i1 ! i' ! j' = imap i2 ! i' ! j'" if "i' < length rows" "j' < length (rows ! 0)" for i' j'
    using same that unfolding same_cells_def by auto
  show ?thesis
  proof (cases "rows ! i ! j = CHR ''.''")
    case True
    let ?i1 = "i1\<lparr>imap := (imap i1)[i := (imap i1 ! i)[j := int (number_of_vertices i2)]],
            number_of_vertices := Suc (number_of_vertices i2), coord_list := coord_list i2 @ [\<lparr>vx = i, vy = j\<rparr>]\<rparr>"
    have "same_cells rows cs ?i1 (load_cell (i, j) i2)"
      unfolding same_cells_def
    proof (intro conjI)
      show "\<forall>i' < length rows. \<forall>j' < length (rows ! 0). if (i', j') \<in> set cs
          then imap ?i1 ! i' ! j' = -1 \<and> imap (load_cell (i, j) i2) ! i' ! j' = (if rows ! i' ! j' = CHR ''.'' then 0 else -1)
          else imap ?i1 ! i' ! j' = imap (load_cell (i, j) i2) ! i' ! j'"
        using rest ij lens here(2) True by (auto simp: load_cell_def nth_list_update)
    qed (use lens here(2) True ij upd in \<open>auto simp: load_cell_def nth_list_update\<close>)
    then show ?thesis using s' True eq by (simp add: load_map_cell_def)
  next
    case False
    have "\<forall>i' < length rows. \<forall>j' < length (rows ! 0). if (i', j') \<in> set cs
        then imap i1 ! i' ! j' = -1 \<and> imap i2 ! i' ! j' = (if rows ! i' ! j' = CHR ''.'' then 0 else -1)
        else imap i1 ! i' ! j' = imap i2 ! i' ! j'"
    proof (intro allI impI)
      fix i' j' assume "i' < length rows" "j' < length (rows ! 0)"
      from rest [OF this] show "if (i', j') \<in> set cs
        then imap i1 ! i' ! j' = -1 \<and> imap i2 ! i' ! j' = (if rows ! i' ! j' = CHR ''.'' then 0 else -1)
        else imap i1 ! i' ! j' = imap i2 ! i' ! j'"
        using here False by (cases "(i', j') = (i, j)") (auto split: if_splits)
    qed
    then have "same_cells rows cs i1 i2"
      using same unfolding same_cells_def by blast
    then show ?thesis using s' False here(2) by (simp add: load_map_cell_def load_cell_def)
  qed
qed

lemma same_cells_loop:
  "same_cells rows cs i1 i2 \<Longrightarrow> distinct cs \<Longrightarrow> set cs \<subseteq> {..<length rows} \<times> {..<length (rows ! 0)} \<Longrightarrow>
   filter (\<lambda>c. \<not> is_space c) s = map (\<lambda>(i, j). rows ! i ! j) cs @ xs \<Longrightarrow>
   same_cells rows [] (snd (snd (fold load_map_cell cs (c0, (s, True), i1)))) (fold load_cell cs i2)"
proof (induction cs arbitrary: c0 s i1 i2)
  case (Cons p cs)
  obtain i j where p: "p = (i, j)" by fastforce
  have ij: "i < length rows" "j < length (rows ! 0)" "(i, j) \<notin> set cs" using Cons.prems p by auto
  from same_cells_step [OF Cons.prems(1) [unfolded p] ij, of s "map (\<lambda>(i, j). rows ! i ! j) cs @ xs" c0]
  obtain c s' i1' where "load_map_cell (i, j) (c0, (s, True), i1) = (c, (s', True), i1')"
    "filter (\<lambda>c. \<not> is_space c) s' = map (\<lambda>(i, j). rows ! i ! j) cs @ xs"
    "same_cells rows cs i1' (load_cell (i, j) i2)"
    using Cons.prems(4) p by auto
  then show ?case using Cons.IH [of i1' "load_cell (i, j) i2" s' c] Cons.prems(2,3) p by simp
qed simp

lemma same_cells_done:
  assumes "same_cells rows [] i1 i2"
  shows "i1 = i2"
proof -
  have "imap i1 ! i = imap i2 ! i" if "i < length rows" for i
    using assms that unfolding same_cells_def by (intro nth_equalityI) auto
  then have "imap i1 = imap i2"
    using assms unfolding same_cells_def by (intro nth_equalityI) auto
  moreover have "i1\<lparr>imap := []\<rparr> = i2\<lparr>imap := []\<rparr>" using assms by (simp add: same_cells_def)
  ultimately show ?thesis by (cases i1; cases i2) simp
qed

lemma grid_cells_concat:
  assumes "\<forall>row \<in> set rows. length row = w"
  shows "map (\<lambda>(i, j). rows ! i ! j) (grid_cells (length rows) w) = concat rows"
proof -
  have row: "map (\<lambda>j. rows ! i ! j) [0..<w] = rows ! i" if "i < length rows" for i
    using assms that by (intro nth_equalityI) auto
  have "map (\<lambda>(i, j). rows ! i ! j) (grid_cells (length rows) w) =
      concat (map (\<lambda>i. map (\<lambda>j. rows ! i ! j) [0..<w]) [0..<length rows])"
    by (simp only: grid_cells_def product_concat_map map_concat map_map comp_def prod.case)
  also have "\<dots> = concat (map (\<lambda>i. rows ! i) [0..<length rows])"
    using row by (intro arg_cong [of _ _ concat] map_cong) auto
  finally show ?thesis by (simp add: map_nth)
qed

lemma LoadMap_text:
  assumes f: "files path = Some (map_text kind rows)" and k: "newline \<notin> set kind" and ok: "map_rows_ok rows"
  shows "LoadMap files path i = LoadMapData (map_cells rows) i"
proof -
  let ?h = "length rows" and ?w = "length (rows ! 0)"
  let ?i1 = "i\<lparr>height := ?h, width := ?w, imap := replicate ?h (replicate ?w (-1)), number_of_vertices := 0\<rparr>"
  let ?i2 = "i\<lparr>imap := map_cells rows, height := ?h, width := ?w, number_of_vertices := 0\<rparr>"
  have rows: "\<forall>row \<in> set rows. length row = ?w" "rows \<noteq> []" using ok unfolding map_rows_ok_def by blast+
  have len: "length (rows ! k) = ?w" if "k < ?h" for k using rows(1) nth_mem [OF that] by blast
  have "same_cells rows (grid_cells ?h ?w) ?i1 ?i2"
    unfolding same_cells_def using len by (simp add: map_cells_def grid_simps)
  moreover have "filter (\<lambda>c. \<not> is_space c) (newline # terminated newline rows) =
      map (\<lambda>(i, j). rows ! i ! j) (grid_cells ?h ?w) @ []"
  proof -
    have "filter (\<lambda>c. \<not> is_space c) row = row" if "row \<in> set rows" for row
      using ok that unfolding map_rows_ok_def filter_id_conv by blast
    then have "filter (\<lambda>c. \<not> is_space c) (terminated newline rows) = concat rows"
      by (simp add: terminated_def filter_concat comp_def cong: map_cong)
    then show ?thesis using grid_cells_concat [OF rows(1)] by simp
  qed
  ultimately have "same_cells rows []
      (snd (snd (fold load_map_cell (grid_cells ?h ?w) (undefined, (newline # terminated newline rows, True), ?i1))))
      (fold load_cell (grid_cells ?h ?w) ?i2)"
    by (intro same_cells_loop distinct_grid_cells) (simp_all only: set_grid_cells subset_refl)
  moreover have len0: "length (map_cells rows ! 0) = ?w" "length (map_cells rows) = ?h"
    using rows(2) by (simp_all add: map_cells_def)
  ultimately have "(snd (snd (fold load_map_cell (grid_cells ?h ?w) (undefined, (newline # terminated newline rows, True), ?i1)))) =
      fold load_cell (grid_cells ?h ?w) ?i2"
    by (intro same_cells_done)
  with len0 LoadMap_text_eq [where files = files, OF f k ok]
  show ?thesis by (simp add: LoadMapData_def Let_def)
qed

section \<open>Reading back a scenario\<close>

text \<open>
  A scenario line has tab-separated fields; those read are the map (1), the start (4 and 5) and the
  goal (6 and 7), with the second coordinate first. The other fields are arbitrary.
\<close>

definition scen_line :: "string list \<Rightarrow> string \<Rightarrow> (int \<times> int) \<times> (int \<times> int) \<Rightarrow> string" where
  "scen_line other m = (\<lambda>((sx, sy), (gx, gy)).
     terminated tab [other ! 0, m, other ! 1, other ! 2, show_int sy, show_int sx, show_int gy, show_int gx] @ other ! 3)"

definition scen_text :: "string \<Rightarrow> string list \<Rightarrow> string \<Rightarrow> ((int \<times> int) \<times> (int \<times> int)) list \<Rightarrow> string" where
  "scen_text version other m ags = terminated newline (version # map (scen_line other m) ags)"

definition word_ok :: "string \<Rightarrow> bool" where
  "word_ok w \<longleftrightarrow> tab \<notin> set w \<and> newline \<notin> set w"

definition others_ok :: "string list \<Rightarrow> bool" where
  "others_ok other \<longleftrightarrow> length other = 4 \<and> (\<forall>w \<in> set other. word_ok w) \<and> other ! 3 \<noteq> []"

definition pos_ok :: "(int \<times> int) \<times> (int \<times> int) \<Rightarrow> bool" where
  "pos_ok = (\<lambda>((sx, sy), (gx, gy)). in_int_range sx \<and> in_int_range sy \<and> in_int_range gx \<and> in_int_range gy)"

lemma word_ok_show [simp]: "word_ok (show_int i)"
  using show_int_chars [of tab i] show_int_chars [of newline i]
  by (auto simp: word_ok_def tab_def newline_def is_space_def)

lemma scen_line_fields:
  assumes "others_ok other" "word_ok m"
  shows "split_line tab (scen_line other m ((sx, sy), (gx, gy))) =
      [other ! 0, m, other ! 1, other ! 2, show_int sy, show_int sx, show_int gy, show_int gx, other ! 3]"
    and "newline \<notin> set (scen_line other m ((sx, sy), (gx, gy)))"
proof -
  have ok: "word_ok (other ! k)" if "k < 4" for k using assms(1) that by (simp add: others_ok_def)
  let ?ws = "[other ! 0, m, other ! 1, other ! 2, show_int sy, show_int sx, show_int gy, show_int gx]"
  have ws: "tab \<notin> set w \<and> newline \<notin> set w" if "w \<in> set ?ws" for w
    unfolding word_ok_def [symmetric] using that ok assms(2) by auto
  have "split_line tab (terminated tab ?ws @ other ! 3) = ?ws @ split_line tab (other ! 3)"
    using ws by (intro split_terminated_append) blast
  moreover have "split_line tab (other ! 3) = [other ! 3]"
    using ok [of 3] assms(1) by (intro split_line_last) (auto simp: word_ok_def others_ok_def)
  ultimately show "split_line tab (scen_line other m ((sx, sy), (gx, gy))) =
      [other ! 0, m, other ! 1, other ! 2, show_int sy, show_int sx, show_int gy, show_int gx, other ! 3]"
    by (simp add: scen_line_def)
  have "newline \<noteq> tab" by (simp add: tab_def newline_def)
  then show "newline \<notin> set (scen_line other m ((sx, sy), (gx, gy)))"
    using ws ok [of 3] by (auto simp: scen_line_def terminated_def word_ok_def)
qed

definition agent_of :: "(int \<times> int) \<times> (int \<times> int) \<Rightarrow> agent" where
  "agent_of p = \<lparr>start = vertex_of (fst p), goal = vertex_of (snd p)\<rparr>"

lemma parse_agent_line:
  assumes "others_ok other" "word_ok m" "pos_ok p"
  shows "parse_agent (split_line tab (scen_line other m p)) = Inr (agent_of p)"
    and "split_line tab (scen_line other m p) ! 1 = m"
proof -
  obtain sx sy gx gy where p: "p = ((sx, sy), (gx, gy))" by (metis surj_pair)
  show "parse_agent (split_line tab (scen_line other m p)) = Inr (agent_of p)"
    using assms(3) unfolding p scen_line_fields(1) [OF assms(1,2)]
    by (simp add: parse_agent_def parse_vertex_def stoi_show pos_ok_def agent_of_def vertex_of_def)
  show "split_line tab (scen_line other m p) ! 1 = m"
    unfolding p scen_line_fields(1) [OF assms(1,2)] by simp
qed

lemma load_lines_rest:
  assumes "others_ok other" "word_ok m"
  shows "\<forall>p \<in> set ags. pos_ok p \<Longrightarrow>
    load_lines files dir True (map (scen_line other m) ags) i =
      Inr (i\<lparr>inst_agents := inst_agents i @ map agent_of ags\<rparr>)"
  by (induction ags arbitrary: i) (simp_all add: parse_agent_line [OF assms])

text \<open>Loading the files of an instance gives the instance that the data constructor builds.\<close>

lemma load_cell_commute:
  "load_cell c (i\<lparr>inst_agents := x\<rparr>) = (load_cell c i)\<lparr>inst_agents := x\<rparr>"
  "load_cell c (i\<lparr>map_name := y\<rparr>) = (load_cell c i)\<lparr>map_name := y\<rparr>"
  by (cases c; simp add: load_cell_def)+

lemma fold_load_cell_commute:
  "fold load_cell cs (i\<lparr>inst_agents := x\<rparr>) = (fold load_cell cs i)\<lparr>inst_agents := x\<rparr>"
  "fold load_cell cs (i\<lparr>map_name := y\<rparr>) = (fold load_cell cs i)\<lparr>map_name := y\<rparr>"
  by (induction cs arbitrary: i) (simp_all add: load_cell_commute)

lemma fold_load_cell_init:
  "fold load_cell cs (init_tables i) = init_tables (fold load_cell cs i)"
proof (induction cs arbitrary: i)
  case (Cons c cs)
  have "load_cell c (init_tables i) = init_tables (load_cell c i)"
    by (cases c) (simp add: load_cell_def init_tables_def Let_def)
  then show ?case using Cons by simp
qed simp

lemma LoadMapData_commute:
  "LoadMapData mv (i\<lparr>inst_agents := x\<rparr>) = (LoadMapData mv i)\<lparr>inst_agents := x\<rparr>"
  "LoadMapData mv (i\<lparr>map_name := y\<rparr>) = (LoadMapData mv i)\<lparr>map_name := y\<rparr>"
  "LoadMapData mv (init_tables i) = init_tables (LoadMapData mv i)"
proof -
  have c1: "i\<lparr>inst_agents := x\<rparr>\<lparr>imap := mv, height := h, width := w, number_of_vertices := 0\<rparr> =
      (i\<lparr>imap := mv, height := h, width := w, number_of_vertices := 0\<rparr>)\<lparr>inst_agents := x\<rparr>" for h w by simp
  have c2: "i\<lparr>map_name := y\<rparr>\<lparr>imap := mv, height := h, width := w, number_of_vertices := 0\<rparr> =
      (i\<lparr>imap := mv, height := h, width := w, number_of_vertices := 0\<rparr>)\<lparr>map_name := y\<rparr>" for h w by simp
  have c3: "(init_tables i)\<lparr>imap := mv, height := h, width := w, number_of_vertices := 0\<rparr> =
      init_tables (i\<lparr>imap := mv, height := h, width := w, number_of_vertices := 0\<rparr>)" for h w
    by (simp add: init_tables_def Let_def)
  show "LoadMapData mv (i\<lparr>inst_agents := x\<rparr>) = (LoadMapData mv i)\<lparr>inst_agents := x\<rparr>"
    unfolding LoadMapData_def Let_def c1 fold_load_cell_commute ..
  show "LoadMapData mv (i\<lparr>map_name := y\<rparr>) = (LoadMapData mv i)\<lparr>map_name := y\<rparr>"
    unfolding LoadMapData_def Let_def c2 fold_load_cell_commute ..
  show "LoadMapData mv (init_tables i) = init_tables (LoadMapData mv i)"
    unfolding LoadMapData_def Let_def c3 fold_load_cell_init ..
qed

lemma load_instance_text:
  assumes scen: "files path = Some (scen_text version other m ags)"
    and map: "files (dir @ ''/'' @ m) = Some (map_text kind rows)"
    and ok: "newline \<notin> set version" "newline \<notin> set kind" "others_ok other" "word_ok m" "map_rows_ok rows"
      "ags \<noteq> []" "\<forall>p \<in> set ags. pos_ok p"
  shows "load_instance files dir path = Inr (make_instance (map_cells rows) (map fst ags) (map snd ags) path m)"
proof -
  obtain p ps where ags: "ags = p # ps" using ok(6) by (cases ags) auto
  have pos: "pos_ok p" "\<forall>q \<in> set ps. pos_ok q" using ok(7) ags by auto
  have nl: "newline \<notin> set (scen_line other m q)" for q
    using scen_line_fields(2) [OF ok(3,4)] by (cases q) (metis surj_pair)
  have "split_line newline (scen_text version other m ags) = version # map (scen_line other m) ags"
    unfolding scen_text_def using ok(1) nl by (intro split_terminated) auto
  then have lines: "drop 1 (split_line newline (scen_text version other m ags)) = scen_line other m p # map (scen_line other m) ps"
    by (simp add: ags)
  let ?i0 = "new_instance\<lparr>map_name := m\<rparr>"
  have "load_lines files dir False (scen_line other m p # map (scen_line other m) ps) new_instance =
      Inr ((LoadMapData (map_cells rows) ?i0)\<lparr>inst_agents := map agent_of ags\<rparr>)"
    using parse_agent_line [OF ok(3,4) pos(1)] load_lines_rest [OF ok(3,4) pos(2)]
      LoadMap_text [where files = files, OF map ok(2,5)]
    by (simp add: ags frame_simps new_instance_def Let_def)
  then have "load_instance files dir path =
      Inr ((init_tables ((LoadMapData (map_cells rows) ?i0)\<lparr>inst_agents := map agent_of ags\<rparr>))
        \<lparr>last_number_of_agents := 0, scen_name := path\<rparr>)"
    by (simp only: load_instance_def LoadAgents_def scen option.case lines sum.case)
  moreover have "map agent_of ags = map (\<lambda>i. \<lparr>start = vertex_of (map fst ags ! i), goal = vertex_of (map snd ags ! i)\<rparr>) [0..<length ags]"
    by (intro nth_equalityI) (simp_all add: agent_of_def)
  moreover have "make_instance (map_cells rows) (map fst ags) (map snd ags) path m =
      (init_tables ((LoadMapData (map_cells rows) new_instance)\<lparr>inst_agents :=
          map (\<lambda>i. \<lparr>start = vertex_of (map fst ags ! i), goal = vertex_of (map snd ags ! i)\<rparr>) [0..<length ags]\<rparr>))
        \<lparr>last_number_of_agents := 0, scen_name := path, map_name := m\<rparr>"
  proof -
    have "inst_agents new_instance = []" by (simp add: new_instance_def)
    then show ?thesis by (simp add: make_instance_def LoadAgentsData_def LoadMapData_commute)
  qed
  ultimately show ?thesis
    by (simp add: LoadMapData_commute init_tables_def Let_def)
qed

end
