(* ===== verification/Smt_Encoding.thy ===== *)
theory Smt_Encoding
  imports Sat_Encoding Text
begin

text \<open>
  The SMT back end, \<open>src/src/encodings/SMT_encoding.cpp\<close>: the constructor, \<open>CreateFormula\<close> with the two
  generators of Monosat graphs, and reading a plan off the witness file. The clauses and graphs go to
  the CNF file; Monosat, run by \<open>system\<close>, is a parameter that gets the time limit in seconds and the
  file, and returns the status of the command and the first line of its witness file, if it exists.
\<close>

section \<open>Construction\<close>

definition new_MAPFSAT_SMT ::
  "nat \<Rightarrow> nat \<Rightarrow> nat \<Rightarrow> nat \<Rightarrow> nat \<Rightarrow> nat \<Rightarrow> string \<Rightarrow> solver \<Rightarrow> solver option" where
  "new_MAPFSAT_SMT var cost mv lz dupli slv sol_name s =
     (if var \<in> {2, 3} \<and> cost \<in> {1, 2} \<and> mv = 1 \<and> lz = 1 \<and> dupli \<in> {1, 2} \<and> slv = 2 then
        Some (s\<lparr>class_of := MAPFSAT_SMT, solver_name := sol_name, variables := var, cost_function := cost,
                movement := mv, lazy_const := lz, duplicates := dupli, solver_to_use := slv\<rparr>)
      else None)"

section \<open>Graph generators\<close>

text \<open>Node numbers are given out in the order in which the keys are first seen.\<close>

type_synonym ids = "int \<times> (int \<rightharpoonup> int)"

definition VarToID :: "int \<Rightarrow> bool \<Rightarrow> ids \<Rightarrow> int \<times> ids" where
  "VarToID var duplicate = (\<lambda>(freshID, dict).
     let key = (if duplicate then - var else var) in
     case dict key of
       None \<Rightarrow> (freshID, (freshID + 1, dict(key \<mapsto> freshID)))
     | Some n \<Rightarrow> (n, (freshID, dict)))"

definition no_ids :: ids where
  "no_ids = (0, Map.empty)"

definition print_lines :: "cnf_line list \<Rightarrow> solver \<Rightarrow> solver" where
  "print_lines ls s = (if cnf_file s \<noteq> [] then s\<lparr>cnf_printable := cnf_printable s @ ls\<rparr> else s)"

definition vertex_edge :: "solver \<Rightarrow> nat \<Rightarrow> nat \<times> int \<Rightarrow> ids \<Rightarrow> cnf_line \<times> ids" where
  "vertex_edge s a = (\<lambda>(v, t) ids.
     let x = at_var s a v t;
         (v1, ids1) = VarToID x False ids;
         (v2, ids2) = VarToID x True ids1
     in (EdgeLine a v1 v2 x, ids2))"

definition pass_edge :: "solver \<Rightarrow> nat \<Rightarrow> nat \<times> nat \<times> int \<Rightarrow> ids \<Rightarrow> cnf_line \<times> ids" where
  "pass_edge s a = (\<lambda>(v, dir, t) ids.
     let x = at_var s a v t; p = pass_var s a v dir t; y = at_var s a (nb s v dir) (t + 1);
         (v2, ids1) = VarToID x True ids;
         (u1, ids2) = VarToID y False ids1
     in (EdgeLine a v2 u1 p, ids2))"

definition vertex_keys :: "solver \<Rightarrow> nat \<Rightarrow> (nat \<times> int) list" where
  "vertex_keys s a =
     concat (map (\<lambda>v. if used (AT s a v)
        then map (Pair v) (for_to (first_timestep (AT s a v)) (last_timestep (AT s a v) + 1)) else [])
      [0..<vertices s])"

definition pass_keys :: "solver \<Rightarrow> nat \<Rightarrow> (nat \<times> nat \<times> int) list" where
  "pass_keys s a =
     concat (map (\<lambda>v. if used (AT s a v) then
        concat (map (\<lambda>dir. if has_nb s v dir \<and> used (PASS s a v dir)
          then map (\<lambda>t. (v, dir, t)) (for_to (first_timestep (PASS s a v dir)) (last_timestep (PASS s a v dir) + 1)) else [])
        [0..<5]) else []) [0..<vertices s])"

definition graph_pass_lines :: "solver \<Rightarrow> nat \<Rightarrow> int \<Rightarrow> cnf_line list" where
  "graph_pass_lines s a lit =
     (let (es, ids1) = thread (vertex_edge s a) (vertex_keys s a) no_ids;
          (ps, ids2) = thread (pass_edge s a) (pass_keys s a) ids1;
          at_start_var = first_variable (AT s a (start_id (inst s) a));
          AV_goal = AT s a (goal_id (inst s) a);
          at_goal_var = first_variable AV_goal + (last_timestep AV_goal - first_timestep AV_goal);
          (start_v, ids3) = VarToID at_start_var False ids2;
          (goal_v, ids4) = VarToID at_goal_var True ids3
      in DigraphLine a # es @ ps @ [ReachLine a start_v goal_v lit])"

definition CreateMove_Graph_MonosatPass :: "int \<Rightarrow> solver \<Rightarrow> int \<times> solver" where
  "CreateMove_Graph_MonosatPass lit s =
     fold (\<lambda>a (lit, s). (lit + 1, emit Unit [[lit]] (print_lines (graph_pass_lines s a lit) s)))
       [0..<agents s] (lit, s)"

text \<open>The Cantor pairing of a vertex and a timestep, as long as it fits into an \<open>int\<close>.\<close>

definition cantor :: "int \<Rightarrow> int \<Rightarrow> int" where
  "cantor v t = (v + t) * (v + t + 1) div 2 + t"

definition shift_edge :: "solver \<Rightarrow> nat \<times> int \<times> nat \<Rightarrow> ids \<Rightarrow> cnf_line \<times> ids" where
  "shift_edge s = (\<lambda>(v, t, dir) ids.
     let (node1, ids1) = VarToID (cantor (int v) t) False ids;
         (node2, ids2) = VarToID (cantor (int (nb s v dir)) (t + 1)) False ids1
     in (EdgeLine 0 node1 node2 (shift_var s v dir t), ids2))"

definition shift_keys :: "solver \<Rightarrow> (nat \<times> int \<times> nat) list" where
  "shift_keys s =
     concat (map (\<lambda>v. if the (shift_times_start s) ! v = -1 then [] else
        concat (map (\<lambda>t. map (\<lambda>dir. (v, t, dir))
          (filter (\<lambda>dir. has_nb s v dir \<and> shift_found (SHIFT s v dir) t) [0..<5]))
        (for_to (the (shift_times_start s) ! v) (the (shift_times_end s) ! v + 1))))
      [0..<vertices s])"

definition shift_reach :: "solver \<Rightarrow> nat \<Rightarrow> int \<Rightarrow> ids \<Rightarrow> cnf_line \<times> ids" where
  "shift_reach s a lit ids =
     (let v_start = start_id (inst s) a; v_goal = goal_id (inst s) a;
          (node1, ids1) = VarToID (cantor (int v_start) 0) False ids;
          t = LastTimestep (inst s) a v_goal (max_timestep s) (delta s) (cost_function s);
          (node2, ids2) = VarToID (cantor (int v_goal) t) False ids1
      in (ReachLine 0 node1 node2 lit, ids2))"

definition CreateMove_Graph_MonosatShift :: "int \<Rightarrow> solver \<Rightarrow> int \<times> solver" where
  "CreateMove_Graph_MonosatShift lit s =
     (let s0 = print_lines [DigraphLine 0] s;
          (es, ids) = thread (shift_edge s0) (shift_keys s0) no_ids;
          s1 = print_lines es s0;
          (lit1, ids1, s2) = fold (\<lambda>a (lit, ids, s). let (r, ids') = shift_reach s a lit ids in
              (lit + 1, ids', emit Unit [[lit]] (print_lines [r] s))) [0..<agents s1] (lit, ids, s1)
      in (lit1, s2))"

section \<open>The formula\<close>

definition smt_variables :: "int \<Rightarrow> stage" where
  "smt_variables timesteps lit s =
     (if variables s = 2 then
        let (lit1, s1) = CreateAt lit timesteps s; (lit2, s2) = CreatePass lit1 timesteps s1
        in CreateMove_Graph_MonosatPass lit2 s2
      else if variables s = 3 then
        let (lit1, s1) = CreateShift lit timesteps s in CreateMove_Graph_MonosatShift lit1 s1
      else (lit, s))"

definition smt_positions :: stage where
  "smt_positions lit s =
     (lit, if cost_function s = 2 then
             if variables s = 2 then CreatePossition_NoneAtGoal s
             else if variables s = 3 then CreatePossition_NoneAtGoal_Shift s else s
           else s)"

definition smt_conflicts :: stage where
  "smt_conflicts lit s =
     (lit, if variables s = 2 then CreateConf_Swapping_Pass (CreateConf_Vertex s)
           else if variables s = 3 then CreateConf_Swapping_Shift s else s)"

definition smt_moves :: "amk_encoder \<Rightarrow> stage" where
  "smt_moves enc lit s =
     (if variables s = 2 then
        let s1 = CreateConf_Swapping_Pass (CreateConf_Vertex s) in
        if duplicates s1 = 1 then CreateMove_NoDuplicates enc lit s1 else (lit, s1)
      else if variables s = 3 then (lit, CreateMove_ExactlyOneIncoming_Shift (CreateMove_ExactlyOne_Shift s))
      else (lit, s))"

definition smt_cost :: "amk_encoder \<Rightarrow> stage" where
  "smt_cost enc lit s =
     (if cost_function s = 2 \<and> delta s > 0 then
        if variables s = 2 then
          if duplicates s = 1 then CreateConst_LimitSoc enc lit s
          else if duplicates s = 2 then CreateConst_LimitSoc_AllAt enc lit s
          else (lit, s)
        else if variables s = 3 then CreateConst_LimitSoc_Shift enc lit s
        else (lit, s)
      else (lit, s))"

definition smt_avoids :: stage where
  "smt_avoids lit s = (lit, if variables s = 2 \<and> use_avoid s then CreateConst_Avoid s else s)"

definition CreateFormula_SMT :: "amk_encoder \<Rightarrow> clock \<Rightarrow> int \<Rightarrow> solver \<Rightarrow> int \<times> solver" where
  "CreateFormula_SMT enc clk time_left s =
     (let timesteps = GetMksLB (inst s) (agents s) + delta s; (start_time, s0) = now clk s in
      case run_stages clk start_time time_left
          [smt_variables timesteps, smt_positions, smt_conflicts, smt_moves enc, smt_cost enc, smt_avoids] 1 s0 of
        (None, s1) \<Rightarrow> (-1, s1)
      | (Some lit, s1) \<Rightarrow> (lit, s1))"

section \<open>Solving and reading the plan\<close>

text \<open>The words of the witness: \<open>v\<close>, literals, and a final \<open>0\<close>.\<close>

definition witness_word :: "string \<Rightarrow> bool list \<Rightarrow> bool list" where
  "witness_word part ev =
     (if part = ''v'' \<or> part = ''0'' then ev
      else let var = atoi part in ev[nat (\<bar>var\<bar> - 1) := (var > 0)])"

definition read_witness :: "string \<Rightarrow> int \<Rightarrow> bool list" where
  "read_witness l n = fold witness_word (split_line (CHR '' '') l) (replicate (nat n) False)"

definition GetNextVertex_SMT :: "bool list \<Rightarrow> solver \<Rightarrow> nat \<Rightarrow> int \<Rightarrow> int \<Rightarrow> int" where
  "GetNextVertex_SMT ev s a ver t =
     (if ver = -1 then -1
      else let v = nat ver; leave_t = t - 1 in
        if variables s = 2 then
          first_neighbor s v (\<lambda>dir. let u = nb s v dir in
            used (PASS s a v dir) \<and>
            \<not> (first_timestep (PASS s a v dir) > leave_t \<or> last_timestep (PASS s a v dir) < leave_t) \<and>
            ev ! nat (pass_var s a v dir leave_t - 1) \<and> ev ! nat (at_var s a u t - 1))
        else if variables s = 3 then
          first_neighbor s v (\<lambda>dir.
            shift_found (SHIFT s v dir) leave_t \<and> ev ! nat (shift_var s v dir leave_t - 1))
        else -1)"

type_synonym monosat =
  "nat \<Rightarrow> int \<Rightarrow> string \<Rightarrow> (int \<times> int \<times> cnf_line list) option \<Rightarrow> int \<times> string option"

definition InvokeSolverImplementation_SMT :: "monosat \<Rightarrow> int \<Rightarrow> solver \<Rightarrow> int \<times> solver" where
  "InvokeSolverImplementation_SMT monosat timelimit s =
     (let seconds = (if 0 \<le> timelimit then timelimit div 1000 else - (- timelimit div 1000)) + 1;
          (ret, witness) = monosat (clock_reads s) seconds (cnf_file s) (cnf_file_contents s)
      in if (print_plan s \<or> keep_plan s \<or> lazy_const s = 2) \<and> ret = 2560 then
           case witness of
             None \<Rightarrow> (-1, s)
           | Some l \<Rightarrow> (0, read_plan (GetNextVertex_SMT (read_witness l (nr_vars s)) s) s)
         else (if ret = 2560 then 0 else 1, s))"

section \<open>Node numbers\<close>

text \<open>Different keys get different numbers, and a number once given is kept.\<close>

definition ids_ok :: "ids \<Rightarrow> bool" where
  "ids_ok = (\<lambda>(freshID, dict). inj_on dict (dom dict) \<and> (\<forall>n \<in> ran dict. 0 \<le> n \<and> n < freshID) \<and> 0 \<le> freshID)"

lemma no_ids_ok: "ids_ok no_ids"
  by (simp add: ids_ok_def no_ids_def)

lemma VarToID_ok:
  assumes ok: "ids_ok ids" and r: "VarToID var duplicate ids = (n, ids')"
  shows "ids_ok ids'" and "snd ids' (if duplicate then - var else var) = Some n"
    and "\<forall>k m. snd ids k = Some m \<longrightarrow> snd ids' k = Some m" and "0 \<le> n \<and> n < fst ids'" and "fst ids \<le> fst ids'"
proof -
  let ?k = "if duplicate then - var else var"
  obtain f D where ids: "ids = (f, D)" by fastforce
  have D: "inj_on D (dom D)" "\<forall>n \<in> ran D. 0 \<le> n \<and> n < f" "0 \<le> f" using ok ids by (simp_all add: ids_ok_def)
  have "ids_ok ids' \<and> snd ids' ?k = Some n \<and> (\<forall>k m. snd ids k = Some m \<longrightarrow> snd ids' k = Some m) \<and>
      (0 \<le> n \<and> n < fst ids') \<and> fst ids \<le> fst ids'"
  proof (cases "D ?k")
    case None
    then have "(n, ids') = (f, (f + 1, D(?k \<mapsto> f)))"
      using r [symmetric] unfolding ids VarToID_def Let_def prod.case by (simp only: option.case)
    then have r': "n = f" "ids' = (f + 1, D(?k \<mapsto> f))" by blast+
    have "inj_on (D(?k \<mapsto> f)) (dom (D(?k \<mapsto> f)))"
    proof (rule inj_onI)
      fix x y assume x: "x \<in> dom (D(?k \<mapsto> f))" and y: "y \<in> dom (D(?k \<mapsto> f))" and eq: "(D(?k \<mapsto> f)) x = (D(?k \<mapsto> f)) y"
      have old: "z \<noteq> ?k \<Longrightarrow> D z \<noteq> Some f" for z using D(2) by (auto simp: ran_def)
      show "x = y"
      proof (cases "x = ?k \<or> y = ?k")
        case True
        then show ?thesis using eq old [of x] old [of y] by (auto split: if_splits)
      next
        case False
        then have "D x = D y" "x \<in> dom D" "y \<in> dom D" using x y eq by (auto split: if_splits)
        then show ?thesis using D(1) by (simp add: inj_onD)
      qed
    qed
    moreover have "\<forall>n \<in> ran (D(?k \<mapsto> f)). 0 \<le> n \<and> n < f + 1" using D(2,3) None by (auto simp: ran_map_upd)
    ultimately show ?thesis using r' D(3) None ids by (auto simp: ids_ok_def)
  next
    case (Some m)
    then have "(n, ids') = (m, ids)"
      using r [symmetric] unfolding ids VarToID_def Let_def prod.case by (simp only: option.case)
    then have "n = m" "ids' = ids" by blast+
    then show ?thesis using Some ok ids D(2) by (auto simp: ran_def)
  qed
  then show "ids_ok ids'" and "snd ids' (if duplicate then - var else var) = Some n"
    and "\<forall>k m. snd ids k = Some m \<longrightarrow> snd ids' k = Some m" and "0 \<le> n \<and> n < fst ids'" and "fst ids \<le> fst ids'"
    by blast+
qed

text \<open>The pairing gives different numbers to different pairs.\<close>

lemma cantor_level:
  assumes "0 \<le> v" "0 \<le> t"
  shows "(v + t) * (v + t + 1) div 2 \<le> cantor v t" "cantor v t < (v + t + 1) * (v + t + 2) div 2"
proof -
  have "(v + t + 1) * (v + t + 2) div 2 = (v + t) * (v + t + 1) div 2 + (v + t + 1)"
  proof -
    have "(v + t + 1) * (v + t + 2) = (v + t) * (v + t + 1) + (v + t + 1) * 2" by (simp add: algebra_simps)
    then show ?thesis by simp
  qed
  then show "cantor v t < (v + t + 1) * (v + t + 2) div 2" using assms by (simp add: cantor_def)
  show "(v + t) * (v + t + 1) div 2 \<le> cantor v t" using assms by (simp add: cantor_def)
qed

lemma cantor_inj:
  assumes "0 \<le> v" "0 \<le> t" "0 \<le> v'" "0 \<le> t'" "cantor v t = cantor v' t'"
  shows "v = v' \<and> t = t'"
proof -
  have mono: "(x + 1) * (x + 2) div 2 \<le> y * (y + 1) div 2" if "0 \<le> x" "x < y" for x y :: int
  proof -
    have "(x + 1) * (x + 2) \<le> y * (y + 1)" using that by (intro mult_mono) auto
    then show ?thesis by (rule zdiv_mono1) simp
  qed
  have "\<not> v + t < v' + t'"
    using mono [of "v + t" "v' + t'"] cantor_level [OF assms(1,2)] cantor_level [OF assms(3,4)] assms by fastforce
  moreover have "\<not> v' + t' < v + t"
    using mono [of "v' + t'" "v + t"] cantor_level [OF assms(1,2)] cantor_level [OF assms(3,4)] assms by fastforce
  ultimately have "v + t = v' + t'" by simp
  then show ?thesis using assms(5) by (simp add: cantor_def)
qed

end
