(* ===== verification/Options.thy ===== *)
theory Options
  imports Smt_Encoding
begin

text \<open>
  The command line of \<open>src/src/main.cpp\<close>: the name of an encoding (\<open>PickEncoding\<close>) and the arguments
  as \<open>getopt\<close> delivers them.
\<close>

section \<open>Names of encodings\<close>

record enc_options =
  o_cost :: nat
  o_moves :: nat
  o_var :: nat
  o_lazy :: nat
  o_dupli :: nat
  o_solver :: nat

text \<open>The value of a word in a list of choices.\<close>

definition word_value :: "(string \<times> 'a) list \<Rightarrow> string \<Rightarrow> 'a option" where
  "word_value table w = map_of table w"

definition cost_words :: "(string \<times> nat) list" where
  "cost_words = [(''mks'', 1), (''soc'', 2)]"

definition moves_words :: "(string \<times> nat) list" where
  "moves_words = [(''parallel'', 1), (''pebble'', 2)]"

text \<open>The kind of the variables and the solver.\<close>

definition var_words :: "(string \<times> (nat \<times> nat)) list" where
  "var_words =
     [(''at'', (1, 1)), (''pass'', (2, 1)), (''shift'', (3, 1)), (''monosat-pass'', (2, 2)), (''monosat-shift'', (3, 2))]"

definition lazy_words :: "(string \<times> nat) list" where
  "lazy_words = [(''eager'', 1), (''lazy'', 2)]"

definition dupli_words :: "(string \<times> nat) list" where
  "dupli_words = [(''single'', 1), (''dupli'', 2)]"

definition parse_encoding :: "string \<Rightarrow> enc_options option" where
  "parse_encoding enc =
     (let ps = split_line (CHR ''_'') enc in
      if length ps \<noteq> 5 then None
      else Option.bind (word_value cost_words (ps ! 0)) (\<lambda>c.
           Option.bind (word_value moves_words (ps ! 1)) (\<lambda>m.
           Option.bind (word_value var_words (ps ! 2)) (\<lambda>(v, slv).
           Option.bind (word_value lazy_words (ps ! 3)) (\<lambda>l.
           Option.bind (word_value dupli_words (ps ! 4)) (\<lambda>d.
           Some \<lparr>o_cost = c, o_moves = m, o_var = v, o_lazy = l, o_dupli = d, o_solver = slv\<rparr>))))))"

text \<open>The result of \<open>PickEncoding\<close>: \<open>NULL\<close>, an assertion that fails in a constructor, or a solver.\<close>

datatype picked = Unknown_Encoding | Assertion_Failed | Picked solver

definition PickEncoding :: "string \<Rightarrow> solver \<Rightarrow> picked" where
  "PickEncoding enc s =
     (case parse_encoding enc of
        None \<Rightarrow> Unknown_Encoding
      | Some c \<Rightarrow>
          (case (if o_solver c = 1 then
                   new_MAPFSAT_SAT (o_var c) (o_cost c) (o_moves c) (o_lazy c) (o_dupli c) (o_solver c) enc s
                 else new_MAPFSAT_SMT (o_var c) (o_cost c) (o_moves c) (o_lazy c) (o_dupli c) (o_solver c) enc s) of
             None \<Rightarrow> Assertion_Failed
           | Some t \<Rightarrow> Picked t))"

section \<open>Arguments\<close>

text \<open>
  What \<open>getopt\<close> returns for the option string \<open>hqpoe:s:m:a:i:t:d:f:l:c:\<close>: an option with its argument,
  or a question mark with the offending character. Arguments that are not options are skipped.
\<close>

datatype opt_event = Flag char | Value char string | Question char

definition is_flag :: "char \<Rightarrow> bool" where
  "is_flag c \<longleftrightarrow> c \<in> set ''hqpo''"

definition takes_value :: "char \<Rightarrow> bool" where
  "takes_value c \<longleftrightarrow> c \<in> set ''esmaitdflc''"

fun scan_word :: "string \<Rightarrow> string list \<Rightarrow> opt_event list \<times> string list" where
  "scan_word [] rest = ([], rest)"
| "scan_word (c # cs) rest =
     (if takes_value c then
        if cs \<noteq> [] then ([Value c cs], rest)
        else (case rest of [] \<Rightarrow> ([Question c], []) | a # as \<Rightarrow> ([Value c a], as))
      else let (es, rest') = scan_word cs rest in ((if is_flag c then Flag c else Question c) # es, rest'))"

lemma scan_word_rest: "length (snd (scan_word w rest)) \<le> length rest"
  by (induction w rest rule: scan_word.induct) (auto split: list.splits simp: Let_def case_prod_beta)

function getopt :: "string list \<Rightarrow> opt_event list" where
  "getopt [] = []"
| "getopt (a # as) =
     (if a = ''--'' then []
      else if length a > 1 \<and> hd a = CHR ''-'' then fst (scan_word (tl a) as) @ getopt (snd (scan_word (tl a) as))
      else getopt as)"
  by pat_completeness auto
termination
  by (relation "measure length") (auto simp: less_Suc_eq_le scan_word_rest)

record cli =
  hflag :: bool
  qflag :: bool
  pflag :: bool
  oflag :: bool
  evalue :: "string option"
  svalue :: "string option"
  mvalue :: "string option"
  avalue :: "string option"
  ivalue :: "string option"
  tvalue :: "string option"
  dvalue :: "string option"
  fvalue :: "string option"
  lvalue :: "string option"
  cvalue :: "string option"

definition no_args :: cli where
  "no_args = \<lparr>hflag = False, qflag = False, pflag = False, oflag = False, evalue = None, svalue = None,
     mvalue = None, avalue = None, ivalue = None, tvalue = None, dvalue = None, fvalue = None,
     lvalue = None, cvalue = None\<rparr>"

definition set_flag :: "char \<Rightarrow> cli \<Rightarrow> cli" where
  "set_flag c o' =
     (if c = CHR ''h'' then o'\<lparr>hflag := True\<rparr> else if c = CHR ''q'' then o'\<lparr>qflag := True\<rparr>
      else if c = CHR ''p'' then o'\<lparr>pflag := True\<rparr> else o'\<lparr>oflag := True\<rparr>)"

definition set_value :: "char \<Rightarrow> string \<Rightarrow> cli \<Rightarrow> cli" where
  "set_value c v o' =
     (if c = CHR ''e'' then o'\<lparr>evalue := Some v\<rparr> else if c = CHR ''s'' then o'\<lparr>svalue := Some v\<rparr>
      else if c = CHR ''m'' then o'\<lparr>mvalue := Some v\<rparr> else if c = CHR ''a'' then o'\<lparr>avalue := Some v\<rparr>
      else if c = CHR ''i'' then o'\<lparr>ivalue := Some v\<rparr> else if c = CHR ''t'' then o'\<lparr>tvalue := Some v\<rparr>
      else if c = CHR ''d'' then o'\<lparr>dvalue := Some v\<rparr> else if c = CHR ''f'' then o'\<lparr>fvalue := Some v\<rparr>
      else if c = CHR ''l'' then o'\<lparr>lvalue := Some v\<rparr> else o'\<lparr>cvalue := Some v\<rparr>)"

text \<open>The \<open>switch\<close>; \<open>Inl\<close> is the option whose argument is missing, for which \<open>main\<close> returns -1.\<close>

fun handle_events :: "opt_event list \<Rightarrow> cli \<Rightarrow> char + cli" where
  "handle_events [] o' = Inr o'"
| "handle_events (Flag c # es) o' = handle_events es (set_flag c o')"
| "handle_events (Value c v # es) o' = handle_events es (set_value c v o')"
| "handle_events (Question c # es) o' = (if takes_value c then Inl c else handle_events es o')"

section \<open>Which names are accepted\<close>

definition encoding_name :: "string \<Rightarrow> string \<Rightarrow> string \<Rightarrow> string \<Rightarrow> string \<Rightarrow> string" where
  "encoding_name c m v l d = c @ ''_'' @ m @ ''_'' @ v @ ''_'' @ l @ ''_'' @ d"

lemma split_line_inverse:
  "s \<noteq> [] \<Longrightarrow> s = terminated d (butlast (split_line d s)) @ last (split_line d s) \<or> s = terminated d (split_line d s)"
proof (induction d s rule: split_line.induct)
  case (2 d c cs)
  obtain w r where w: "w = takeWhile (\<lambda>x. x \<noteq> d) (c # cs)" and r: "r = dropWhile (\<lambda>x. x \<noteq> d) (c # cs)" by blast
  have s: "c # cs = w @ r" unfolding w r by (rule takeWhile_dropWhile_id [symmetric])
  have split: "split_line d (c # cs) = w # split_line d (drop 1 r)" unfolding w r by (rule split_line.simps(2))
  note IH = 2 [folded r]
  show ?case
  proof (cases r)
    case Nil
    have "split_line d (c # cs) = [w]" unfolding split Nil by simp
    then show ?thesis unfolding s Nil by simp (simp add: terminated_def)
  next
    case (Cons x r')
    have "x = d" using hd_dropWhile [of "\<lambda>x. x \<noteq> d" "c # cs"] Cons unfolding r by simp
    show ?thesis
    proof (cases "r' = []")
      case True
      have "split_line d (c # cs) = [w]" unfolding split Cons True by simp
      then show ?thesis unfolding s Cons True \<open>x = d\<close> by simp (simp add: terminated_def)
    next
      case False
      have ne: "split_line d r' \<noteq> []" using False by (cases r') simp_all
      have "r' = terminated d (butlast (split_line d r')) @ last (split_line d r') \<or> r' = terminated d (split_line d r')"
        using IH unfolding Cons using False by simp
      moreover have "split_line d (c # cs) = w # split_line d r'" unfolding split Cons by simp
      ultimately show ?thesis using ne unfolding s Cons \<open>x = d\<close> by (auto simp: terminated_def)
    qed
  qed
qed simp

lemma value_words:
  "word_value cost_words w = Some x \<longleftrightarrow> (w, x) \<in> set cost_words"
  "word_value moves_words w = Some x \<longleftrightarrow> (w, x) \<in> set moves_words"
  "word_value var_words w = Some y \<longleftrightarrow> (w, y) \<in> set var_words"
  "word_value lazy_words w = Some x \<longleftrightarrow> (w, x) \<in> set lazy_words"
  "word_value dupli_words w = Some x \<longleftrightarrow> (w, x) \<in> set dupli_words"
  unfolding word_value_def
  by (rule map_of_eq_Some_iff; simp add: cost_words_def moves_words_def var_words_def lazy_words_def dupli_words_def)+

definition enc_words :: "string list" where
  "enc_words = map fst cost_words @ map fst moves_words @ map fst var_words @ map fst lazy_words @ map fst dupli_words"

lemma enc_words_ok: "w \<in> set enc_words \<Longrightarrow> CHR ''_'' \<notin> set w \<and> w \<noteq> []"
  by (auto simp: enc_words_def cost_words_def moves_words_def var_words_def lazy_words_def dupli_words_def)

text \<open>A name is accepted exactly when it is made of the documented words, perhaps with a separator at the end.\<close>

lemma parse_encoding_iff:
  "parse_encoding enc = Some o' \<longleftrightarrow>
     (\<exists>c m v l d. (c, o_cost o') \<in> set cost_words \<and> (m, o_moves o') \<in> set moves_words \<and>
        (v, o_var o', o_solver o') \<in> set var_words \<and> (l, o_lazy o') \<in> set lazy_words \<and>
        (d, o_dupli o') \<in> set dupli_words \<and>
        (enc = encoding_name c m v l d \<or> enc = encoding_name c m v l d @ ''_''))"
proof
  let ?ps = "split_line (CHR ''_'') enc"
  assume p: "parse_encoding enc = Some o'"
  then have len: "length ?ps = 5" by (auto simp: parse_encoding_def Let_def split: if_splits)
  have w: "(?ps ! 0, o_cost o') \<in> set cost_words" "(?ps ! 1, o_moves o') \<in> set moves_words"
    "(?ps ! 2, o_var o', o_solver o') \<in> set var_words" "(?ps ! 3, o_lazy o') \<in> set lazy_words"
    "(?ps ! 4, o_dupli o') \<in> set dupli_words"
    using p len unfolding value_words [symmetric] parse_encoding_def Let_def by (auto split: bind_splits)
  have ps: "?ps = [?ps ! 0, ?ps ! 1, ?ps ! 2, ?ps ! 3, ?ps ! 4]"
    using len by (intro nth_equalityI) (auto simp: less_Suc_eq numeral_eq_Suc)
  have "enc \<noteq> []" using len by auto
  from split_line_inverse [OF this, of "CHR ''_''"]
  have "enc = encoding_name (?ps ! 0) (?ps ! 1) (?ps ! 2) (?ps ! 3) (?ps ! 4) \<or>
      enc = encoding_name (?ps ! 0) (?ps ! 1) (?ps ! 2) (?ps ! 3) (?ps ! 4) @ ''_''"
    by (subst (asm) (1 2 3) ps) (simp add: terminated_def encoding_name_def)
  then show "\<exists>c m v l d. (c, o_cost o') \<in> set cost_words \<and> (m, o_moves o') \<in> set moves_words \<and>
        (v, o_var o', o_solver o') \<in> set var_words \<and> (l, o_lazy o') \<in> set lazy_words \<and>
        (d, o_dupli o') \<in> set dupli_words \<and>
        (enc = encoding_name c m v l d \<or> enc = encoding_name c m v l d @ ''_'')"
    using w by blast
next
  assume "\<exists>c m v l d. (c, o_cost o') \<in> set cost_words \<and> (m, o_moves o') \<in> set moves_words \<and>
        (v, o_var o', o_solver o') \<in> set var_words \<and> (l, o_lazy o') \<in> set lazy_words \<and>
        (d, o_dupli o') \<in> set dupli_words \<and>
        (enc = encoding_name c m v l d \<or> enc = encoding_name c m v l d @ ''_'')"
  then obtain c m v l d where w: "(c, o_cost o') \<in> set cost_words" "(m, o_moves o') \<in> set moves_words"
    "(v, o_var o', o_solver o') \<in> set var_words" "(l, o_lazy o') \<in> set lazy_words" "(d, o_dupli o') \<in> set dupli_words"
    and enc: "enc = encoding_name c m v l d \<or> enc = encoding_name c m v l d @ ''_''" by blast
  have ok: "CHR ''_'' \<notin> set x \<and> x \<noteq> []" if "x \<in> {c, m, v, l, d}" for x
  proof (rule enc_words_ok)
    show "x \<in> set enc_words" using that w by (auto simp: enc_words_def intro: rev_image_eqI)
  qed
  have "split_line (CHR ''_'') (terminated (CHR ''_'') [c, m, v, l] @ d) = [c, m, v, l] @ split_line (CHR ''_'') d"
    using ok by (intro split_terminated_append) auto
  moreover have "split_line (CHR ''_'') d = [d]" using ok [of d] by (intro split_line_last) auto
  moreover have "split_line (CHR ''_'') (terminated (CHR ''_'') [c, m, v, l, d]) = [c, m, v, l, d]"
    using ok by (intro split_terminated) auto
  ultimately have "split_line (CHR ''_'') enc = [c, m, v, l, d]"
    using enc by (auto simp: encoding_name_def terminated_def)
  then show "parse_encoding enc = Some o'"
    using w unfolding value_words [symmetric] by (simp add: parse_encoding_def)
qed

text \<open>
  \<open>PickEncoding\<close> gives a solver for every accepted name, except that Monosat is refused with pebble
  movement and with lazy conflicts.
\<close>

lemma PickEncoding_cases:
  assumes "parse_encoding enc = Some o'"
  shows "PickEncoding enc s \<noteq> Unknown_Encoding"
    and "PickEncoding enc s = Assertion_Failed \<longleftrightarrow> o_solver o' = 2 \<and> (o_moves o' = 2 \<or> o_lazy o' = 2)"
proof -
  have r: "o_cost o' \<in> {1, 2}" "o_moves o' \<in> {1, 2}" "o_lazy o' \<in> {1, 2}" "o_dupli o' \<in> {1, 2}"
    "o_solver o' = 1 \<and> o_var o' \<in> {1, 2, 3} \<or> o_solver o' = 2 \<and> o_var o' \<in> {2, 3}"
    using assms unfolding parse_encoding_iff
    by (auto simp: cost_words_def moves_words_def var_words_def lazy_words_def dupli_words_def)
  show "PickEncoding enc s \<noteq> Unknown_Encoding"
    using assms by (simp add: PickEncoding_def split: option.split)
  show "PickEncoding enc s = Assertion_Failed \<longleftrightarrow> o_solver o' = 2 \<and> (o_moves o' = 2 \<or> o_lazy o' = 2)"
    using r assms
    by (auto simp: PickEncoding_def new_MAPFSAT_SAT_def new_MAPFSAT_SMT_def encoding_args_ok_def split: option.split)
qed

end
