(* ===== verification/Main_Program.thy ===== *)
theory Main_Program
  imports Example Output Loader Options
begin

text \<open>
  The program \<open>src/src/main.cpp\<close>: checking the arguments, loading the instance and solving it for a
  growing number of agents. The instance and the log are owned by the solver here, which is the only
  one besides \<open>main\<close> to use them. What \<open>PrintStatistics\<close> prints is kept as the list of logs.
\<close>

section \<open>Texts\<close>

definition PrintIntro :: "bool \<Rightarrow> string" where
  "PrintIntro qt =
     (if qt then []
      else concat (map line
        [[],
         ''*******************************************************'',
         ''*        This is a reduction-based MAPF solver        *'',
         ''*          Created by Jiri Svancara @ MFF UK          *'',
         ''*       Used SAT solvers are CaDiCaL and Monosat      *'',
         ''*******************************************************'',
         []]))"

definition PrintHelp :: "string \<Rightarrow> bool \<Rightarrow> string" where
  "PrintHelp argv0 qt =
     (if qt then []
      else concat (map line
        [[],
         ''Usage of this program:'',
         argv0 @ '' [-h] [-q] [-p] -e encoding -s scenario_file [-m map_dir] [-a number_of_agents] [-i increment] [-t timeout] [-d delta] [-o] [-f log_file]'',
         tab # ''-h                  : Prints help and exits'',
         tab # ''-q                  : Suppress print on stdout'',
         tab # ''-p                  : Print found plan. If q flag is set, p flag is overwritten.'',
         tab # ''-e encoding         : Encoding to be used. Available options are {mks|soc}_{parallel|pebble}_{at|pass|shift|monosat-pass|monosat-shift}_{eager|lazy}_{single|dupli}'',
         tab # ''-s scenario_file    : Path to a scenario file'',
         tab # ''-m map_dir          : Directory containing map files. Default is instances/maps'',
         tab # ''-a number_of_agents : Number of agents to solve. If not specified, all agents in the scenario file are used.'',
         tab # ''-i increment        : After a successful call, increase the number of agents by the specified increment. If not specified, do not perform subsequent calls.'',
         tab # ''-t timeout          : Timeout of the computation in seconds. Default value is 300s'',
         tab # ''-d delta            : Cost of delta is added to the first call. Default is 0.'',
         tab # ''-o                  : Oneshot solving. Ie. do not increment cost in case of unsat call. Default is to optimize.'',
         tab # ''-f log_file         : log file. If not specified, output to stdout.'',
         tab # ''-l log_level        : logging option. 0 = no log, 1 = inline log, 2 = human readable log. if -f log_file is not specified in combination with -l 1 or -l 2 overrides -q. Default is 0.'',
         tab # ''-c cnf_file         : print the created CNF into cnf_file. If not specified, the created CNF is not printed.'',
         []]))"

section \<open>Checking the arguments\<close>

text \<open>How the process ends: a return value, an uncaught exception, or a failed assertion.\<close>

datatype outcome = Returned int | Thrown exn | Aborted

text \<open>
  After the checks \<open>main\<close> ends with a text, or goes on with the number of agents, the increment, the
  initial delta, the one-shot option and the solver.
\<close>

datatype checked = Exit outcome string | Run nat nat int bool solver

definition check_args :: "(string \<Rightarrow> string option) \<Rightarrow> string \<Rightarrow> cli \<Rightarrow> solver \<Rightarrow> checked" where
  "check_args files argv0 args s0 =
     (if hflag args then Exit (Returned 0) (PrintHelp argv0 False)
      else if evalue args = None \<or> svalue args = None then Exit (Returned (-1)) (PrintHelp argv0 (qflag args))
      else case PickEncoding (the (evalue args)) s0 of
        Unknown_Encoding \<Rightarrow> Exit (Returned (-1)) (PrintHelp argv0 (qflag args))
      | Assertion_Failed \<Rightarrow> Exit Aborted []
      | Picked s \<Rightarrow>
        let map_dir = (case mvalue args of None \<Rightarrow> ''instances/maps'' | Some m \<Rightarrow> m);
            time_limit = (case tvalue args of None \<Rightarrow> 300 | Some t \<Rightarrow> atoi t);
            stat_file = (case fvalue args of None \<Rightarrow> [] | Some f \<Rightarrow> f);
            log_option = (case lvalue args of None \<Rightarrow> 0 | Some l \<Rightarrow> atoi l);
            cnf_path = (case cvalue args of None \<Rightarrow> [] | Some c \<Rightarrow> c)
        in if log_option \<noteq> 0 \<and> log_option \<noteq> 1 \<and> log_option \<noteq> 2 then
             Exit (Returned (-1)) (PrintHelp argv0 (qflag args))
           else case load_instance files map_dir (the (svalue args)) of
             Inl e \<Rightarrow> Exit (Thrown e) []
           | Inr i \<Rightarrow>
             let log = new_logger i (the (evalue args)) log_option stat_file;
                 s1 = SetData i log time_limit cnf_path (qflag args) (pflag args) False s;
                 size_a = length (inst_agents i)
             in case (case avalue args of None \<Rightarrow> Inr size_a | Some a \<Rightarrow> map_sum id size_t_of (stoi a)) of
                  Inl e \<Rightarrow> Exit (Thrown e) []
                | Inr current \<Rightarrow>
                  if current > size_a then Exit (Returned (-1)) []
                  else let increment = (case ivalue args of None \<Rightarrow> size_a | Some v \<Rightarrow> size_t_of (atoi v));
                           d = (case dvalue args of None \<Rightarrow> 0 | Some v \<Rightarrow> atoi v)
                    in Run current (if increment = 0 then size_a else increment) d (oflag args) s1)"

section \<open>Solving\<close>

type_synonym solve_call = "nat \<Rightarrow> int \<Rightarrow> bool \<Rightarrow> bool \<Rightarrow> solver \<Rightarrow> (int \<times> solver) option"

type_synonym main_state = "nat \<times> solver \<times> logger list"

text \<open>
  One round of the loop: \<open>Inl\<close> leaves it, with the logs and the last message. The sum of two
  \<open>size_t\<close> wraps around.
\<close>

definition main_round ::
  "solve_call \<Rightarrow> nat \<Rightarrow> int \<Rightarrow> bool \<Rightarrow> main_state \<Rightarrow> ((logger list \<times> string) + main_state) option" where
  "main_round slv increment d oneshot = (\<lambda>(current, s, stats).
     Option.bind (SetAgents current (inst s)) (\<lambda>i.
     let s1 = s\<lparr>inst := i, solver_log := NewInstance i current (solver_log s)\<rparr> in
     Option.bind (slv current d oneshot False s1) (\<lambda>(res, s2).
       if res = 1 then
         Some (Inl (stats, if quiet s2 then [] else line ''No solution found in the given timeout''))
       else if res = -1 then
         Some (Inl (stats @ [solver_log s2], if quiet s2 then [] else line ''No solution found in the given cost limit''))
       else
         let next_agents = (current + increment) mod 2 ^ 64 in
         if next_agents \<le> length (inst_agents (inst s2)) then Some (Inr (next_agents, s2, stats @ [solver_log s2]))
         else Some (Inl (stats @ [solver_log s2], [])))))"

partial_function (option) main_loop ::
  "(main_state \<Rightarrow> ((logger list \<times> string) + main_state) option) \<Rightarrow> main_state \<Rightarrow> (logger list \<times> string) option" where
  "main_loop round st =
     Option.bind (round st) (\<lambda>r. case r of Inl x \<Rightarrow> Some x | Inr st' \<Rightarrow> main_loop round st')"

text \<open>The virtual methods of the two back ends.\<close>

definition Solve_SMT ::
  "amk_encoder \<Rightarrow> monosat \<Rightarrow> clock \<Rightarrow> nat \<Rightarrow> int \<Rightarrow> bool \<Rightarrow> bool \<Rightarrow> solver \<Rightarrow> (int \<times> solver) option" where
  "Solve_SMT enc monosat clk = Solve (CreateFormula_SMT enc clk) (InvokeSolverImplementation_SMT monosat) clk"

definition Solve_dispatch :: "amk_encoder \<Rightarrow> sat_solver \<Rightarrow> monosat \<Rightarrow> clock \<Rightarrow> solve_call" where
  "Solve_dispatch enc cadical monosat clk n d oneshot keep s =
     (case class_of s of
        MAPFSAT_SAT \<Rightarrow> Solve_SAT enc cadical clk n d oneshot keep s
      | MAPFSAT_SMT \<Rightarrow> Solve_SMT enc monosat clk n d oneshot keep s)"

definition main ::
  "solve_call \<Rightarrow> (string \<Rightarrow> string option) \<Rightarrow> string \<Rightarrow> string list \<Rightarrow> solver \<Rightarrow> (outcome \<times> logger list \<times> string) option" where
  "main slv files argv0 argv s0 =
     (case handle_events (getopt argv) no_args of
        Inl c \<Rightarrow> Some (Returned (-1), [], line (''Option -'' @ [c] @ '' requires an argument!''))
      | Inr args \<Rightarrow>
          (case check_args files argv0 args s0 of
             Exit r msg \<Rightarrow> Some (r, [], PrintIntro (qflag args) @ msg)
           | Run current increment d oneshot s \<Rightarrow>
               map_option (\<lambda>(stats, msg). (Returned 0, stats, PrintIntro (qflag args) @ msg))
                 (main_loop (main_round slv increment d oneshot) (current, s, []))))"

section \<open>What the logs say\<close>

text \<open>The cost a log reports.\<close>

definition log_cost :: "nat \<Rightarrow> logger \<Rightarrow> int" where
  "log_cost cf l = (if cf = 1 then solution_mks l else solution_soc l)"

text \<open>
  A log of a successful call names the least cost of the instance for its number of agents, any other
  log a cost for which there is no solution.
\<close>

definition right_log :: "instance_t \<Rightarrow> nat \<Rightarrow> nat \<Rightarrow> logger \<Rightarrow> bool" where
  "right_log i m cf l \<longleftrightarrow>
     (let n = log_agents l; k = log_cost cf l in
      if log_res l = 0
      then (\<exists>p. solution i n m cf k p) \<and> (\<forall>k' p. (cf = 1 \<longrightarrow> 0 < n) \<longrightarrow> solution i n m cf k' p \<longrightarrow> k \<le> k')
      else \<not> (\<exists>p. solution i n m cf k p))"

lemma right_log_same_map: "same_map i i' \<Longrightarrow> right_log i' m cf l = right_log i m cf l"
  by (simp add: right_log_def solution_same_map)

text \<open>The state between two rounds.\<close>

definition main_ok :: "solver \<Rightarrow> bool" where
  "main_ok s \<longleftrightarrow>
     sat_client s \<and> prepared (inst s) (last_number_of_agents (inst s)) \<and>
     goals_fit (lazy_const s) (inst s) (length (inst_agents (inst s)))"

lemma goals_fit_mono: "goals_fit lz i n \<Longrightarrow> k \<le> n \<Longrightarrow> goals_fit lz i k"
  by (simp add: goals_fit_def goals_reachable_def goals_distinct_def)

lemma goals_fit_same_map: "same_map i i' \<Longrightarrow> goals_fit lz i' n = goals_fit lz i n"
  using same_map_queries [of i i'] by (simp add: goals_fit_def goals_reachable_def goals_distinct_def)

lemma main_SetAgents:
  assumes ok: "main_ok s" and n: "n \<le> length (inst_agents (inst s))"
  shows "\<exists>i. SetAgents n (inst s) = Some i \<and> prepared i n \<and> same_map (inst s) i \<and> last_number_of_agents i = n \<and>
    goals_fit (lazy_const s) i n \<and> goals_fit (lazy_const s) i (length (inst_agents i))"
proof -
  obtain i where i: "SetAgents n (inst s) = Some i" "prepared i n" "same_map (inst s) i" "last_number_of_agents i = n"
    using SetAgents_prepared [of "inst s" n] ok n by (auto simp: main_ok_def)
  moreover have "inst_agents i = inst_agents (inst s)" using i(3) by (simp add: same_map_def)
  ultimately show ?thesis
    using ok n goals_fit_same_map [OF i(3)] goals_fit_mono [of _ "inst s" _ n] by (auto simp: main_ok_def)
qed

lemma minimal_cost:
  assumes prep: "prepared i n" and cf: "cf = 1 \<longrightarrow> 0 < n"
    and least: "\<forall>j. 0 \<le> j \<longrightarrow> j < k \<longrightarrow> \<not> (\<exists>p. solution i n m cf (lower_bound i n cf + j) p)"
    and s: "solution i n m cf k' p"
  shows "lower_bound i n cf + k \<le> k'"
proof (rule ccontr)
  assume "\<not> lower_bound i n cf + k \<le> k'"
  moreover have "lower_bound i n cf \<le> k'" using solution_lower_bound [OF prep _ s] cf by blast
  ultimately have "0 \<le> k' - lower_bound i n cf" "k' - lower_bound i n cf < k" by simp_all
  then have "\<not> (\<exists>p. solution i n m cf (lower_bound i n cf + (k' - lower_bound i n cf)) p)" using least by blast
  then show False using s by auto
qed

text \<open>For a SAT client the virtual call is that of the SAT back end.\<close>

lemma dispatch_SAT: "sat_client s \<Longrightarrow> Solve_dispatch enc cadical monosat clk n d oneshot keep s = Solve_SAT enc cadical clk n d oneshot keep s"
  by (simp add: Solve_dispatch_def sat_client_def)

lemma main_round_right:
  assumes ok: "main_ok s" and n: "n \<le> length (inst_agents (inst s))" and lib: "libraries_ok enc cadical clk"
    and r: "main_round (Solve_dispatch enc cadical monosat clk) increment 0 oneshot (n, s, stats) = Some r"
  shows "(\<exists>msg. r = Inl (stats, msg)) \<or>
    (\<exists>l. right_log (inst s) (movement s) (cost_function s) l \<and> log_agents l = n \<and>
       ((\<exists>msg. r = Inl (stats @ [l], msg)) \<or>
        log_res l = 0 \<and> (n + increment) mod 2 ^ 64 \<le> length (inst_agents (inst s)) \<and>
        (\<exists>s'. r = Inr ((n + increment) mod 2 ^ 64, s', stats @ [l]) \<and> main_ok s' \<and> same_map (inst s) (inst s') \<and>
          movement s' = movement s \<and> cost_function s' = cost_function s \<and> timeout s' = timeout s)))"
proof -
  obtain i where i: "SetAgents n (inst s) = Some i" "prepared i n" "same_map (inst s) i" "last_number_of_agents i = n"
    "goals_fit (lazy_const s) i n" "goals_fit (lazy_const s) i (length (inst_agents i))" using main_SetAgents [OF ok n] by blast
  let ?s1 = "s\<lparr>inst := i, solver_log := NewInstance i n (solver_log s)\<rparr>"
  have s1: "sat_client ?s1" using ok by (simp add: main_ok_def sat_client_def)
  obtain res s2 where slv: "Solve_SAT enc cadical clk n 0 oneshot False ?s1 = Some (res, s2)"
    using r i(1) dispatch_SAT [OF s1] by (auto simp: main_round_def Let_def split: bind_splits)
  have v: "solve_verdict i n (movement s) (cost_function s) 0 oneshot False res s2"
    using Solve_SAT_verdict [OF s1 _ _ order_refl lib slv] i(2,5) by simp
  show ?thesis
  proof (cases "res = 1")
    case True
    then show ?thesis using r i(1) slv dispatch_SAT [OF s1] by (auto simp: main_round_def Let_def)
  next
    case False
    note A = Solve_SAT_after [OF s1 _ _ order_refl lib slv False, simplified, OF i(2,5)]
    let ?l = "solver_log s2" and ?k = "delta s2 - 1"
    have n2: "log_agents ?l = n" using A(7) by (simp add: NewInstance_def)
    have cf: "cost_function s \<in> {1, 2}" using ok by (simp add: main_ok_def sat_client_def)
    have cost: "log_cost (cost_function s) ?l = lower_bound i n (cost_function s) + ?k"
      using A(1,5,8,9) cf by (auto simp: log_cost_def logged_def lower_bound_def)
    have res: "log_res ?l = 0 \<longleftrightarrow> res = 0" using A(9) by (simp add: logged_def)
    have "right_log i (movement s) (cost_function s) ?l"
    proof (cases "res = 0")
      case True
      have "\<exists>p. solution i n (movement s) (cost_function s) (lower_bound i n (cost_function s) + ?k) p"
        and least: "\<forall>j. 0 \<le> j \<longrightarrow> j < ?k \<longrightarrow> \<not> (\<exists>p. solution i n (movement s) (cost_function s) (lower_bound i n (cost_function s) + j) p)"
        using v True by (simp_all add: solve_verdict_def Let_def)
      then show ?thesis
        using True res n2 cost minimal_cost [OF i(2) _ least] by (auto simp: right_log_def Let_def)
    next
      case no: False
      then have "?k = 0" "\<not> (\<exists>p. solution i n (movement s) (cost_function s) (lower_bound i n (cost_function s) + 0) p)"
        using v False unfolding solve_verdict_def Let_def by blast+
      then show ?thesis using no res n2 cost by (simp add: right_log_def Let_def)
    qed
    then have right: "right_log (inst s) (movement s) (cost_function s) ?l"
      using right_log_same_map [OF i(3)] by simp
    have "main_ok s2"
      using A(1-3) i(2,4,6) by (simp add: main_ok_def)
    moreover have "inst_agents (inst s2) = inst_agents (inst s)" using A(1) i(3) by (simp add: same_map_def)
    moreover have "res = -1 \<or> res = 0" using v False by (auto simp: solve_verdict_def Let_def)
    moreover have "same_map (inst s) (inst s2)" using A(1) i(3) by simp
    ultimately show ?thesis
      using r i(1) slv dispatch_SAT [OF s1] False right n2 A(4-6) res
      by (intro disjI2 exI [of _ ?l]) (auto simp: main_round_def Let_def split: if_splits)
  qed
qed

lemma main_loop_right:
  assumes lib: "libraries_ok enc cadical clk"
    and run: "main_loop (main_round (Solve_dispatch enc cadical monosat clk) increment 0 oneshot) (n, s, stats) = Some (stats', msg)"
    and ok: "main_ok s" "n \<le> length (inst_agents (inst s))"
    and stats: "\<forall>l \<in> set stats. right_log (inst s) (movement s) (cost_function s) l"
  shows "\<forall>l \<in> set stats'. right_log (inst s) (movement s) (cost_function s) l"
proof -
  let ?R = "main_round (Solve_dispatch enc cadical monosat clk) increment 0 oneshot"
  let ?P = "\<lambda>f st q. f = ?R \<longrightarrow> (case st of (n, s, stats) \<Rightarrow> main_ok s \<longrightarrow> n \<le> length (inst_agents (inst s)) \<longrightarrow>
      (\<forall>l \<in> set stats. right_log (inst s) (movement s) (cost_function s) l) \<longrightarrow>
      (\<forall>l \<in> set (fst q). right_log (inst s) (movement s) (cost_function s) l))"
  have "?P ?R (n, s, stats) (stats', msg)"
  proof (rule main_loop.raw_induct [where P = ?P, OF _ run])
    fix loop f st q
    assume IH: "\<And>f st q. loop f st = Some q \<Longrightarrow> ?P f st q"
      and step: "Option.bind (f st) (\<lambda>r. case r of Inl x \<Rightarrow> Some x | Inr st' \<Rightarrow> loop f st') = Some q"
    show "?P f st q"
    proof (cases st)
      case (fields n s stats)
      show ?thesis
        unfolding fields prod.case
      proof (intro impI)
        assume f: "f = ?R" and ok: "main_ok s" "n \<le> length (inst_agents (inst s))"
          and stats: "\<forall>l \<in> set stats. right_log (inst s) (movement s) (cost_function s) l"
        obtain r where r: "?R (n, s, stats) = Some r" "(case r of Inl x \<Rightarrow> Some x | Inr st' \<Rightarrow> loop f st') = Some q"
          using step f fields by (auto split: bind_splits)
        from main_round_right [OF ok lib r(1)]
        show "\<forall>l \<in> set (fst q). right_log (inst s) (movement s) (cost_function s) l"
        proof (elim disjE exE conjE)
          fix l s'
          assume l: "right_log (inst s) (movement s) (cost_function s) l"
            and le: "(n + increment) mod 2 ^ 64 \<le> length (inst_agents (inst s))"
            and r': "r = Inr ((n + increment) mod 2 ^ 64, s', stats @ [l])" and ok': "main_ok s'"
            and same: "same_map (inst s) (inst s')" "movement s' = movement s" "cost_function s' = cost_function s"
          have eq: "right_log (inst s') (movement s') (cost_function s') = right_log (inst s) (movement s) (cost_function s)"
            using right_log_same_map [OF same(1)] same(2,3) by (simp add: fun_eq_iff)
          have "loop f ((n + increment) mod 2 ^ 64, s', stats @ [l]) = Some q" using r(2) r' by simp
          from IH [OF this] f ok' le same(1) l stats
          show ?thesis by (auto simp: eq same_map_def)
        qed (use r(2) stats in auto)
      qed
    qed
  qed
  then show ?thesis using ok stats by simp
qed

section \<open>When the loop ends\<close>

lemma solution_above:
  assumes "prepared i n" "solution i n m cf k p"
  shows "\<exists>k p. solution i n m cf k p \<and> lower_bound i n cf \<le> k"
proof (cases "cf = 1 \<and> n = 0")
  case True
  then have "solution i n m cf (lower_bound i n cf) p" using assms(2) by (simp add: solution_def within_cost_def)
  then show ?thesis by blast
next
  case False
  then have "lower_bound i n cf \<le> k" by (intro solution_lower_bound [OF assms(1) _ assms(2)]) simp
  then show ?thesis using assms(2) by blast
qed

lemma main_round_solves:
  assumes ok: "main_ok s" and n: "n \<le> length (inst_agents (inst s))" and lib: "libraries_ok enc cadical clk"
    and time: "\<forall>j k. clk j - clk k \<le> 1000000 * (timeout s * 1000)"
    and sol: "\<exists>k p. solution (inst s) n (movement s) (cost_function s) k p"
  shows "\<exists>l s'. log_res l = 0 \<and> log_agents l = n \<and> main_ok s' \<and> same_map (inst s) (inst s') \<and>
    movement s' = movement s \<and> cost_function s' = cost_function s \<and> timeout s' = timeout s \<and>
    main_round (Solve_dispatch enc cadical monosat clk) increment 0 False (n, s, stats) =
      Some (if (n + increment) mod 2 ^ 64 \<le> length (inst_agents (inst s))
            then Inr ((n + increment) mod 2 ^ 64, s', stats @ [l]) else Inl (stats @ [l], []))"
proof -
  obtain i where i: "SetAgents n (inst s) = Some i" "prepared i n" "same_map (inst s) i" "last_number_of_agents i = n"
    "goals_fit (lazy_const s) i n" "goals_fit (lazy_const s) i (length (inst_agents i))" using main_SetAgents [OF ok n] by blast
  let ?s1 = "s\<lparr>inst := i, solver_log := NewInstance i n (solver_log s)\<rparr>"
  have s1: "sat_client ?s1" using ok by (simp add: main_ok_def sat_client_def)
  obtain k p where s: "solution i n (movement s) (cost_function s) k p" "lower_bound i n (cost_function s) \<le> k"
    using sol solution_same_map [OF i(3)] solution_above [OF i(2)] by blast
  then have "\<exists>u. Solve_SAT enc cadical clk n 0 False False ?s1 = Some (0, u)"
    using i(2,5) s1 lib time
    by (intro Solve_SAT_finds [where k = "k - lower_bound i n (cost_function s)" and p = p]) simp_all
  then obtain s2 where slv: "Solve_SAT enc cadical clk n 0 False False ?s1 = Some (0, s2)" by blast
  note A = Solve_SAT_after [OF s1 _ _ order_refl lib slv, simplified, OF i(2,5)]
  have "log_res (solver_log s2) = 0" using A(9) by (simp add: logged_def)
  moreover have "log_agents (solver_log s2) = n" using A(7) by (simp add: NewInstance_def)
  moreover have "main_ok s2" using A(1-3) i(2,4,6) by (simp add: main_ok_def)
  moreover have "same_map (inst s) (inst s2)" "length (inst_agents (inst s2)) = length (inst_agents (inst s))"
    using A(1) i(3) by (simp_all add: same_map_def)
  ultimately show ?thesis
    using i(1) slv dispatch_SAT [OF s1] A(4-6)
    by (intro exI [of _ "solver_log s2"] exI [of _ s2]) (auto simp: main_round_def Let_def)
qed

text \<open>
  With enough time and a solution for every number of agents the loop ends, after solving the numbers
  from the first in steps of the increment.
\<close>

lemma main_loop_solves:
  assumes lib: "libraries_ok enc cadical clk" and inc: "0 < increment"
  shows "main_ok s \<Longrightarrow> n \<le> length (inst_agents (inst s)) \<Longrightarrow> length (inst_agents (inst s)) + increment < 2 ^ 64 \<Longrightarrow>
    \<forall>j k. clk j - clk k \<le> 1000000 * (timeout s * 1000) \<Longrightarrow>
    \<forall>m \<le> length (inst_agents (inst s)). \<exists>k p. solution (inst s) m (movement s) (cost_function s) k p \<Longrightarrow>
    \<exists>ls. main_loop (main_round (Solve_dispatch enc cadical monosat clk) increment 0 False) (n, s, stats) = Some (stats @ ls, []) \<and>
      map log_agents ls = map (\<lambda>j. n + j * increment) [0..<Suc ((length (inst_agents (inst s)) - n) div increment)] \<and>
      (\<forall>l \<in> set ls. log_res l = 0)"
proof (induction "length (inst_agents (inst s)) - n" arbitrary: n s stats rule: less_induct)
  case less
  let ?a = "length (inst_agents (inst s))" and ?R = "main_round (Solve_dispatch enc cadical monosat clk) increment 0 False"
  have wrap: "(n + increment) mod 2 ^ 64 = n + increment" using less.prems(2,3) by simp
  obtain l s' where l: "log_res l = 0" "log_agents l = n" and s': "main_ok s'" "same_map (inst s) (inst s')"
    "movement s' = movement s" "cost_function s' = cost_function s" "timeout s' = timeout s"
    and R: "?R (n, s, stats) = Some (if n + increment \<le> ?a then Inr (n + increment, s', stats @ [l]) else Inl (stats @ [l], []))"
    using main_round_solves [OF less.prems(1,2) lib less.prems(4), of monosat increment stats] less.prems(2,5) unfolding wrap by blast
  show ?case
  proof (cases "n + increment \<le> ?a")
    case True
    have a: "length (inst_agents (inst s')) = ?a" using s'(2) by (simp add: same_map_def)
    have "\<exists>ls. main_loop ?R (n + increment, s', stats @ [l]) = Some ((stats @ [l]) @ ls, []) \<and>
        map log_agents ls = map (\<lambda>j. n + increment + j * increment) [0..<Suc ((length (inst_agents (inst s')) - (n + increment)) div increment)] \<and>
        (\<forall>l \<in> set ls. log_res l = 0)"
    proof (rule less.hyps)
      show "length (inst_agents (inst s')) - (n + increment) < ?a - n" using True inc a by simp
      show "\<forall>m \<le> length (inst_agents (inst s')). \<exists>k p. solution (inst s') m (movement s') (cost_function s') k p"
        using less.prems(5) a s'(3,4) solution_same_map [OF s'(2)] by simp
    qed (use s' a True less.prems inc in simp_all)
    then obtain ls where ls: "main_loop ?R (n + increment, s', stats @ [l]) = Some ((stats @ [l]) @ ls, [])"
      "map log_agents ls = map (\<lambda>j. n + increment + j * increment) [0..<Suc ((?a - (n + increment)) div increment)]"
      "\<forall>l \<in> set ls. log_res l = 0" unfolding a by blast
    have "(?a - n) div increment = Suc ((?a - (n + increment)) div increment)"
      using True inc by (simp add: le_div_geq)
    moreover have "map (\<lambda>j. n + j * increment) [0..<Suc (Suc m)] = n # map (\<lambda>j. n + increment + j * increment) [0..<Suc m]" for m
      by (simp add: map_upt_Suc add.assoc del: upt_Suc)
    ultimately have "map log_agents (l # ls) = map (\<lambda>j. n + j * increment) [0..<Suc ((?a - n) div increment)]"
      using l(2) ls(2) by simp
    then show ?thesis
      using ls(1,3) l(1) R True by (intro exI [of _ "l # ls"]) (simp add: main_loop.simps [of ?R "(n, s, stats)"])
  next
    case False
    then have "(?a - n) div increment = 0" using less.prems(2) by (intro div_less) linarith
    then show ?thesis
      using l R False by (intro exI [of _ "[l]"]) (simp add: main_loop.simps [of ?R "(n, s, stats)"])
  qed
qed

lemma solution_fewer:
  assumes "solution i n mv cf k p" "n' \<le> n"
  shows "solution i n' mv cf k p"
proof -
  obtain c where c: "\<forall>a < n. arrives i p a (c a)"
    "if cf = 1 then \<forall>a < n. int (c a) + 1 \<le> k else (\<Sum>a<n. int (c a) + 1) \<le> k"
    using assms(1) unfolding solution_def within_cost_def by blast
  have "(\<Sum>a<n'. int (c a) + 1) \<le> (\<Sum>a<n. int (c a) + 1)"
    using assms(2) by (intro sum_mono2) auto
  then have "within_cost i n' cf k p"
    unfolding within_cost_def using c assms(2) by (intro exI [of _ c]) (auto split: if_splits)
  then show ?thesis using assms by (simp add: solution_def on_map_def collision_free_def)
qed

end
