(* ===== verification/Program_Runs.thy ===== *)
theory Program_Runs
  imports Main_Program
begin

text \<open>
  A run of the program from the command line: the arguments, the two files and the state in which the
  loop of \<open>main\<close> starts.
\<close>

section \<open>The start of a run\<close>

text \<open>The SAT encodings are always built.\<close>

lemma PickEncoding_SAT:
  assumes "parse_encoding enc = Some c" "o_solver c = 1"
  shows "\<exists>s. PickEncoding enc s0 = Picked s \<and>
    new_MAPFSAT_SAT (o_var c) (o_cost c) (o_moves c) (o_lazy c) (o_dupli c) 1 enc s0 = Some s"
proof -
  have "encoding_args_ok (o_var c) (o_cost c) (o_moves c) (o_lazy c) (o_dupli c)"
    using assms(1) unfolding parse_encoding_iff encoding_args_ok_def
    by (auto simp: cost_words_def moves_words_def var_words_def lazy_words_def dupli_words_def)
  then show ?thesis using assms by (simp add: PickEncoding_def new_MAPFSAT_SAT_def)
qed

text \<open>
  The command line of a run with explicit numbers, and the state in which the loop of \<open>main\<close> starts.
\<close>

definition command :: "string \<Rightarrow> string \<Rightarrow> string \<Rightarrow> nat \<Rightarrow> nat \<Rightarrow> string list" where
  "command enc path dir a inc =
     [''-e'', enc, ''-s'', path, ''-m'', dir, ''-a'', show_nat a, ''-i'', show_nat inc]"

lemma command_main:
  assumes inst: "load_instance files dir path = Inr i" and enc: "PickEncoding enc s0 = Picked s"
    and a: "a \<le> length (inst_agents i)" "a < 2 ^ 31" and inc: "0 < inc" "inc < 2 ^ 31"
  shows "main slv files argv0 (command enc path dir a inc) s0 =
    map_option (\<lambda>(stats, msg). (Returned 0, stats, PrintIntro False @ msg))
      (main_loop (main_round slv inc 0 False) (a, SetData i (new_logger i enc 0 []) 300 [] False False False s, []))"
proof -
  let ?args = "no_args\<lparr>evalue := Some enc, svalue := Some path, mvalue := Some dir,
    avalue := Some (show_nat a), ivalue := Some (show_nat inc)\<rparr>"
  have e: "handle_events (getopt (command enc path dir a inc)) no_args = Inr ?args"
    by (simp add: command_def takes_value_def set_value_def)
  have n: "stoi (show_nat a) = Inr (int a)" "atoi (show_nat inc) = int inc"
    using stoi_show [of "int a"] atoi_show [of "int inc"] a inc by (simp_all add: show_int_def in_int_range_def)
  have "check_args files argv0 ?args s0 =
      Run a inc 0 False (SetData i (new_logger i enc 0 []) 300 [] False False False s)"
    using inst enc a inc n by (simp add: check_args_def no_args_def Let_def size_t_of_nonneg)
  then show ?thesis using e by (simp add: main_def no_args_def)
qed

text \<open>The files of a run: a map and a scenario in the format of the benchmarks.\<close>

definition run_files :: "(string \<Rightarrow> string option) \<Rightarrow> string \<Rightarrow> string \<Rightarrow> string \<Rightarrow> string list \<Rightarrow>
    ((int \<times> int) \<times> (int \<times> int)) list \<Rightarrow> bool" where
  "run_files files path dir m rows ags \<longleftrightarrow>
     (\<exists>version other kind. files path = Some (scen_text version other m ags) \<and>
        files (dir @ ''/'' @ m) = Some (map_text kind rows) \<and>
        newline \<notin> set version \<and> newline \<notin> set kind \<and> others_ok other \<and> word_ok m) \<and>
     map_rows_ok rows \<and> ags \<noteq> [] \<and> length ags < 2 ^ 31 \<and> (\<forall>p \<in> set ags. pos_ok p) \<and>
     input_ok (map_cells rows) (map fst ags) (map snd ags)"

definition run_instance :: "string \<Rightarrow> string \<Rightarrow> string list \<Rightarrow> ((int \<times> int) \<times> (int \<times> int)) list \<Rightarrow> instance_t" where
  "run_instance path m rows ags = make_instance (map_cells rows) (map fst ags) (map snd ags) path m"

lemma run_starts:
  assumes files: "run_files files path dir m rows ags" and enc: "parse_encoding enc = Some c" "o_solver c = 1"
    and fit: "goals_fit (o_lazy c) (run_instance path m rows ags) (length ags)"
    and a: "a \<le> length ags" and inc: "0 < inc" "inc < 2 ^ 31"
  shows "\<exists>s. main slv files argv0 (command enc path dir a inc) s0 =
      map_option (\<lambda>(stats, msg). (Returned 0, stats, PrintIntro False @ msg))
        (main_loop (main_round slv inc 0 False) (a, s, [])) \<and>
    main_ok s \<and> inst s = run_instance path m rows ags \<and> length (inst_agents (inst s)) = length ags \<and>
    movement s = o_moves c \<and> cost_function s = o_cost c \<and> timeout s = 300"
proof -
  let ?i = "run_instance path m rows ags"
  have i: "load_instance files dir path = Inr ?i"
    using files load_instance_text unfolding run_files_def run_instance_def by blast
  have ok: "input_ok (map_cells rows) (map fst ags) (map snd ags)" using files by (simp add: run_files_def)
  note prep = make_instance_prepared [OF ok, of path m, folded run_instance_def]
  obtain s1 where s1: "PickEncoding enc s0 = Picked s1"
    "new_MAPFSAT_SAT (o_var c) (o_cost c) (o_moves c) (o_lazy c) (o_dupli c) 1 enc s0 = Some s1"
    using PickEncoding_SAT [OF enc] by blast
  let ?s = "SetData ?i (new_logger ?i enc 0 []) 300 [] False False False s1"
  note new = new_sat_client [OF s1(2), of ?i "new_logger ?i enc 0 []" 300 "[]" False False]
  have "main slv files argv0 (command enc path dir a inc) s0 =
      map_option (\<lambda>(stats, msg). (Returned 0, stats, PrintIntro False @ msg))
        (main_loop (main_round slv inc 0 False) (a, ?s, []))"
    using command_main [OF i s1(1)] files prep(2) a inc by (simp add: run_files_def)
  moreover have "main_ok ?s" using new prep fit by (simp add: main_ok_def)
  ultimately show ?thesis using new prep by (intro exI [of _ ?s]) simp
qed

section \<open>What a run does\<close>

text \<open>Time enough and a solution for all agents: every number of agents is solved.\<close>

lemma run_solves_all:
  assumes files: "run_files files path dir m rows ags" and enc: "parse_encoding enc = Some c" "o_solver c = 1"
    and fit: "goals_fit (o_lazy c) (run_instance path m rows ags) (length ags)"
    and a: "a \<le> length ags" "0 < inc" "inc < 2 ^ 31" and lib: "libraries_ok pb cadical clk"
    and time: "\<forall>j k. clk j - clk k \<le> 1000000 * (300 * 1000)"
    and sol: "solution (run_instance path m rows ags) (length ags) (o_moves c) (o_cost c) k p"
  shows "\<exists>logs. main (Solve_dispatch pb cadical monosat clk) files argv0 (command enc path dir a inc) s0 =
      Some (Returned 0, logs, PrintIntro False) \<and>
    map log_agents logs = map (\<lambda>j. a + j * inc) [0..<Suc ((length ags - a) div inc)] \<and>
    (\<forall>l \<in> set logs. log_res l = 0 \<and> right_log (run_instance path m rows ags) (o_moves c) (o_cost c) l)"
proof -
  let ?slv = "Solve_dispatch pb cadical monosat clk"
  obtain s where s: "main ?slv files argv0 (command enc path dir a inc) s0 =
      map_option (\<lambda>(stats, msg). (Returned 0, stats, PrintIntro False @ msg)) (main_loop (main_round ?slv inc 0 False) (a, s, []))"
    "main_ok s" "inst s = run_instance path m rows ags" "length (inst_agents (inst s)) = length ags"
    "movement s = o_moves c" "cost_function s = o_cost c" "timeout s = 300"
    using run_starts [OF files enc fit a, of ?slv argv0 s0] by blast
  have len: "length ags < 2 ^ 31" using files by (simp add: run_files_def)
  have sols: "\<forall>m' \<le> length (inst_agents (inst s)). \<exists>k p. solution (inst s) m' (movement s) (cost_function s) k p"
    using solution_fewer [OF sol] s(3-6) by auto
  obtain logs where loop: "main_loop (main_round ?slv inc 0 False) (a, s, []) = Some (logs, [])"
    and l: "map log_agents logs = map (\<lambda>j. a + j * inc) [0..<Suc ((length ags - a) div inc)]" "\<forall>l \<in> set logs. log_res l = 0"
    using main_loop_solves [OF lib a(2) s(2) _ _ _ sols, of a monosat "[]"] s(4,6,7) a len time by auto
  have "\<forall>l \<in> set logs. right_log (run_instance path m rows ags) (o_moves c) (o_cost c) l"
    using main_loop_right [OF lib loop s(2)] s(3-6) a(1) by simp
  then show ?thesis using s(1) loop l by (intro exI [of _ logs]) simp
qed

end
