(* ===== verification/Example_Runs.thy ===== *)
theory Example_Runs
  imports Program_Runs
begin

text \<open>
  Concrete states and calls, evaluated by the simplifier: the program run inside the logic, with
  \<open>naive_amk\<close> and \<open>naive_sat\<close> as the libraries and a clock that stands still. They instantiate the
  properties.
\<close>

declare bfs_loop.simps [code] solve_loop.simps [code] main_loop.simps [code]

definition blank_instance :: instance_t where
  "blank_instance = \<lparr>inst_agents = [], length_from_start = [], length_from_goal = [], SP_lengths = [],
     avoid_locations = [], imap = [], height = 0, width = 0, number_of_vertices = 0, scen_name = [], map_name = [],
     mks_LBs = [], soc_LBs = [], coord_list = [], last_number_of_agents = 0\<rparr>"

definition blank_log :: logger where
  "blank_log = \<lparr>log_map_name = [], log_scen_name = [], log_encoding = [], solution_mks = 0, solution_soc = 0,
     building_time = 0, solving_time = 0, log_nr_vars = 0, log_nr_clauses = 0, log_nr_clauses_move = 0,
     log_nr_clauses_dupli = 0, log_nr_clauses_conflict = 0, log_nr_clauses_soc = 0, log_nr_clauses_unit = 0,
     log_solver_calls = 0, log_agents = 0, mksLB = 0, socLB = 0, log_res = 0, log_file = [], print_type = 0\<rparr>"

definition blank_solver :: solver where
  "blank_solver = \<lparr>class_of = MAPFSAT_SAT, inst = blank_instance, solver_log = blank_log, solver_name = [],
     variables = 1, cost_function = 2, movement = 1, lazy_const = 1, timeout = 300, cnf_file = [], quiet = True,
     print_plan = False, use_avoid = False, keep_plan = True, solver_to_use = 1, duplicates = 1, agents = 0,
     vertices = 0, delta = 0, max_timestep = 0, cnf_printable = [], at = None, pass = None, shift = None,
     shift_times_start = None, shift_times_end = None, at_vars = 0, nr_vars = 1, nr_clauses = 0,
     nr_clauses_move = 0, nr_clauses_dupli = 0, nr_clauses_conflict = 0, nr_clauses_soc = 0, nr_clauses_unit = 0,
     solver_calls = 0, plan = [], conflicts_present = False, first_try = True, vertex_conflicts = [],
     swap_conflicts = [], pebble_conflicts = [], SAT_solver = None, clock_reads = 0\<rparr>"

text \<open>
  The client of a call with two agents of an instance: the kind of variables, the cost function, the
  movement, the lazy option.
\<close>

definition client :: "nat \<Rightarrow> nat \<Rightarrow> nat \<Rightarrow> nat \<Rightarrow> instance_t \<Rightarrow> solver" where
  "client var cf mv lz i = blank_solver\<lparr>inst := the (SetAgents 2 i), variables := var, cost_function := cf,
     movement := mv, lazy_const := lz\<rparr>"

text \<open>Two agents that walk side by side.\<close>

definition easy_instance :: instance_t where
  "easy_instance = make_instance example_map [(1, 0), (1, 2)] [(1, 1), (1, 3)] [] []"

abbreviation naive_Solve :: "nat \<Rightarrow> int \<Rightarrow> bool \<Rightarrow> bool \<Rightarrow> solver \<Rightarrow> (int \<times> solver) option" where
  "naive_Solve \<equiv> Solve_SAT naive_amk naive_sat (\<lambda>_. 0)"

lemma easy_run1:
  "map_option (\<lambda>(r, u). (r, delta u, plan u)) (naive_Solve 2 0 False True (client 1 2 1 1 easy_instance)) =
     Some (0, 1, [[1, 2], [3, 4]])"
  by code_simp
lemma easy_run2:
  "map_option (\<lambda>(r, u). (r, delta u, plan u)) (naive_Solve 2 0 False True (client 2 1 2 1 easy_instance)) =
     Some (0, 1, [[1, 2], [3, 4]])"
  by code_simp
text \<open>A one-shot call that fails: at the lower bound the two agents of the example can only swap.\<close>

definition failed_call :: "(int \<times> solver) option" where
  "failed_call = Solve_dispatch naive_amk naive_sat (\<lambda>_ _ _ _. (0, None)) (\<lambda>_. 0) 2 0 True True (client 1 2 1 2 example_instance)"

lemma failed_call_run:
  "map_option (\<lambda>(r, u). (r, delta u, plan u, solver_calls u, nr_clauses u)) failed_call = Some (-1, 1, [], 2, 7)"
  by code_simp

section \<open>The files of a run\<close>

definition ex_agents :: "((int \<times> int) \<times> (int \<times> int)) list" where
  "ex_agents = zip example_start example_goal"

definition ex_rows :: "string list" where
  "ex_rows = [''@@.@'', ''....'']"

definition ex_files :: "string \<Rightarrow> string option" where
  "ex_files = [''s.scen'' \<mapsto> scen_text ''version 1'' [''0'', ''4'', ''2'', ''1''] ''m.map'' ex_agents,
     ''d/m.map'' \<mapsto> map_text ''type octile'' ex_rows]"

lemma ex_input_ok: "input_ok (map_cells ex_rows) (map fst ex_agents) (map snd ex_agents)"
proof -
  have "map_cells ex_rows = [[-1, -1, 0, -1], [0, 0, 0, 0]]" "map fst ex_agents = [(1, 0), (1, 1)]"
    "map snd ex_agents = [(1, 1), (1, 0)]" by code_simp+
  then show ?thesis
    unfolding input_ok_def map_vector_ok_def cell_in_def by (auto simp: less_suc_2 All_less_Suc)
qed

lemma ex_texts:
  "newline \<notin> set ''version 1''" "newline \<notin> set ''type octile''" "word_ok ''m.map''"
  "others_ok [''0'', ''4'', ''2'', ''1'']" "\<forall>p \<in> set ex_agents. pos_ok p"
  by code_simp+

lemma ex_rows_ok: "map_rows_ok ex_rows"
  by (simp add: map_rows_ok_def ex_rows_def is_space_def)

lemma ex_run_files: "run_files ex_files ''s.scen'' ''d'' ''m.map'' ex_rows ex_agents"
proof -
  have f: "ex_files ''s.scen'' = Some (scen_text ''version 1'' [''0'', ''4'', ''2'', ''1''] ''m.map'' ex_agents)"
    "ex_files (''d'' @ ''/'' @ ''m.map'') = Some (map_text ''type octile'' ex_rows)"
    by (simp_all add: ex_files_def)
  have "ex_agents \<noteq> []" "length ex_agents < 2 ^ 31" by (simp_all add: ex_agents_def example_start_def example_goal_def)
  then show ?thesis unfolding run_files_def using f ex_texts ex_rows_ok ex_input_ok by blast
qed

lemma ex_same_map: "same_map example_instance (run_instance ''s.scen'' ''m.map'' ex_rows ex_agents)"
  by code_simp

lemma ex_parse: "parse_encoding ''soc_parallel_pass_lazy_single'' =
    Some \<lparr>o_cost = 2, o_moves = 1, o_var = 2, o_lazy = 2, o_dupli = 1, o_solver = 1\<rparr>"
  by code_simp


section \<open>A round that finds a conflict\<close>

text \<open>Two agents that have to swap, at the lower bound: the only model makes them swap on an edge.\<close>

definition lazy_state :: solver where
  "lazy_state = snd (now (\<lambda>_. 0) (open_round (fst (solve_start 2 0 True (client 1 2 1 2 example_instance)))))"

definition lazy_formula :: cnf where
  "lazy_formula = [[1], [4], [2], [3], [2, -1], [3, -4]]"

definition lazy_model :: "int \<Rightarrow> int" where
  "lazy_model x = (if x \<in> set [2, 1, 3, 4] then 1 else 0)"

definition lazy_created :: "int \<times> solver" where
  "lazy_created = CreateFormula_SAT naive_amk (\<lambda>_. 0) 0 lazy_state"

definition lazy_answer :: "int \<times> solver" where
  "lazy_answer = InvokeSolver (InvokeSolverImplementation_SAT naive_sat) 0 ((snd lazy_created)\<lparr>nr_vars := fst lazy_created\<rparr>)"

definition lazy_next :: "int \<times> solver" where
  "lazy_next = CreateFormula_SAT naive_amk (\<lambda>_. 0) 0 ((snd lazy_answer)\<lparr>first_try := False, conflicts_present := False\<rparr>)"

lemma lazy_created_formula: "fst lazy_created = 5" "SAT_solver (snd lazy_created) = Some lazy_formula"
  by code_simp+

lemma lazy_answer_conflict: "fst lazy_answer = 0" "conflicts_present (snd lazy_answer)"
  by code_simp+

lemma lazy_next_formula: "fst lazy_next = 5" "SAT_solver (snd lazy_next) = Some (lazy_formula @ [[-1, -2, -3, -4]])"
  by code_simp+

lemma lazy_model_found: "naive_sat n lim lazy_formula = (10, lazy_model)"
proof -
  have "List.find (\<lambda>S. cnf_true (\<lambda>x. x \<in> set S) lazy_formula) (subseqs (remdups (map abs (concat lazy_formula)))) = Some [2, 1, 3, 4]"
    by code_simp
  then show ?thesis unfolding naive_sat_def by (simp add: lazy_model_def fun_eq_iff)
qed

lemma lazy_state_start: "sat_start lazy_state" "lazy_const lazy_state = 2"
proof -
  let ?s = "client 1 2 1 2 example_instance"
  obtain i where i: "SetAgents 2 example_instance = Some i" "prepared i 2" "goals_fit 2 i 2" using example_prepared by blast
  have "sat_client ?s" "inst ?s = i" "lazy_const ?s = 2" using i by (simp_all add: client_def sat_client_def blank_solver_def)
  then have "sat.ready (\<lambda>_. 0) naive_amk naive_sat (fst (solve_start 2 0 True ?s))"
    using i by (intro solve_start_ready) (simp_all add: libraries_ok_def naive_amk_ok naive_sat_ok mono_def)
  then show "sat_start lazy_state" by (simp add: sat.ready_def sat.opened_def sat_accepts_def lazy_state_def)
  show "lazy_const lazy_state = 2"
    by (simp add: lazy_state_def client_def solve_start_def open_round_def CreateSolver_def now_def Let_def split: solver_class.splits)
qed


section \<open>Clients and rounds of the example\<close>

lemma naive_libraries_ok: "libraries_ok naive_amk naive_sat (\<lambda>_. 0)"
  by (simp add: libraries_ok_def naive_amk_ok naive_sat_ok mono_def)

lemma example_client:
  assumes "var \<in> {1, 2, 3}" "lz \<in> {1, 2}"
  shows "\<exists>i s1. SetAgents 2 example_instance = Some i \<and> prepared i 2 \<and> same_map example_instance i \<and> goals_fit lz i 2 \<and>
    new_MAPFSAT_SAT var 2 1 lz 1 1 [] blank_solver = Some s1 \<and> solution i 2 1 2 12 example_paths \<and>
    0 \<le> 12 - lower_bound i 2 2"
proof -
  obtain i where i: "SetAgents 2 example_instance = Some i" "prepared i 2" "same_map example_instance i"
    "goals_fit lz i 2" using example_prepared by blast
  have sol: "solution i 2 1 2 12 example_paths"
    using example_solution solution_same_map [OF i(3)] by simp
  have "0 \<le> 12 - lower_bound i 2 2" using solution_lower_bound [OF i(2) _ sol] by simp
  then show ?thesis using i sol assms by (auto simp: new_MAPFSAT_SAT_def encoding_args_ok_def)
qed

text \<open>A state in which the first round of the example starts, one cost above the last that fails.\<close>

lemma example_round:
  assumes "var \<in> {1, 2, 3}" "lz \<in> {1, 2}"
  shows "\<exists>s. sat_start s \<and> variables s = var \<and> lazy_const s = lz \<and> movement s = 1 \<and> agents s = 2 \<and> cost_function s = 2 \<and> has_solution s (cost_bound s)"
proof -
  obtain i s1 where i: "SetAgents 2 example_instance = Some i" "prepared i 2" "goals_fit lz i 2"
    and s1: "new_MAPFSAT_SAT var 2 1 lz 1 1 [] blank_solver = Some s1" and sol: "solution i 2 1 2 12 example_paths"
    and k: "0 \<le> 12 - lower_bound i 2 2" using example_client [OF assms] by blast
  let ?s = "SetData i (new_logger i [] 0 []) 300 [] True False False s1"
  let ?t = "fst (solve_start 2 (12 - lower_bound i 2 2) True ?s)"
  note new = new_sat_client [OF s1, of i "new_logger i [] 0 []" 300 "[]" True False]
  have "sat.ready (\<lambda>_. 0) naive_amk naive_sat ?t"
    using i(2,3) k new naive_libraries_ok by (intro solve_start_ready) simp_all
  then have "sat_start (sat.opened (\<lambda>_. 0) ?t)" by (simp add: sat.ready_def sat_accepts_def)
  moreover have "variables ?t = var" using s1 by (auto simp: solve_start_def SetData_def new_MAPFSAT_SAT_def split: if_splits)
  moreover have "has_solution ?t (cost_bound ?t)"
    using sol start_problem(4) [OF refl, of 2 "12 - lower_bound i 2 2" True ?s "12 - lower_bound i 2 2"] new
    by (auto simp: sat.solvable_at_def solve_start_def)
  ultimately show ?thesis
    using new by (intro exI [of _ "sat.opened (\<lambda>_. 0) ?t"])
      (auto simp: sat.opened_eq open_round_def CreateSolver_def Let_def solve_start_def has_solution_def cost_bound_def split: solver_class.splits)
qed

lemma CreateFormula_in_time:
  assumes "sat_start s" "amk_ok enc" "CreateFormula_SAT enc (\<lambda>_. 0) 0 s = (l, t)"
  shows "l \<noteq> -1"
proof -
  have "\<not> timed_out (\<lambda>_. 0) 0 s t" by (simp add: timed_out_def millis_def)
  then show ?thesis using CreateFormula_formula(2) [OF assms(1,3)] formula_of_encodes(2) [OF assms(1,2)] by auto
qed


text \<open>The run on the example files.\<close>

definition ex_options :: enc_options where
  "ex_options = \<lparr>o_cost = 2, o_moves = 1, o_var = 2, o_lazy = 2, o_dupli = 1, o_solver = 1\<rparr>"

abbreviation ex_instance :: instance_t where
  "ex_instance \<equiv> run_instance ''s.scen'' ''m.map'' ex_rows ex_agents"

definition naive_dispatch :: solve_call where
  "naive_dispatch = Solve_dispatch naive_amk naive_sat (\<lambda>_ _ _ _. (0, None)) (\<lambda>_. 0)"

lemma ex_run:
  "parse_encoding ''soc_parallel_pass_lazy_single'' = Some ex_options" "o_solver ex_options = 1"
  "goals_fit (o_lazy ex_options) ex_instance (length ex_agents)" "length ex_agents = 2"
  "solution ex_instance (length ex_agents) (o_moves ex_options) (o_cost ex_options) 12 example_paths"
proof -
  show "parse_encoding ''soc_parallel_pass_lazy_single'' = Some ex_options" by (simp add: ex_parse ex_options_def)
  show len: "length ex_agents = 2" by (simp add: ex_agents_def example_start_def example_goal_def)
  obtain i where i: "same_map example_instance i" "goals_fit 2 i 2" using example_prepared by blast
  have "goals_fit 2 ex_instance 2" using i(2) goals_fit_same_map [OF ex_same_map] goals_fit_same_map [OF i(1)] by simp
  then show "goals_fit (o_lazy ex_options) ex_instance (length ex_agents)" by (simp add: ex_options_def len)
  show "solution ex_instance (length ex_agents) (o_moves ex_options) (o_cost ex_options) 12 example_paths"
    using example_solution solution_same_map [OF ex_same_map] by (simp add: ex_options_def len)
qed (simp add: ex_options_def)

end
