(* ===== verification/Instance_Properties.thy ===== *)
theory Instance_Properties
  imports Example_Runs
begin

text \<open>
  What the instance object promises: the numbering of the map, the neighbours, the distances, the lower
  bounds, and loading from files. The witnesses are the instance of the library example and a map of
  two rows.
\<close>

section \<open>The map\<close>

text \<open>
  C33. Loading a map numbers its free cells in the order of the rows: the result is a well-formed grid,
  whose list of coordinates names the free cells of the input row by row, and looking up the coordinates
  of a number gives the number back.
\<close>

theorem LoadMapData_numbers_cells:
  assumes "map_vector_ok mv" "coord_list i = []"
  shows "wf_grid (LoadMapData mv i) \<and>
    coord_list (LoadMapData mv i) = map (\<lambda>(r, c). \<lparr>vx = r, vy = c\<rparr>)
      (filter (\<lambda>(r, c). mv ! r ! c \<noteq> -1) (List.product [0..<length mv] [0..<length (mv ! 0)])) \<and>
    (\<forall>k < number_of_vertices (LoadMapData mv i). map_at (LoadMapData mv i) (IDtoCoords (LoadMapData mv i) k) = int k)"
  using LoadMapData_wf [OF assms] LoadMapData_coords [OF assms] wf_gridD(7) [OF LoadMapData_wf [OF assms]]
  by (simp add: grid_cells_def IDtoCoords_def)

lemma LoadMapData_numbers_cells_witness:
  "wf_grid (LoadMapData example_map blank_instance) \<and>
   coord_list (LoadMapData example_map blank_instance) =
     [\<lparr>vx = 0, vy = 2\<rparr>, \<lparr>vx = 1, vy = 0\<rparr>, \<lparr>vx = 1, vy = 1\<rparr>, \<lparr>vx = 1, vy = 2\<rparr>, \<lparr>vx = 1, vy = 3\<rparr>]"
proof -
  have "map_vector_ok example_map" "coord_list blank_instance = []" by code_simp+
  from LoadMapData_numbers_cells [OF this] have "wf_grid (LoadMapData example_map blank_instance)" by simp
  moreover have "coord_list (LoadMapData example_map blank_instance) =
     [\<lparr>vx = 0, vy = 2\<rparr>, \<lparr>vx = 1, vy = 0\<rparr>, \<lparr>vx = 1, vy = 1\<rparr>, \<lparr>vx = 1, vy = 2\<rparr>, \<lparr>vx = 1, vy = 3\<rparr>]" by code_simp
  ultimately show ?thesis by simp
qed

text \<open>A grid for the witnesses.\<close>

lemma example_grid_ok: "wf_grid example_instance" "number_of_vertices example_instance = 5"
proof -
  obtain i where "prepared i 2" "same_map example_instance i" using example_prepared by blast
  then show "wf_grid example_instance" using same_map_queries(6) [of example_instance i] by (simp add: prepared_def)
  show "number_of_vertices example_instance = 5" by (rule example_grid)
qed

text \<open>
  C34. The neighbours of a vertex in the four directions are exactly the free cells next to it in the
  map: one row up or down, or one column left or right.
\<close>

theorem neighbours_are_adjacent_cells:
  assumes "wf_grid i" "u < number_of_vertices i" "w < number_of_vertices i"
  shows "(\<exists>dir \<in> {1..<5}. HasNeighborID i u dir \<and> GetNeighbor i u dir = int w) \<longleftrightarrow>
    (let p = IDtoCoords i u; q = IDtoCoords i w in
     (vy p = vy q \<and> (vx q = vx p + 1 \<or> vx p = vx q + 1)) \<or> (vx p = vx q \<and> (vy q = vy p + 1 \<or> vy p = vy q + 1)))"
  using moves_iff_adjacent [OF assms] assms(2) by (simp add: moves_def move_rel_def adjacent_cells_def Let_def)

lemma neighbours_are_adjacent_cells_witness:
  "\<exists>dir \<in> {1..<5}. HasNeighborID example_instance 0 dir \<and> GetNeighbor example_instance 0 dir = int 3"
proof -
  have "IDtoCoords example_instance 0 = \<lparr>vx = 0, vy = 2\<rparr>" "IDtoCoords example_instance 3 = \<lparr>vx = 1, vy = 2\<rparr>"
    by (simp_all add: IDtoCoords_def example_grid(2))
  then show ?thesis using neighbours_are_adjacent_cells [OF example_grid_ok(1), of 0 3] example_grid_ok(2) by simp
qed

text \<open>
  C35. Going to a neighbour and back: from the neighbour in a direction there is a neighbour in the
  opposite direction, and it is the vertex itself.
\<close>

theorem OppositeDir_leads_back:
  assumes "wf_grid i" "v < number_of_vertices i" "dir < 5" "HasNeighborID i v dir"
  shows "0 \<le> OppositeDir dir \<and> OppositeDir dir < 5 \<and>
    0 \<le> GetNeighbor i v dir \<and> nat (GetNeighbor i v dir) < number_of_vertices i \<and>
    HasNeighborID i (nat (GetNeighbor i v dir)) (nat (OppositeDir dir)) \<and>
    GetNeighbor i (nat (GetNeighbor i v dir)) (nat (OppositeDir dir)) = int v"
  using GetNeighbor_back [OF assms] GetNeighbor_vertex [OF assms] grid.opp_dir [OF assms(3)] by auto

lemma OppositeDir_leads_back_witness:
  "HasNeighborID example_instance 0 2 \<and> GetNeighbor example_instance (nat (GetNeighbor example_instance 0 2)) (nat (OppositeDir 2)) = int 0"
proof -
  have h: "HasNeighborID example_instance 0 2" by code_simp
  show ?thesis using OppositeDir_leads_back [OF example_grid_ok(1) _ _ h] example_grid_ok(2) h by simp
qed

section \<open>Distances and lower bounds\<close>

text \<open>
  C23. Breadth-first search ends and computes the distances: started on a free cell with a table full of
  -1 it fills, for every vertex, the number of moves of a shortest walk from that cell, and leaves -1
  where no walk leads.
\<close>

theorem BFS_computes_distances:
  assumes "wf_grid i" "free_cell i v"
  shows "\<exists>len. BFS i (replicate (number_of_vertices i) (-1)) v = Some len \<and> length len = number_of_vertices i \<and>
    (\<forall>k < number_of_vertices i.
       if (vid i v, k) \<in> (moves i)\<^sup>*
       then \<exists>n. len ! k = int n \<and> (vid i v, k) \<in> moves i ^^ n \<and> (\<forall>m. (vid i v, k) \<in> moves i ^^ m \<longrightarrow> n \<le> m)
       else len ! k = -1)"
proof -
  obtain len where len: "BFS i (replicate (number_of_vertices i) (-1)) v = Some len" "length len = number_of_vertices i"
    "\<forall>k < number_of_vertices i. is_dist (moves i) (vid i v) k (len ! k)"
    using BFS_correct [OF assms] by blast
  have "if (vid i v, k) \<in> (moves i)\<^sup>*
       then \<exists>n. len ! k = int n \<and> (vid i v, k) \<in> moves i ^^ n \<and> (\<forall>m. (vid i v, k) \<in> moves i ^^ m \<longrightarrow> n \<le> m)
       else len ! k = -1" if "k < number_of_vertices i" for k
    using len(3) that relpow_imp_rtrancl [of "(vid i v, k)"] unfolding is_dist_def by auto
  then show ?thesis using len(1,2) by blast
qed

lemma BFS_computes_distances_witness:
  "\<exists>len. BFS example_instance (replicate (number_of_vertices example_instance) (-1)) \<lparr>vx = 1, vy = 0\<rparr> = Some len \<and> length len = 5"
proof -
  have "free_cell example_instance \<lparr>vx = 1, vy = 0\<rparr>" by code_simp
  from BFS_computes_distances [OF example_grid_ok(1) this] show ?thesis using example_grid_ok(2) by auto
qed

text \<open>
  C26. \<open>SetAgents\<close> keeps the instance prepared: called with a number of agents that the instance has, it
  returns an instance with the same map, whose tables hold the distances of all these agents, their
  shortest paths and the partial lower bounds.
\<close>

theorem SetAgents_keeps_prepared:
  assumes "prepared i (last_number_of_agents i)" "n \<le> length (inst_agents i)"
  shows "\<exists>i'. SetAgents n i = Some i' \<and> same_map i i' \<and> last_number_of_agents i' = n \<and>
    prepared i' (last_number_of_agents i')"
  using SetAgents_prepared [OF assms] by auto

lemma SetAgents_keeps_prepared_witness:
  "\<exists>i'. SetAgents 2 example_instance = Some i' \<and> prepared i' (last_number_of_agents i')"
proof -
  have "prepared example_instance (last_number_of_agents example_instance)" "2 \<le> length (inst_agents example_instance)"
    using make_instance_prepared [OF example_input_ok, of "[]" "[]"] by (simp_all add: example_instance_def example_start_def)
  from SetAgents_keeps_prepared [OF this] show ?thesis by blast
qed



text \<open>
  C24. No plan is cheaper than the lower bound: walks from the starts to the goals without collisions
  cost at least \<open>GetMksLB\<close> by makespan and at least \<open>GetSocLB\<close> by sum of costs.
\<close>

theorem lower_bounds_hold:
  assumes "prepared i n" "cf = 1 \<Longrightarrow> 0 < n" "solution i n mv cf k p"
  shows "(if cf = 1 then GetMksLB i n else GetSocLB i n) \<le> k"
  using solution_lower_bound [OF assms] by (simp add: lower_bound_def)

lemma lower_bounds_hold_witness:
  "\<exists>i. SetAgents 2 example_instance = Some i \<and> GetSocLB i 2 \<le> 12"
proof -
  obtain i where i: "SetAgents 2 example_instance = Some i" "prepared i 2" "same_map example_instance i" using example_prepared by blast
  have "solution i 2 1 2 12 example_paths" using example_solution solution_same_map [OF i(3)] by simp
  from lower_bounds_hold [OF i(2) _ this] show ?thesis using i(1) by auto
qed


text \<open>
  C27. Working in increments is the same as working at once: \<open>SetAgents\<close> for a smaller number of agents
  and then for a larger one gives the instance that one call for the larger number gives, so a run that
  adds agents in steps solves the same instances as separate runs.
\<close>

theorem SetAgents_in_steps:
  assumes "last_number_of_agents i \<le> m" "m \<le> n"
  shows "Option.bind (SetAgents m i) (SetAgents n) = SetAgents n i"
  by (rule SetAgents_incremental [OF assms])

lemma SetAgents_in_steps_witness:
  "Option.bind (SetAgents 1 example_instance) (SetAgents 2) = SetAgents 2 example_instance"
proof -
  have "last_number_of_agents example_instance = 0" by (simp add: example_instance_def make_instance_def)
  then show ?thesis using SetAgents_in_steps [of example_instance 1 2] by simp
qed

section \<open>Loading from files\<close>



text \<open>
  C31. Loading gives back what the files describe: for a map and a scenario written in the format of the
  benchmarks, with any words in the fields that are not read, \<open>_MAPFSAT_Instance\<close> builds the instance
  that the constructor from data builds for the same map, starts and goals.
\<close>

theorem load_instance_roundtrip:
  assumes "files path = Some (scen_text version other m ags)" "files (dir @ ''/'' @ m) = Some (map_text kind rows)"
    and "newline \<notin> set version" "newline \<notin> set kind" "others_ok other" "word_ok m" "map_rows_ok rows"
      "ags \<noteq> []" "\<forall>p \<in> set ags. pos_ok p"
  shows "load_instance files dir path = Inr (make_instance (map_cells rows) (map fst ags) (map snd ags) path m)"
  by (rule load_instance_text [OF assms])

lemma load_instance_roundtrip_witness:
  "load_instance ex_files ''d'' ''s.scen'' =
     Inr (make_instance (map_cells ex_rows) (map fst ex_agents) (map snd ex_agents) ''s.scen'' ''m.map'')"
proof -
  have f: "ex_files ''s.scen'' = Some (scen_text ''version 1'' [''0'', ''4'', ''2'', ''1''] ''m.map'' ex_agents)"
    "ex_files (''d'' @ ''/'' @ ''m.map'') = Some (map_text ''type octile'' ex_rows)"
    by (simp_all add: ex_files_def)
  have "ex_agents \<noteq> []" by (simp add: ex_agents_def example_start_def example_goal_def)
  then show ?thesis by (intro load_instance_roundtrip [OF f] ex_texts ex_rows_ok)
qed

lemma parse_agent_out_of_range:
  assumes "others_ok other" "word_ok m" "\<not> pos_ok p"
  shows "parse_agent (split_line tab (scen_line other m p)) = Inl Out_Of_Range"
proof -
  obtain sx sy gx gy where p: "p = ((sx, sy), (gx, gy))" by (metis surj_pair)
  have "stoi (show_int v) = (if in_int_range v then Inr v else Inl Out_Of_Range)" for v
    by (simp add: stoi_def read_show_int)
  then show ?thesis
    using assms(3) unfolding p scen_line_fields(1) [OF assms(1,2)]
    by (auto simp: parse_agent_def parse_vertex_def pos_ok_def)
qed

lemma load_lines_out_of_range:
  assumes "others_ok other" "word_ok m" "\<not> pos_ok bad"
  shows "\<forall>p \<in> set good. pos_ok p \<Longrightarrow>
    load_lines files dir loaded (map (scen_line other m) (good @ bad # rest)) i = Inl Out_Of_Range"
  by (induction good arbitrary: loaded i)
    (simp_all add: parse_agent_line [OF assms(1,2)] parse_agent_out_of_range [OF assms] Let_def)

text \<open>
  C32. A coordinate that does not fit an \<open>int\<close> ends the loading with the exception of \<open>stoi\<close>: whatever
  agents come before the line and after it, no instance is built.
\<close>

theorem load_instance_out_of_range:
  assumes "files path = Some (scen_text version other m (good @ bad # rest))"
    and "newline \<notin> set version" "others_ok other" "word_ok m" "\<forall>p \<in> set good. pos_ok p" "\<not> pos_ok bad"
  shows "load_instance files dir path = Inl Out_Of_Range"
proof -
  have nl: "newline \<notin> set (scen_line other m q)" for q
    using scen_line_fields(2) [OF assms(3,4)] by (cases q) (metis surj_pair)
  have "split_line newline (scen_text version other m (good @ bad # rest)) = version # map (scen_line other m) (good @ bad # rest)"
    unfolding scen_text_def
  proof (rule split_terminated)
    fix w
    assume "w \<in> set (version # map (scen_line other m) (good @ bad # rest))"
    then have "w = version \<or> (\<exists>q. w = scen_line other m q)" by (auto simp del: split_paired_Ex)
    then show "newline \<notin> set w" using assms(2) nl by metis
  qed
  then show ?thesis
    using load_lines_out_of_range [OF assms(3,4,6,5)] assms(1) by (simp add: load_instance_def LoadAgents_def)
qed

lemma load_instance_out_of_range_witness:
  "load_instance [''s'' \<mapsto> scen_text ''v'' [''0'', ''4'', ''2'', ''1''] ''m.map'' [((0, 0), (1, 1)), ((0, 2 ^ 31), (1, 1))]] ''d'' ''s'' =
     Inl Out_Of_Range"
proof -
  have "newline \<notin> set ''v''" by code_simp
  moreover have "pos_ok ((0, 0), (1, 1))" "\<not> pos_ok ((0, 2 ^ 31), (1, 1))" by (simp_all add: pos_ok_def in_int_range_def)
  ultimately show ?thesis
    using load_instance_out_of_range [of _ "''s''" "''v''" "[''0'', ''4'', ''2'', ''1'']" "''m.map''" "[((0, 0), (1, 1))]" "((0, 2 ^ 31), (1, 1))" "[]"]
      ex_texts(3,4) by simp
qed

end
