(* ===== verification/Encoding_Properties.thy ===== *)
theory Encoding_Properties
  imports Example_Runs
begin

text \<open>
  What the parts of the encodings promise: the numbering of the variables, the windows, and the meaning of
  the clauses that each method adds. The properties are stated for the methods, with the clauses they append to the formula of the solver.
\<close>

section \<open>Variables\<close>

text \<open>
  C15. Creating the variables numbers them without collisions: from the first free number on, every
  agent, vertex and timestep in the window gets a number of its own, and so does every edge of the pass
  and of the shift encoding, all below the number that is returned; outside the windows there are none.
\<close>

theorem create_variables_tables:
  assumes "variables s \<in> {1, 2, 3}" "first_try s" "1 \<le> l" "create_variables n l s = (l', t)"
  shows "\<exists>mid. at_table t n l mid \<and> mid \<le> l' \<and> (variables s = 2 \<longrightarrow> pass_table t n mid l') \<and>
    (variables s = 3 \<longrightarrow> shift_table t n mid l')"
proof -
  let ?s = "snd (CreateAt l n s)" and ?m = "fst (CreateAt l n s)"
  have T: "at_table ?s n l ?m" by (rule CreateAt_table [OF assms(3)])
  have m: "1 \<le> ?m" using at_tableD(1,2) [OF T] by simp
  show ?thesis
  proof (cases "variables s = 1")
    case True
    then show ?thesis using T assms(2,4) by (intro exI [of _ ?m]) (simp add: create_variables_def case_prod_beta)
  next
    case False
    then consider (pass) "variables s = 2" "(l', t) = CreatePass ?m n ?s" | (shift) "variables s = 3" "(l', t) = CreateShift ?m n ?s"
      using assms(1,2,4) by (auto simp: create_variables_def case_prod_beta)
    then show ?thesis
    proof cases
      case pass
      have P: "pass_table t n ?m l'" using CreatePass_table [OF m, of n ?s] pass(2) by (metis fst_conv snd_conv)
      have "at_table t n l ?m" using T pass(2) by (simp add: CreatePass_eq at_table_edges)
      then show ?thesis using P pass(1) pass_tableD(2) [OF P] by (intro exI [of _ ?m]) simp
    next
      case shift
      have S: "shift_table t n ?m l'" using CreateShift_table [OF m, of n ?s] shift(2) by (metis fst_conv snd_conv)
      have "at_table t n l ?m" using T shift(2) by (simp add: CreateShift_eq at_table_edges)
      then show ?thesis using S shift(1) shift_tableD(2) [OF S] by (intro exI [of _ ?m]) simp
    qed
  qed
qed

text \<open>A state with tables for the witnesses: two agents of the example, two timesteps more than needed.\<close>

definition table_start :: solver where
  "table_start = (client 3 2 1 1 example_instance)\<lparr>agents := 2, vertices := 5, delta := 2, SAT_solver := Some []\<rparr>"

lemma create_variables_tables_witness:
  "\<exists>l t mid. create_variables 4 1 table_start = (l, t) \<and> at_table t 4 1 mid \<and> shift_table t 4 mid l"
proof -
  obtain l t where c: "create_variables 4 1 table_start = (l, t)" by fastforce
  have "variables table_start = 3" "first_try table_start" by (simp_all add: table_start_def client_def blank_solver_def)
  then show ?thesis using create_variables_tables [OF _ _ _ c] c by auto
qed

text \<open>
  C16. The windows lose no solution: in a state whose tables are built, a solution within the cost that
  is tried has a variable for the position of every agent at every timestep up to the last one.
\<close>

theorem solutions_stay_in_windows:
  assumes "enc_ready s lo hi" "solution (inst s) (agents s) (movement s) (cost_function s) (cost_bound s) p"
    and "a < agents s" "int t \<le> (if cost_function s = 1 then max_timestep s - 1 else SP_lengths (inst s) ! a + delta s)"
  shows "p a t < vertices s \<and> at_window s a (p a t) (int t)"
proof -
  have "settles s p" using solution_model(1) [OF assms(1) naive_amk_ok assms(2)] .
  moreover have "int t \<le> fin s a" using assms(4) by (simp add: cfg_fin_def cfg_of_def split: if_splits)
  ultimately show ?thesis using settles_window [OF assms(1) _ assms(3)] by blast
qed


lemma solutions_stay_in_windows_witness:
  "\<exists>s (p :: trajectories). has_solution s (cost_bound s) \<and> agents s = 2 \<and> p 0 0 < vertices s \<and> at_window s 0 (p 0 0) 0"
proof -
  obtain s where s: "sat_start s" "agents s = 2" "has_solution s (cost_bound s)" "variables s = 1"
    using example_round [of 1 1] by auto
  let ?t = "tables_of s"
  obtain lo hi where R: "enc_ready ?t lo hi" using formula_of_encodes(1) [OF s(1) naive_amk_ok] unfolding encodes_def by blast
  have h: "has_solution ?t (cost_bound ?t)" using s(3) by (simp add: has_solution_def)
  then obtain p where p: "solution (inst ?t) (agents ?t) (movement ?t) (cost_function ?t) (cost_bound ?t) p"
    unfolding has_solution_def by blast
  have "0 \<le> fin ?t 0" using ready_ends(7) [OF R, of 0] s(2) by simp
  then have "p 0 0 < vertices ?t \<and> at_window ?t 0 (p 0 0) 0"
    using solutions_stay_in_windows [OF R p, of 0 0] s(2) by (simp add: cfg_fin_def cfg_of_def split: if_splits)
  then have "has_solution ?t (cost_bound ?t) \<and> agents ?t = 2 \<and> p 0 0 < vertices ?t \<and> at_window ?t 0 (p 0 0) 0"
    using h s(2) by simp
  then show ?thesis by blast
qed

section \<open>Conflicts\<close>

text \<open>All three kinds of tables in one state, for the witnesses.\<close>

definition all_tables :: solver where
  "all_tables = (let (l1, s1) = CreateAt 1 4 table_start; (l2, s2) = CreatePass l1 4 s1 in snd (CreateShift l2 4 s2))"

lemma pass_table_shift:
  "pass_table (s\<lparr>shift := w, shift_times_start := y, shift_times_end := z, max_timestep := n\<rparr>) = pass_table s"
  by (intro ext) (simp add: pass_table_def PASS_def first_time_def last_time_def has_nb_def nb_def)

lemma all_tables_ok:
  "\<exists>m1 m2 m3. at_table all_tables 4 1 m1 \<and> pass_table all_tables 4 m1 m2 \<and> shift_table all_tables 4 m2 m3"
  "nb_ok all_tables" "class_of all_tables = MAPFSAT_SAT" "SAT_solver all_tables = Some []" "agents all_tables = 2"
  "wf_grid (inst all_tables)" "vertices all_tables = number_of_vertices (inst all_tables)"
proof -
  let ?s1 = "snd (CreateAt 1 4 table_start)" and ?m1 = "fst (CreateAt 1 4 table_start)"
  let ?s2 = "snd (CreatePass ?m1 4 ?s1)" and ?m2 = "fst (CreatePass ?m1 4 ?s1)"
  have s: "all_tables = snd (CreateShift ?m2 4 ?s2)" by (simp add: all_tables_def case_prod_beta)
  have T: "at_table ?s1 4 1 ?m1" by (rule CreateAt_table) simp
  have P: "pass_table ?s2 4 ?m1 ?m2" using at_tableD(1,2) [OF T] by (intro CreatePass_table) simp
  have S: "shift_table all_tables 4 ?m2 (fst (CreateShift ?m2 4 ?s2))"
    unfolding s using pass_tableD(1,2) [OF P] by (intro CreateShift_table) simp
  have "at_table ?s2 4 1 ?m1" using T by (simp add: CreatePass_eq at_table_edges)
  then have "at_table all_tables 4 1 ?m1" by (simp add: s CreateShift_eq at_table_edges)
  moreover have "pass_table all_tables 4 ?m1 ?m2" using P by (simp add: s CreateShift_eq pass_table_shift)
  ultimately show "\<exists>m1 m2 m3. at_table all_tables 4 1 m1 \<and> pass_table all_tables 4 m1 m2 \<and> shift_table all_tables 4 m2 m3"
    using S by blast
  obtain i where i: "SetAgents 2 example_instance = Some i" "prepared i 2" "same_map example_instance i" using example_prepared by blast
  have f: "inst all_tables = i" "vertices all_tables = number_of_vertices i"
    using i example_grid(3) unfolding s CreateShift_eq CreatePass_eq CreateAt_eq by (simp_all add: table_start_def client_def same_map_def)
  show "wf_grid (inst all_tables)" "vertices all_tables = number_of_vertices (inst all_tables)"
    using i(2) f by (simp_all add: prepared_def)
  show "nb_ok all_tables"
    using GetNeighbor_vertex [of i] i(2) unfolding nb_ok_def has_nb_def nb_def f by (fastforce simp: prepared_def)
  show "class_of all_tables = MAPFSAT_SAT" "SAT_solver all_tables = Some []" "agents all_tables = 2"
    unfolding s CreateShift_eq CreatePass_eq CreateAt_eq by (simp_all add: table_start_def client_def blank_solver_def)
qed

text \<open>
  C13. \<open>CreateConf_Vertex\<close> forbids exactly the vertex conflicts: an assignment satisfies the clauses that
  it appends if and only if it never puts two agents on the same vertex at the same time.
\<close>

theorem CreateConf_Vertex_meaning:
  assumes "at_table s n lo hi" "class_of s = MAPFSAT_SAT" "SAT_solver s = Some F"
  shows "\<exists>D. SAT_solver (CreateConf_Vertex s) = Some (F @ D) \<and>
    (\<forall>I. cnf_true I D \<longleftrightarrow>
      (\<forall>v < vertices s. \<forall>a < agents s. \<forall>b < agents s. a \<noteq> b \<longrightarrow> (\<forall>t. \<not> (occ s I a v t \<and> occ s I b v t))))"
proof -
  have "SAT_solver (CreateConf_Vertex s) = Some (F @ conf_vertex_clauses s)"
    using assms(2,3) by (simp add: CreateConf_Vertex_def emit_SAT_solver)
  moreover have "cnf_true I (conf_vertex_clauses s) \<longleftrightarrow>
      (\<forall>v < vertices s. \<forall>a < agents s. \<forall>b < agents s. a \<noteq> b \<longrightarrow> (\<forall>t. \<not> (occ s I a v t \<and> occ s I b v t)))" (is "_ \<longleftrightarrow> ?r") for I
  proof
    assume "cnf_true I (conf_vertex_clauses s)"
    then have *: "\<not> (occ s I a v t \<and> occ s I b v t)" if "v < vertices s" "a < b" "b < agents s" for v a b t
    proof -
      have "a < agents s" "b \<in> {a + 1..<agents s}" using that by auto
      then show ?thesis using \<open>cnf_true I (conf_vertex_clauses s)\<close> that(1) unfolding conf_vertex_sem [OF assms(1)] by blast
    qed
    show ?r using * by (metis linorder_neq_iff order.strict_trans)
  qed (simp add: conf_vertex_sem [OF assms(1)])
  ultimately show ?thesis by blast
qed

lemma CreateConf_Vertex_meaning_witness:
  "\<exists>D. SAT_solver (CreateConf_Vertex all_tables) = Some D \<and>
     (\<forall>I. cnf_true I D \<longleftrightarrow> (\<forall>v < vertices all_tables. \<forall>a < 2. \<forall>b < 2. a \<noteq> b \<longrightarrow>
        (\<forall>t. \<not> (occ all_tables I a v t \<and> occ all_tables I b v t))))"
proof -
  obtain m where "at_table all_tables 4 1 m" using all_tables_ok(1) by blast
  from CreateConf_Vertex_meaning [OF this all_tables_ok(3,4)] show ?thesis by (simp add: all_tables_ok(5))
qed







section \<open>Duplicates and costs\<close>

lemma example_tables:
  "\<exists>s lo hi. enc_ready s lo hi \<and> cost_function s = 2 \<and> class_of s = MAPFSAT_SAT \<and> SAT_solver s = Some [] \<and> agents s = 2"
proof -
  obtain s where s: "sat_start s" "agents s = 2" "cost_function s = 2" using example_round [of 1 1] by auto
  let ?t = "(tables_of s)\<lparr>SAT_solver := Some []\<rparr>"
  have "same_tables ?t (tables_of s)" by (simp add: same_tables_def)
  then have "encodes ?t (snd (formula_of naive_amk s)) (fst (formula_of naive_amk s))"
    using formula_of_encodes(1) [OF s(1) naive_amk_ok] same_encodes by simp
  then obtain lo hi where "enc_ready ?t lo hi" unfolding encodes_def by blast
  moreover have "class_of s = MAPFSAT_SAT" using s(1) by (simp add: sat_start_def sat_setting_def sat_mode_def)
  then have "class_of ?t = MAPFSAT_SAT" by (simp add: tables_of_def)
  ultimately show ?thesis using s(2,3) by (intro exI [of _ ?t] exI [of _ lo] exI [of _ hi]) simp
qed

text \<open>
  C10. \<open>CreateMove_NoDuplicates\<close> says that no agent is at two vertices at once: every model of the clauses
  it appends has at most one vertex per agent and timestep, and every assignment of the earlier
  variables with this property extends to a model, by values for the variables of the cardinality
  encoder, which start at the next free number.
\<close>

theorem CreateMove_NoDuplicates_meaning:
  assumes "at_table s n lo hi" "amk_ok enc" "hi \<le> lit" "class_of s = MAPFSAT_SAT" "SAT_solver s = Some F"
    and "CreateMove_NoDuplicates enc lit s = (lit', t)"
  defines "single \<equiv> \<lambda>I. \<forall>a < agents s. \<forall>k \<in> {0..<max_timestep s}. \<forall>v < vertices s. \<forall>u < vertices s.
      occ s I a v k \<longrightarrow> occ s I a u k \<longrightarrow> v = u"
  shows "\<exists>D. SAT_solver t = Some (F @ D) \<and> lit \<le> lit' \<and> (\<forall>I. cnf_true I D \<longrightarrow> single I) \<and>
    (\<forall>I. single I \<longrightarrow> (\<exists>J. (\<forall>x < lit. J x = I x) \<and> cnf_true J D))"
proof -
  let ?D = "fst (no_duplicates enc lit s)"
  have t: "t = emit Dupli ?D s" "lit' = snd (no_duplicates enc lit s)"
    using assms(6) by (auto simp: CreateMove_NoDuplicates_def case_prod_beta)
  have "gadget ?D lit lit' single"
    using no_duplicates_gadget [OF assms(1-3)] t(2) by (simp add: single_def single_at_def)
  from gadgetD(1) [OF this] gadgetD(3,4) [OF this] show ?thesis
    using t emit_SAT_solver [OF assms(4)] assms(5) by (intro exI [of _ ?D]) simp
qed

lemma CreateMove_NoDuplicates_meaning_witness:
  "\<exists>s lit t D. t = snd (CreateMove_NoDuplicates naive_amk lit s) \<and> agents s = 2 \<and> SAT_solver t = Some D \<and>
     (\<forall>I. cnf_true I D \<longrightarrow> (\<forall>v < vertices s. \<forall>u < vertices s. 0 < max_timestep s \<longrightarrow> occ s I 0 v 0 \<longrightarrow> occ s I 0 u 0 \<longrightarrow> v = u))"
proof -
  obtain s lo hi where s: "enc_ready s lo hi" "class_of s = MAPFSAT_SAT" "SAT_solver s = Some []" "agents s = 2"
    using example_tables by blast
  obtain l t where c: "CreateMove_NoDuplicates naive_amk hi s = (l, t)" by fastforce
  obtain D where D: "SAT_solver t = Some ([] @ D)" "\<forall>I. cnf_true I D \<longrightarrow> (\<forall>a < agents s. \<forall>k \<in> {0..<max_timestep s}.
      \<forall>v < vertices s. \<forall>u < vertices s. occ s I a v k \<longrightarrow> occ s I a u k \<longrightarrow> v = u)"
    using CreateMove_NoDuplicates_meaning [OF enc_readyD(2) [OF s(1)] naive_amk_ok order_refl s(2,3) c] by blast
  have "v = u" if "cnf_true I D" "v < vertices s" "u < vertices s" "0 < max_timestep s" "occ s I 0 v 0" "occ s I 0 u 0" for I v u
    using D(2) [rule_format, of I 0 0 v u] that s(4) by simp
  then have "SAT_solver t = Some D \<and> (\<forall>I. cnf_true I D \<longrightarrow> (\<forall>v < vertices s. \<forall>u < vertices s.
      0 < max_timestep s \<longrightarrow> occ s I 0 v 0 \<longrightarrow> occ s I 0 u 0 \<longrightarrow> v = u))" using D(1) by simp
  then show ?thesis using c s(4) by (metis snd_conv)
qed

text \<open>
  C11. The two methods that limit the sum of costs: a model of the clauses of
  \<open>CreateConst_LimitSoc\<close> or \<open>CreateConst_LimitSoc_AllAt\<close> lets every agent be late by a number of
  timesteps, \<open>delta\<close> in total at most, after which it is at its goal, in the first method, or nowhere
  else, in the second; and every assignment of the earlier variables with this property extends to a
  model.
\<close>

theorem CreateConst_LimitSoc_meaning:
  assumes "at_table s n lo hi" "goal_delay s n" "0 \<le> delta s" "amk_ok enc" "hi \<le> lit"
    and "class_of s = MAPFSAT_SAT" "SAT_solver s = Some F"
    and "(meth, on_time) = (CreateConst_LimitSoc, at_goal_by s) \<or> (meth, on_time) = (CreateConst_LimitSoc_AllAt, not_elsewhere_by s)"
    and "meth enc lit s = (lit', t)"
  defines "in_total \<equiv> \<lambda>I. \<exists>late. (\<forall>a < agents s. late a \<le> nat (delta s)) \<and> (\<Sum>a<agents s. late a) \<le> nat (delta s) \<and>
      (\<forall>a < agents s. \<forall>d. late a \<le> d \<longrightarrow> d < nat (delta s) \<longrightarrow> on_time a d I)"
  shows "\<exists>D. SAT_solver t = Some (F @ D) \<and> lit \<le> lit' \<and> (\<forall>I. cnf_true I D \<longrightarrow> in_total I) \<and>
    (\<forall>I. in_total I \<longrightarrow> (\<exists>J. (\<forall>x < lit. J x = I x) \<and> cnf_true J D))"
proof -
  have hi: "1 \<le> hi" using at_tableD(1,2) [OF assms(1)] by simp
  note late = limit_soc_step_late [OF assms(1,2)] limit_soc_all_at_step_late [OF assms(1-3)]
  note gadgets = limit_soc_gadget [OF late(1) assms(4,5) hi assms(3)] limit_soc_gadget [OF late(2) assms(4,5) hi assms(3)]
  have w: "within_delay s on_time = in_total" by (intro ext) (simp add: within_delay_def in_total_def)
  obtain D where D: "gadget D lit lit' (within_delay s on_time)" "t = emit Soc D s"
    using assms(8,9) gadgets by (auto simp: CreateConst_LimitSoc_def CreateConst_LimitSoc_AllAt_def case_prod_beta)
  then show ?thesis
    using gadgetD(1,3,4) [OF D(1)] emit_SAT_solver [OF assms(6)] assms(7) unfolding w by (intro exI [of _ D]) simp
qed

lemma CreateConst_LimitSoc_meaning_witness:
  "\<exists>s lit t D. t = snd (CreateConst_LimitSoc naive_amk lit s) \<and> agents s = 2 \<and> SAT_solver t = Some D \<and>
     (\<forall>I. cnf_true I D \<longrightarrow> (\<exists>late. (\<Sum>a<2. late a) \<le> nat (delta s) \<and>
        (\<forall>a < 2. \<forall>d. late a \<le> d \<longrightarrow> d < nat (delta s) \<longrightarrow> at_goal_by s a d I)))"
proof -
  obtain s lo hi where s: "enc_ready s lo hi" "class_of s = MAPFSAT_SAT" "SAT_solver s = Some []" "agents s = 2" "cost_function s = 2"
    using example_tables by blast
  obtain l t where c: "CreateConst_LimitSoc naive_amk hi s = (l, t)" by fastforce
  note g = ready_goal_delay [OF s(1,5)]
  obtain D where "SAT_solver t = Some ([] @ D)" "\<forall>I. cnf_true I D \<longrightarrow>
      (\<exists>late. (\<forall>a < agents s. late a \<le> nat (delta s)) \<and> (\<Sum>a<agents s. late a) \<le> nat (delta s) \<and>
      (\<forall>a < agents s. \<forall>d. late a \<le> d \<longrightarrow> d < nat (delta s) \<longrightarrow> at_goal_by s a d I))"
    using CreateConst_LimitSoc_meaning [where meth = CreateConst_LimitSoc and on_time = "at_goal_by s",
        OF enc_readyD(2) [OF s(1)] g enc_readyD(6) [OF s(1)] naive_amk_ok order_refl s(2,3) disjI1 [OF refl] c] by blast
  then have "SAT_solver t = Some D \<and> (\<forall>I. cnf_true I D \<longrightarrow> (\<exists>late. (\<Sum>a<2. late a) \<le> nat (delta s) \<and>
        (\<forall>a < 2. \<forall>d. late a \<le> d \<longrightarrow> d < nat (delta s) \<longrightarrow> at_goal_by s a d I)))" using s(4) by (metis append_Nil)
  then show ?thesis using c s(4) by (metis snd_conv)
qed

end
