(* ===== verification/Plan_Properties.thy ===== *)
theory Plan_Properties
  imports Example_Runs
begin

text \<open>
  What the functions on plans promise, and how the solver thread waits for the answer.
\<close>

section \<open>Plans\<close>

text \<open>A plan of two agents that collide: they swap at the first step.\<close>

definition swap_plan :: solver where
  "swap_plan = (client 1 2 1 2 example_instance)\<lparr>agents := 2, plan := [[1, 2], [2, 1]]\<rparr>"

definition swap_walks :: trajectories where
  "swap_walks a t = (if (a = 0) = (t = 0) then 1 else 2)"

lemma swap_plan_rows: "goal_id (inst swap_plan) 0 = 2" "goal_id (inst swap_plan) 1 = 1" "plan swap_plan = [[1, 2], [2, 1]]"
  "movement swap_plan = 1" "agents swap_plan = 2"
  by code_simp+

lemma swap_plan_lists: "length (plan swap_plan) = agents swap_plan"
  "\<forall>a < agents swap_plan. plan swap_plan ! a = map (\<lambda>t. int (swap_walks a t)) [0..<2]"
  by (simp_all add: swap_plan_rows less_suc_2 All_less_Suc swap_walks_def upt_rec)

lemma swap_plan_follows: "plan_follows (inst swap_plan) (agents swap_plan) (plan swap_plan) swap_walks"
proof -
  have "swap_walks a t = goal_id (inst swap_plan) a" if "a < 2" "2 \<le> t + 1" for a t
    using that swap_plan_rows(1,2) by (auto simp: less_suc_2 swap_walks_def)
  then show ?thesis
    unfolding plan_follows_def using swap_plan_lists by (intro conjI exI [of _ "2 :: nat"]) (simp_all add: swap_plan_rows(5))
qed

text \<open>
  C17. \<open>VerifyPlan\<close> is exact: for a plan that lists the walks of the agents until all of them rest at
  their goals it reports nothing exactly when the walks never collide, at any timestep, under the rules
  of the solver's movement.
\<close>

theorem VerifyPlan_detects_collisions:
  assumes "plan_follows (inst s) (agents s) (plan s) p" "movement s = 1 \<or> movement s = 2"
  shows "VerifyPlan s = [] \<longleftrightarrow>
    (\<forall>a < agents s. \<forall>b < agents s. a \<noteq> b \<longrightarrow> (\<forall>t. p a t \<noteq> p b t \<and>
       (movement s = 1 \<longrightarrow> \<not> (p a t = p b (t + 1) \<and> p a (t + 1) = p b t)) \<and>
       (movement s = 2 \<longrightarrow> p a (t + 1) \<noteq> p b t)))"
  using VerifyPlan_silent_iff [OF assms] by (simp add: collision_free_def)

lemma VerifyPlan_detects_collisions_witness:
  "VerifyPlan swap_plan = [SwapReport 0 1 0 1 2] \<and>
   \<not> (\<forall>a < 2. \<forall>b < 2. a \<noteq> b \<longrightarrow> (\<forall>t. swap_walks a t \<noteq> swap_walks b t \<and>
     \<not> (swap_walks a t = swap_walks b (t + 1) \<and> swap_walks a (t + 1) = swap_walks b t)))"
proof -
  have run: "VerifyPlan swap_plan = [SwapReport 0 1 0 1 2]" by code_simp
  have "movement swap_plan = 1 \<or> movement swap_plan = 2" using swap_plan_rows(4) by simp
  from VerifyPlan_detects_collisions [OF swap_plan_follows this] run show ?thesis
    by (simp add: swap_plan_rows(4,5))
qed

text \<open>
  C18. \<open>GenerateConflicts\<close> collects all conflicts of a plan and no others: for a plan with a row of \<open>M\<close>
  positions for every agent, the vertex conflicts are the pairs of agents at the same vertex, the swap
  conflicts the pairs that exchange their vertices in a step, and, for pebble movement, the pebble
  conflicts the agents that enter a vertex which another agent held one timestep before. The flag is
  raised exactly when one is found.
\<close>

theorem GenerateConflicts_collects:
  assumes "length (plan s) = agents s" "\<forall>a < agents s. plan s ! a = map (\<lambda>t. int (p a t)) [0..<M]" "GenerateConflicts s = u"
  shows "(\<forall>a b v t. (a, b, v, t) \<in> set (vertex_conflicts u) \<longleftrightarrow>
      a < b \<and> b < agents s \<and> (\<exists>k < M. t = int k \<and> p a k = v \<and> p b k = v)) \<and>
    (\<forall>a b v w t. (a, b, v, w, t) \<in> set (swap_conflicts u) \<longleftrightarrow>
      a < b \<and> b < agents s \<and> v \<noteq> w \<and> (\<exists>k. k + 1 < M \<and> t = int k \<and> p a k = v \<and> p b k = w \<and> p a (k + 1) = w \<and> p b (k + 1) = v)) \<and>
    (\<forall>a b v w t. (a, b, v, w, t) \<in> set (pebble_conflicts u) \<longleftrightarrow>
      movement s = 2 \<and> a \<noteq> b \<and> a < agents s \<and> b < agents s \<and> v \<noteq> w \<and>
      (\<exists>k. k + 1 < M \<and> t = int k + 1 \<and> p a k = v \<and> p a (k + 1) = w \<and> p b k = w)) \<and>
    (conflicts_present u \<longleftrightarrow> conflicts_present s \<or> vertex_conflicts u \<noteq> [] \<or> swap_conflicts u \<noteq> [] \<or> pebble_conflicts u \<noteq> [])"
proof -
  have "lists (agents s) M (plan s) p" using assms(1,2) by (simp add: lists_def)
  then have C: "collected u M p" using GenerateConflicts_collected assms(3) by blast
  have f: "agents u = agents s" "movement u = movement s" using assms(3) by (auto simp: GenerateConflicts_eq)
  have "(a, b, v, t) \<in> set (vertex_conflicts u) \<longleftrightarrow>
      a < b \<and> b < agents s \<and> (\<exists>k < M. t = int k \<and> p a k = v \<and> p b k = v)" for a b v t
    unfolding collectedD(1) [OF C] f vertex_at_def by metis
  moreover have "(a, b, v, w, t) \<in> set (swap_conflicts u) \<longleftrightarrow>
      a < b \<and> b < agents s \<and> v \<noteq> w \<and> (\<exists>k. k + 1 < M \<and> t = int k \<and> p a k = v \<and> p b k = w \<and> p a (k + 1) = w \<and> p b (k + 1) = v)" for a b v w t
    unfolding collectedD(2) [OF C] f swap_at_def by metis
  moreover have "(a, b, v, w, t) \<in> set (pebble_conflicts u) \<longleftrightarrow>
      movement s = 2 \<and> a \<noteq> b \<and> a < agents s \<and> b < agents s \<and> v \<noteq> w \<and>
      (\<exists>k. k + 1 < M \<and> t = int k + 1 \<and> p a k = v \<and> p a (k + 1) = w \<and> p b k = w)" for a b v w t
    unfolding collectedD(3) [OF C] f enter_at_def by metis
  moreover have "conflicts_present u \<longleftrightarrow> conflicts_present s \<or> vertex_conflicts u \<noteq> [] \<or> swap_conflicts u \<noteq> [] \<or> pebble_conflicts u \<noteq> []"
    using assms(3) [symmetric] by (auto simp: GenerateConflicts_eq found_any_def)
  ultimately show ?thesis by simp
qed

lemma GenerateConflicts_collects_witness:
  "swap_conflicts (GenerateConflicts swap_plan) = [(0, 1, 1, 2, 0)] \<and> conflicts_present (GenerateConflicts swap_plan) \<and>
   (\<forall>a b v w t. (a, b, v, w, t) \<in> set (swap_conflicts (GenerateConflicts swap_plan)) \<longleftrightarrow>
      a < b \<and> b < 2 \<and> v \<noteq> w \<and> (\<exists>k. k + 1 < 2 \<and> t = int k \<and> swap_walks a k = v \<and> swap_walks b k = w \<and>
        swap_walks a (k + 1) = w \<and> swap_walks b (k + 1) = v))"
proof -
  have run: "swap_conflicts (GenerateConflicts swap_plan) = [(0, 1, 1, 2, 0)]" by code_simp
  from GenerateConflicts_collects [OF swap_plan_lists refl] show ?thesis using run by (simp add: swap_plan_rows(5))
qed

lemma thread_attained:
  assumes "\<And>k m. k \<in> set ks \<Longrightarrow> snd (f k m) = m \<or> Q k (snd (f k m))"
  shows "snd (thread f ks m) = m \<or> (\<exists>k \<in> set ks. Q k (snd (thread f ks m)))"
  using assms
proof (induction ks arbitrary: m)
  case (Cons k ks)
  have "snd (thread f ks (snd (f k m))) = snd (f k m) \<or> (\<exists>k' \<in> set ks. Q k' (snd (thread f ks (snd (f k m)))))"
    using Cons.prems by (intro Cons.IH) simp
  then show ?case using Cons.prems [of k m] by (auto simp: snd_thread_Cons)
qed simp

text \<open>
  C19. \<open>NormalizePlan\<close> on the rows that are read off a model, all of length \<open>N\<close> and with -1 only where the
  agent has no further moves: it replaces each -1 by the goal and cuts all rows to the same length,
  which it returns. From the last position of the rows on every agent is at its goal, so nothing of the
  plan is lost, and the length is the least for which this is so.
\<close>

theorem NormalizePlan_cuts:
  assumes "1 \<le> N" "\<forall>a < length (plan s). length (plan s ! a) = N \<and> (\<forall>v \<in> set (plan s ! a). -1 \<le> v)"
    and "\<forall>a < length (plan s). trailing (int (goal_id (inst s) a)) (plan s ! a)"
    and "\<forall>a < length (plan s). settled_at (int (goal_id (inst s) a)) (plan s ! a) (N - 1) = int (goal_id (inst s) a)"
    and "NormalizePlan s = (M, u)"
  defines "pos \<equiv> \<lambda>a t. settled_at (int (goal_id (inst s) a)) (plan s ! a) t"
  shows "1 \<le> M \<and> M \<le> N \<and> length (plan u) = length (plan s) \<and>
    (\<forall>a < length (plan s). plan u ! a = map (pos a) [0..<M] \<and> (\<forall>t \<in> {M - 1..<N}. pos a t = int (goal_id (inst s) a))) \<and>
    (1 < M \<longrightarrow> (\<exists>a < length (plan s). pos a (M - 2) \<noteq> int (goal_id (inst s) a)))"
proof -
  let ?p = "\<lambda>a t. if t < N then nat (pos a t) else goal_id (inst s) a"
  let ?f = "\<lambda>a m. normalize_row (int (goal_id (inst s) a)) (length (plan s ! a)) (plan s ! a) m"
  have val: "pos a t = int (?p a t)" if "a < length (plan s)" "t < N" for a t
  proof -
    have "-1 \<le> plan s ! a ! t" using assms(2) that by (metis nth_mem)
    then show ?thesis using that by (simp add: pos_def settled_at_def)
  qed
  have rest: "?p a t = goal_id (inst s) a" if "a < length (plan s)" "N \<le> t + 1" for a t
  proof (cases "t < N")
    case True
    then have "t = N - 1" using that(2) by simp
    then show ?thesis using assms(4) that(1) True by (simp add: pos_def)
  qed simp
  have M: "1 \<le> M" "M \<le> N" "length (plan u) = length (plan s)"
    and rows: "\<forall>a < length (plan s). plan u ! a = map (\<lambda>t. int (?p a t)) [0..<M] \<and> (\<forall>t. M \<le> t + 1 \<longrightarrow> ?p a t = goal_id (inst s) a)"
    using NormalizePlan_follows [where s = s and N = N and p = ?p] assms(1-3,5) val rest unfolding pos_def by auto
  have "plan u ! a = map (pos a) [0..<M]" if "a < length (plan s)" for a
    using rows that val [OF that] M(2) by simp
  moreover have "pos a t = int (goal_id (inst s) a)" if "a < length (plan s)" "t \<in> {M - 1..<N}" for a t
  proof -
    have t: "M \<le> t + 1" "t < N" using that(2) by auto
    have "?p a t = goal_id (inst s) a" using rows that(1) t(1) by blast
    then show ?thesis using val [OF that(1) t(2)] by (simp only:)
  qed
  moreover have "\<exists>a < length (plan s). pos a (M - 2) \<noteq> int (goal_id (inst s) a)" if "1 < M"
  proof -
    have "M = snd (thread ?f [0..<length (plan s)] 1)"
      using assms(5) by (simp add: NormalizePlan_def case_prod_beta Let_def)
    moreover have "snd (?f a m) = m \<or> (\<exists>i. pos a i \<noteq> int (goal_id (inst s) a) \<and> snd (?f a m) = i + 2)"
      if "a \<in> set [0..<length (plan s)]" for a m
    proof -
      have "a < length (plan s)" using that by simp
      from normalize_row_normalized [OF order_refl assms(3) [rule_format, OF this], of m]
      show ?thesis unfolding normalized_def pos_def by blast
    qed
    ultimately have "\<exists>a \<in> set [0..<length (plan s)]. \<exists>i. pos a i \<noteq> int (goal_id (inst s) a) \<and> M = i + 2"
      using thread_attained [where f = ?f and ks = "[0..<length (plan s)]" and m = 1
          and Q = "\<lambda>a x. \<exists>i. pos a i \<noteq> int (goal_id (inst s) a) \<and> x = i + 2"] \<open>1 < M\<close> by force
    then show ?thesis by auto
  qed
  ultimately show ?thesis using M by blast
qed

text \<open>Rows read off a model: agent 0 goes to its goal, agent 1 goes on for one step.\<close>

definition read_rows :: solver where
  "read_rows = swap_plan\<lparr>plan := [[1, 2, -1, -1], [2, 2, 1, 1]]\<rparr>"

lemma read_rows_fields: "plan read_rows = [[1, 2, -1, -1], [2, 2, 1, 1]]" "goal_id (inst read_rows) 0 = 2"
  "goal_id (inst read_rows) 1 = 1" "fst (NormalizePlan read_rows) = 3"
  by code_simp+

lemma NormalizePlan_cuts_witness: "plan (snd (NormalizePlan read_rows)) = [[1, 2, 2], [2, 2, 1]]"
proof -
  obtain u where run: "NormalizePlan read_rows = (3, u)" using read_rows_fields(4) by (metis prod.collapse)
  have len: "length (plan read_rows) = 2" by (simp add: read_rows_fields(1))
  have trail: "\<forall>a < length (plan read_rows). trailing (int (goal_id (inst read_rows) a)) (plan read_rows ! a)"
    unfolding len by (simp add: read_rows_fields All_less_Suc less_suc_2 trailing_def numeral_eq_Suc)
  have rows: "\<forall>a < length (plan read_rows). length (plan read_rows ! a) = 4 \<and> (\<forall>v \<in> set (plan read_rows ! a). -1 \<le> v)"
    "\<forall>a < length (plan read_rows). settled_at (int (goal_id (inst read_rows) a)) (plan read_rows ! a) (4 - 1) = int (goal_id (inst read_rows) a)"
    unfolding len using read_rows_fields by (auto simp: less_suc_2 settled_at_def)
  note C = NormalizePlan_cuts [OF _ rows(1) trail rows(2) run]
  have cut: "length (plan u) = 2" "\<forall>a < 2. plan u ! a = map (settled_at (int (goal_id (inst read_rows) a)) (plan read_rows ! a)) [0..<3]"
    using C unfolding len by simp_all
  then have "plan u ! 0 = [1, 2, 2]" "plan u ! 1 = [2, 2, 1]"
    by (simp_all add: read_rows_fields settled_at_def upt_rec)
  then have "plan u = [[1, 2, 2], [2, 2, 1]]"
    using cut(1) by (intro nth_equalityI) (auto simp: less_suc_2)
  then show ?thesis using run by simp
qed

text \<open>
  C38. The loop that waits for the SAT solver ends and polls in steps of 50 ms: it interrupts the solver
  exactly when none of its polls sees the end of the solver, the first at once and the last when the time
  that was left is over.
\<close>

theorem WaitForTerminate_polls_until:
  "WaitForTerminate t ended i \<longleftrightarrow> (\<nexists>j. j \<le> nat ((t + 49) div 50) \<and> ended (i + j))"
  unfolding WaitForTerminate_polls by blast

end
