(* ===== verification/Monosat_Graphs.thy ===== *)
theory Monosat_Graphs
  imports Smt_Encoding Soundness
begin

text \<open>
  The graphs that are printed for Monosat: how their nodes are numbered, and what it means for the goal
  node of an agent to be reachable from its start node.
\<close>

section \<open>The numbers of the nodes\<close>

text \<open>
  What a step of the graph generators does with the numbers given out so far: it keeps them, and with
  any later table that keeps its own numbers its line is the one of the keys.
\<close>

definition numbers_by :: "('k \<Rightarrow> ids \<Rightarrow> cnf_line \<times> ids) \<Rightarrow> ('k \<Rightarrow> int set) \<Rightarrow> ((int \<Rightarrow> int) \<Rightarrow> 'k \<Rightarrow> cnf_line) \<Rightarrow> bool" where
  "numbers_by f keys out \<longleftrightarrow>
     (\<forall>k ids. ids_ok ids \<longrightarrow>
        ids_ok (snd (f k ids)) \<and> snd ids \<subseteq>\<^sub>m snd (snd (f k ids)) \<and> keys k \<subseteq> dom (snd (snd (f k ids))) \<and>
        (\<forall>D. snd (snd (f k ids)) \<subseteq>\<^sub>m D \<longrightarrow> fst (f k ids) = out (the \<circ> D) k))"

lemma VarToID_numbers:
  assumes "ids_ok ids" "VarToID x dup ids = (n, ids')"
  shows "ids_ok ids'" "snd ids \<subseteq>\<^sub>m snd ids'" "(if dup then - x else x) \<in> dom (snd ids')"
    "snd ids' \<subseteq>\<^sub>m D \<Longrightarrow> n = the (D (if dup then - x else x))"
proof -
  note V = VarToID_ok [OF assms]
  show "ids_ok ids'" by (rule V(1))
  show "snd ids \<subseteq>\<^sub>m snd ids'" using V(3) by (auto simp: map_le_def)
  show "(if dup then - x else x) \<in> dom (snd ids')" using V(2) by blast
  show "n = the (D (if dup then - x else x))" if "snd ids' \<subseteq>\<^sub>m D"
    using that V(2) unfolding map_le_def by (metis domI option.sel)
qed

lemma two_nodes_numbered:
  assumes "ids_ok ids" "VarToID x dup ids = (n, ids1)" "VarToID y dup' ids1 = (m, ids2)"
  defines "kx \<equiv> if dup then - x else x" and "ky \<equiv> if dup' then - y else y"
  shows "ids_ok ids2" "snd ids \<subseteq>\<^sub>m snd ids2" "{kx, ky} \<subseteq> dom (snd ids2)"
    "snd ids2 \<subseteq>\<^sub>m D \<Longrightarrow> n = the (D kx) \<and> m = the (D ky)"
proof -
  note A = VarToID_numbers [OF assms(1,2)]
  note B = VarToID_numbers [OF A(1) assms(3)]
  show "ids_ok ids2" by (rule B(1))
  show "snd ids \<subseteq>\<^sub>m snd ids2" using A(2) B(2) map_le_trans by blast
  show "{kx, ky} \<subseteq> dom (snd ids2)" unfolding kx_def ky_def using A(3) B(2,3) map_le_implies_dom_le by blast
  show "snd ids2 \<subseteq>\<^sub>m D \<Longrightarrow> n = the (D kx) \<and> m = the (D ky)"
    unfolding kx_def ky_def using A(4) B(2,4) map_le_trans by blast
qed

definition two_nodes :: "('k \<Rightarrow> int) \<Rightarrow> bool \<Rightarrow> ('k \<Rightarrow> int) \<Rightarrow> bool \<Rightarrow> ('k \<Rightarrow> int \<Rightarrow> int \<Rightarrow> cnf_line) \<Rightarrow> 'k \<Rightarrow> ids \<Rightarrow> cnf_line \<times> ids" where
  "two_nodes x dup y dup' mk k ids =
     (let (n, ids1) = VarToID (x k) dup ids; (m, ids2) = VarToID (y k) dup' ids1 in (mk k n m, ids2))"

abbreviation copied :: "bool \<Rightarrow> int \<Rightarrow> int" where
  "copied dup x \<equiv> (if dup then - x else x)"

lemma two_nodes_numbers:
  "numbers_by (two_nodes x dup y dup' mk) (\<lambda>k. {copied dup (x k), copied dup' (y k)})
     (\<lambda>num k. mk k (num (copied dup (x k))) (num (copied dup' (y k))))"
  unfolding numbers_by_def
proof (intro allI impI)
  fix k ids assume ids: "ids_ok ids"
  obtain n ids1 where 1: "VarToID (x k) dup ids = (n, ids1)" by (cases "VarToID (x k) dup ids")
  obtain m ids2 where 2: "VarToID (y k) dup' ids1 = (m, ids2)" by (cases "VarToID (y k) dup' ids1")
  have f: "two_nodes x dup y dup' mk k ids = (mk k n m, ids2)" by (simp add: two_nodes_def 1 2)
  note N = two_nodes_numbered [OF ids 1 2]
  have "fst (mk k n m, ids2) = mk k ((the \<circ> D) (copied dup (x k))) ((the \<circ> D) (copied dup' (y k)))" if "snd ids2 \<subseteq>\<^sub>m D" for D
    using N(4) [OF that] by (simp only: fst_conv comp_apply)
  then show "ids_ok (snd (two_nodes x dup y dup' mk k ids)) \<and> snd ids \<subseteq>\<^sub>m snd (snd (two_nodes x dup y dup' mk k ids)) \<and>
      {copied dup (x k), copied dup' (y k)} \<subseteq> dom (snd (snd (two_nodes x dup y dup' mk k ids))) \<and>
      (\<forall>D. snd (snd (two_nodes x dup y dup' mk k ids)) \<subseteq>\<^sub>m D \<longrightarrow>
        fst (two_nodes x dup y dup' mk k ids) = mk k ((the \<circ> D) (copied dup (x k))) ((the \<circ> D) (copied dup' (y k))))"
    unfolding f snd_conv using N(1-3) by blast
qed

lemma edges_two_nodes:
  "vertex_edge s a = two_nodes (\<lambda>(v, t). at_var s a v t) False (\<lambda>(v, t). at_var s a v t) True
     (\<lambda>(v, t) n m. EdgeLine a n m (at_var s a v t))"
  "pass_edge s a = two_nodes (\<lambda>(v, dir, t). at_var s a v t) True (\<lambda>(v, dir, t). at_var s a (nb s v dir) (t + 1)) False
     (\<lambda>(v, dir, t) n m. EdgeLine a n m (pass_var s a v dir t))"
  "shift_edge s = two_nodes (\<lambda>(v, t, dir). cantor (int v) t) False (\<lambda>(v, t, dir). cantor (int (nb s v dir)) (t + 1)) False
     (\<lambda>(v, t, dir) n m. EdgeLine 0 n m (shift_var s v dir t))"
  unfolding fun_eq_iff split_paired_All two_nodes_def vertex_edge_def pass_edge_def shift_edge_def Let_def prod.case
  by (rule allI refl)+

lemma thread_numbered:
  assumes N: "numbers_by f keys out"
  shows "ids_ok ids \<Longrightarrow> ids_ok (snd (thread f ks ids)) \<and> snd ids \<subseteq>\<^sub>m snd (snd (thread f ks ids)) \<and>
    (\<Union>k \<in> set ks. keys k) \<subseteq> dom (snd (snd (thread f ks ids))) \<and>
    (\<forall>D. snd (snd (thread f ks ids)) \<subseteq>\<^sub>m D \<longrightarrow> fst (thread f ks ids) = map (out (the \<circ> D)) ks)"
proof (induction ks arbitrary: ids)
  case (Cons k ks)
  let ?i = "snd (f k ids)"
  let ?E = "snd (snd (thread f ks ?i))"
  have f: "ids_ok ?i" "snd ids \<subseteq>\<^sub>m snd ?i" "keys k \<subseteq> dom (snd ?i)" "\<And>D. snd ?i \<subseteq>\<^sub>m D \<Longrightarrow> fst (f k ids) = out (the \<circ> D) k"
    using N Cons.prems unfolding numbers_by_def by blast+
  have IH: "ids_ok (snd (thread f ks ?i))" "snd ?i \<subseteq>\<^sub>m ?E" "(\<Union>k \<in> set ks. keys k) \<subseteq> dom ?E"
    "\<And>D. ?E \<subseteq>\<^sub>m D \<Longrightarrow> fst (thread f ks ?i) = map (out (the \<circ> D)) ks" using Cons.IH [OF f(1)] by blast+
  have "dom (snd ?i) \<subseteq> dom ?E" by (rule map_le_implies_dom_le [OF IH(2)])
  then have "(\<Union>k \<in> set (k # ks). keys k) \<subseteq> dom ?E" using f(3) IH(3) by auto
  moreover have "snd ids \<subseteq>\<^sub>m ?E" by (rule map_le_trans [OF f(2) IH(2)])
  moreover have "fst (thread f (k # ks) ids) = map (out (the \<circ> D)) (k # ks)" if D: "?E \<subseteq>\<^sub>m D" for D
    unfolding fst_thread_Cons list.map using f(4) [OF map_le_trans [OF IH(2) D]] IH(4) [OF D] by (simp only:)
  ultimately show ?case using IH(1) unfolding snd_thread_Cons by blast
qed simp

lemma ids_ok_inj: "ids_ok ids \<Longrightarrow> inj_on (the \<circ> snd ids) (dom (snd ids))"
  unfolding ids_ok_def inj_on_def by (cases ids) (auto simp: dom_def)

text \<open>The keys of the nodes and of the edges of the graph of an agent.\<close>

definition start_key :: "solver \<Rightarrow> nat \<Rightarrow> int" where
  "start_key s a = first_variable (AT s a (start_id (inst s) a))"

definition goal_key :: "solver \<Rightarrow> nat \<Rightarrow> int" where
  "goal_key s a = - at_var s a (goal_id (inst s) a) (last_timestep (AT s a (goal_id (inst s) a)))"

definition graph_keys :: "solver \<Rightarrow> nat \<Rightarrow> int set" where
  "graph_keys s a = {start_key s a, goal_key s a} \<union>
     (\<Union>(v, t) \<in> set (vertex_keys s a). {at_var s a v t, - at_var s a v t}) \<union>
     (\<Union>(v, dir, t) \<in> set (pass_keys s a). {- at_var s a v t, at_var s a (nb s v dir) (t + 1)})"

lemma graph_pass_numbered:
  "\<exists>num. inj_on num (graph_keys s a) \<and> graph_pass_lines s a lit =
     DigraphLine a #
     map (\<lambda>(v, t). EdgeLine a (num (at_var s a v t)) (num (- at_var s a v t)) (at_var s a v t)) (vertex_keys s a) @
     map (\<lambda>(v, dir, t). EdgeLine a (num (- at_var s a v t)) (num (at_var s a (nb s v dir) (t + 1))) (pass_var s a v dir t)) (pass_keys s a) @
     [ReachLine a (num (start_key s a)) (num (goal_key s a)) lit]"
proof -
  obtain es ids1 where 1: "thread (vertex_edge s a) (vertex_keys s a) no_ids = (es, ids1)" by (cases "thread (vertex_edge s a) (vertex_keys s a) no_ids")
  obtain ps ids2 where 2: "thread (pass_edge s a) (pass_keys s a) ids1 = (ps, ids2)" by (cases "thread (pass_edge s a) (pass_keys s a) ids1")
  let ?g = "at_var s a (goal_id (inst s) a) (last_timestep (AT s a (goal_id (inst s) a)))"
  obtain n ids3 where 3: "VarToID (start_key s a) False ids2 = (n, ids3)" by (cases "VarToID (start_key s a) False ids2")
  obtain m ids4 where 4: "VarToID ?g True ids3 = (m, ids4)" by (cases "VarToID ?g True ids3")
  have lines: "graph_pass_lines s a lit = DigraphLine a # es @ ps @ [ReachLine a n m lit]"
    using 1 2 3 4 by (simp add: graph_pass_lines_def start_key_def var_at_def Let_def)
  let ?V = "\<lambda>(v, t). {at_var s a v t, - at_var s a v t}" and ?P = "\<lambda>(v, dir, t). {- at_var s a v t, at_var s a (nb s v dir) (t + 1)}"
  have ve: "numbers_by (vertex_edge s a) ?V
      (\<lambda>num (v, t). EdgeLine a (num (at_var s a v t)) (num (- at_var s a v t)) (at_var s a v t))"
    using two_nodes_numbers [of "\<lambda>(v, t). at_var s a v t" False "\<lambda>(v, t). at_var s a v t" True "\<lambda>(v, t) n m. EdgeLine a n m (at_var s a v t)"]
    unfolding edges_two_nodes(1) by (simp add: case_prod_unfold)
  have pe: "numbers_by (pass_edge s a) ?P
      (\<lambda>num (v, dir, t). EdgeLine a (num (- at_var s a v t)) (num (at_var s a (nb s v dir) (t + 1))) (pass_var s a v dir t))"
    using two_nodes_numbers [of "\<lambda>(v, dir, t). at_var s a v t" True "\<lambda>(v, dir, t). at_var s a (nb s v dir) (t + 1)" False
        "\<lambda>(v, dir, t) n m. EdgeLine a n m (pass_var s a v dir t)"]
    unfolding edges_two_nodes(2) by (simp add: case_prod_unfold)
  note A = thread_numbered [OF ve no_ids_ok, of "vertex_keys s a", unfolded 1 fst_conv snd_conv]
  have ok1: "ids_ok ids1" using A by blast
  note B = thread_numbered [OF pe ok1, of "pass_keys s a", unfolded 2 fst_conv snd_conv]
  have ok2: "ids_ok ids2" using B by blast
  note C = two_nodes_numbered [OF ok2 3 4]
  let ?D = "snd ids4"
  have le: "snd ids1 \<subseteq>\<^sub>m ?D" "snd ids2 \<subseteq>\<^sub>m ?D" using B C(2) map_le_trans by blast+
  have nm: "n = (the \<circ> ?D) (start_key s a)" "m = (the \<circ> ?D) (goal_key s a)"
    using C(4) [OF map_le_refl] by (simp_all add: goal_key_def)
  have es: "es = map (\<lambda>(v, t). EdgeLine a ((the \<circ> ?D) (at_var s a v t)) ((the \<circ> ?D) (- at_var s a v t)) (at_var s a v t)) (vertex_keys s a)"
    using A le(1) by blast
  have ps: "ps = map (\<lambda>(v, dir, t). EdgeLine a ((the \<circ> ?D) (- at_var s a v t)) ((the \<circ> ?D) (at_var s a (nb s v dir) (t + 1))) (pass_var s a v dir t)) (pass_keys s a)"
    using B le(2) by blast
  have "(\<Union>k \<in> set (vertex_keys s a). ?V k) \<subseteq> dom ?D" "(\<Union>k \<in> set (pass_keys s a). ?P k) \<subseteq> dom ?D"
    by (rule subset_trans [OF A [THEN conjunct2, THEN conjunct2, THEN conjunct1] map_le_implies_dom_le [OF le(1)]],
        rule subset_trans [OF B [THEN conjunct2, THEN conjunct2, THEN conjunct1] map_le_implies_dom_le [OF le(2)]])
  moreover have "{start_key s a, goal_key s a} \<subseteq> dom ?D" using C(3) by (simp add: goal_key_def)
  ultimately have "graph_keys s a \<subseteq> dom ?D" unfolding graph_keys_def by (simp only: Un_subset_iff)
  then have "inj_on (the \<circ> ?D) (graph_keys s a)" using ids_ok_inj [OF C(1)] inj_on_subset by blast
  then show ?thesis unfolding lines nm es ps by blast
qed

section \<open>Reachability\<close>

text \<open>The edges of graph \<open>g\<close> whose variables are true, as Monosat sees them.\<close>

definition open_edges :: "assignment \<Rightarrow> nat \<Rightarrow> cnf_line list \<Rightarrow> (int \<times> int) set" where
  "open_edges I g ls = {(n, m). \<exists>x. EdgeLine g n m x \<in> set ls \<and> I x}"

definition key_edges :: "solver \<Rightarrow> assignment \<Rightarrow> nat \<Rightarrow> (int \<times> int) set" where
  "key_edges s I a =
     {(at_var s a v t, - at_var s a v t) |v t. (v, t) \<in> set (vertex_keys s a) \<and> I (at_var s a v t)} \<union>
     {(- at_var s a v t, at_var s a (nb s v dir) (t + 1)) |v dir t. (v, dir, t) \<in> set (pass_keys s a) \<and> I (pass_var s a v dir t)}"

lemma rtrancl_image:
  assumes inj: "inj_on f N" and E: "E \<subseteq> N \<times> N" and xy: "x \<in> N" "y \<in> N"
  shows "(f x, f y) \<in> (map_prod f f ` E)\<^sup>* \<longleftrightarrow> (x, y) \<in> E\<^sup>*"
proof
  assume "(f x, f y) \<in> (map_prod f f ` E)\<^sup>*"
  then have "\<exists>z \<in> N. f y = f z \<and> (x, z) \<in> E\<^sup>*"
  proof (induction rule: rtrancl_induct)
    case base
    then show ?case using xy(1) by blast
  next
    case (step y' z')
    then obtain z where z: "z \<in> N" "y' = f z" "(x, z) \<in> E\<^sup>*" by blast
    obtain p q where pq: "(p, q) \<in> E" "y' = f p" "z' = f q" using step.hyps(2) by auto
    then have "p = z" using z(1,2) inj E by (auto dest: inj_onD)
    then show ?case using pq z(3) E by (intro bexI [of _ q]) auto
  qed
  then show "(x, y) \<in> E\<^sup>*" using inj xy(2) by (auto dest: inj_onD)
next
  assume "(x, y) \<in> E\<^sup>*"
  then show "(f x, f y) \<in> (map_prod f f ` E)\<^sup>*"
  proof (induction rule: rtrancl_induct)
    case (step y z)
    then show ?case by (meson map_prod_imageI rtrancl.rtrancl_into_rtrancl)
  qed simp
qed

lemma graph_reach_keys:
  "\<exists>n m. last (graph_pass_lines s a lit) = ReachLine a n m lit \<and>
     ((n, m) \<in> (open_edges I a (graph_pass_lines s a lit))\<^sup>* \<longleftrightarrow> (start_key s a, goal_key s a) \<in> (key_edges s I a)\<^sup>*)"
proof -
  obtain num where num: "inj_on num (graph_keys s a)" and lines: "graph_pass_lines s a lit =
     DigraphLine a #
     map (\<lambda>(v, t). EdgeLine a (num (at_var s a v t)) (num (- at_var s a v t)) (at_var s a v t)) (vertex_keys s a) @
     map (\<lambda>(v, dir, t). EdgeLine a (num (- at_var s a v t)) (num (at_var s a (nb s v dir) (t + 1))) (pass_var s a v dir t)) (pass_keys s a) @
     [ReachLine a (num (start_key s a)) (num (goal_key s a)) lit]"
    using graph_pass_numbered by blast
  have edges: "open_edges I a (graph_pass_lines s a lit) = map_prod num num ` key_edges s I a"
  proof (intro set_eqI)
    fix e :: "int \<times> int"
    obtain n m where e: "e = (n, m)" by fastforce
    have "e \<in> open_edges I a (graph_pass_lines s a lit) \<longleftrightarrow>
        (\<exists>v t. (v, t) \<in> set (vertex_keys s a) \<and> I (at_var s a v t) \<and> n = num (at_var s a v t) \<and> m = num (- at_var s a v t)) \<or>
        (\<exists>v dir t. (v, dir, t) \<in> set (pass_keys s a) \<and> I (pass_var s a v dir t) \<and> n = num (- at_var s a v t) \<and>
           m = num (at_var s a (nb s v dir) (t + 1)))"
      unfolding open_edges_def lines e by force
    also have "\<dots> \<longleftrightarrow> e \<in> map_prod num num ` key_edges s I a"
      unfolding key_edges_def e image_Un Un_iff by (intro arg_cong2 [where f = "(\<or>)"]; auto simp: image_iff; blast)
    finally show "e \<in> open_edges I a (graph_pass_lines s a lit) \<longleftrightarrow> e \<in> map_prod num num ` key_edges s I a" .
  qed
  have "key_edges s I a \<subseteq> graph_keys s a \<times> graph_keys s a"
    unfolding key_edges_def graph_keys_def by fastforce
  from rtrancl_image [OF num this] have "(num (start_key s a), num (goal_key s a)) \<in> (open_edges I a (graph_pass_lines s a lit))\<^sup>* \<longleftrightarrow>
      (start_key s a, goal_key s a) \<in> (key_edges s I a)\<^sup>*"
    unfolding edges by (simp add: graph_keys_def)
  moreover have "last (graph_pass_lines s a lit) = ReachLine a (num (start_key s a)) (num (goal_key s a)) lit"
    unfolding lines by simp
  ultimately show ?thesis by blast
qed

section \<open>Paths are walks\<close>

lemma set_vertex_keys: "(v, t) \<in> set (vertex_keys s a) \<longleftrightarrow> v < vertices s \<and> at_window s a v t"
  unfolding vertex_keys_def window_iff [symmetric] by (auto simp: image_iff)

lemma set_pass_keys:
  "(v, dir, t) \<in> set (pass_keys s a) \<longleftrightarrow>
     v < vertices s \<and> dir < 5 \<and> has_nb s v dir \<and> used (AT s a v) \<and> pass_window s a v dir t"
  unfolding pass_keys_def window_iff [symmetric] by (auto simp: image_iff)

text \<open>
  The first \<open>T\<close> steps of a walk whose vertices and edges are open.
\<close>

definition open_walk :: "solver \<Rightarrow> assignment \<Rightarrow> nat \<Rightarrow> nat \<Rightarrow> (nat \<Rightarrow> nat) \<Rightarrow> bool" where
  "open_walk s I a T w \<longleftrightarrow> w 0 = start_id (inst s) a \<and>
     (\<forall>t < T. w t < vertices s \<and> occ s I a (w t) (int t) \<and>
        (\<exists>dir < 5. has_nb s (w t) dir \<and> nb s (w t) dir = w (t + 1) \<and> passes s I a (w t) dir (int t)))"

lemma open_walk_extend:
  assumes "open_walk s I a t w" "w t < vertices s" "occ s I a (w t) (int t)"
    and "dir < 5" "has_nb s (w t) dir" "passes s I a (w t) dir (int t)"
  shows "open_walk s I a (t + 1) (w(t + 1 := nb s (w t) dir))"
  using assms unfolding open_walk_def by (auto simp: less_Suc_eq)

lemma open_step:
  assumes R: "enc_ready s lo hi" and v2: "variables s = 2" and a: "a < agents s"
    and v: "v < vertices s" "d < 5" and w: "pass_window s a v d t"
  shows "has_nb s v d" "nb s v d < vertices s" "at_window s a (nb s v d) (t + 1)"
proof -
  obtain mid where P: "pass_table s (max_timestep s) mid hi" using ready_pass [OF R v2] by blast
  show h: "has_nb s v d" using pass_tableD(3) [OF P a v] w by blast
  show "nb s v d < vertices s" by (rule ready_nb(1) [OF R v h])
  show "at_window s a (nb s v d) (t + 1)" by (rule pass_window_next [OF R P a v w])
qed

lemma pass_at:
  assumes R: "enc_ready s lo hi" and v2: "variables s = 2" and a: "a < agents s"
    and v: "v < vertices s" "d < 5" and w: "pass_window s a v d t"
  shows "at_window s a v t"
proof -
  obtain mid where P: "pass_table s (max_timestep s) mid hi" using ready_pass [OF R v2] by blast
  have W: "has_nb s v d" "cfg_first (cfg_of s) a v \<le> t" "t < cfg_last (cfg_of s) a (nb s v d)"
    using pass_tableD(3) [OF P a v] w by (simp_all add: time_cfg)
  let ?u = "nb s v d" and ?g = "\<lambda>x. length_from_goal (inst s) ! a ! x"
  note ok = enc_readyD(1) [OF R] and u = ready_nb [OF R v W(1)]
  have dist: "is_dist (moves (inst s)) (goal_id (inst s) a) x (?g x)" if "x < vertices s" for x
    using cfg_tables(2) [OF ok, of a x] that a enc_readyD(5) [OF R] by simp
  note gv = dist [OF v(1)] and gu = dist [OF u(1)]
  have "?g v \<le> ?g ?u + 1"
  proof (cases "?u = v")
    case False
    then have mv: "(v, ?u) \<in> moves (inst s)" "(?u, v) \<in> moves (inst s)"
      using u(2) moves_sym [OF enc_readyD(4) [OF R]] by (auto dest: symD)
    show ?thesis
    proof (cases "0 \<le> ?g ?u")
      case True
      then show ?thesis using is_dist_step [OF gu gv _ mv(2)] by simp
    next
      case False
      then have "\<not> 0 \<le> ?g v" using is_dist_step [OF gv gu _ mv(1)] by auto
      then show ?thesis using is_dist_ge [OF gu] by simp
    qed
  qed simp
  then have "cfg_last (cfg_of s) a ?u \<le> cfg_last (cfg_of s) a v + 1"
    using a v u(1) enc_readyD(5) [OF R] cfg_last_eq [OF ok, of a] by simp
  then show ?thesis using ready_window [OF R a v(1)] W(2,3) by simp
qed

lemma start_key_at:
  assumes R: "enc_ready s lo hi" and a: "a < agents s"
  shows "start_key s a = at_var s a (start_id (inst s) a) 0"
proof -
  note S = ready_start_time [OF R a]
  have "first_variable (AT s a (start_id (inst s) a)) \<noteq> 0" using S window_used by (auto simp: used_def)
  then show ?thesis using at_tableD(5) [OF enc_readyD(2) [OF R] a, of "start_id (inst s) a"] S
    by (simp add: start_key_def var_at_def)
qed

lemma path_walk:
  assumes R: "enc_ready s lo hi" and v2: "variables s = 2" and a: "a < agents s"
    and path: "(start_key s a, k) \<in> (key_edges s I a)\<^sup>*"
  shows "\<exists>T w. open_walk s I a T w \<and> w T < vertices s \<and> at_window s a (w T) (int T) \<and>
    (k = at_var s a (w T) (int T) \<or> k = - at_var s a (w T) (int T) \<and> I (at_var s a (w T) (int T)))"
  using path
proof (induction rule: rtrancl_induct)
  case base
  then show ?case
    using ready_start_time [OF R a] start_key_at [OF R a] by (intro exI [of _ 0] exI [of _ "\<lambda>_. start_id (inst s) a"]) (simp add: open_walk_def)
next
  case (step k k')
  note A = enc_readyD(2) [OF R]
  obtain T w where w: "open_walk s I a T w" "w T < vertices s" "at_window s a (w T) (int T)"
    "k = at_var s a (w T) (int T) \<or> k = - at_var s a (w T) (int T) \<and> I (at_var s a (w T) (int T))" using step.IH by blast
  have pos: "0 < at_var s a (w T) (int T)" by (rule at_var_pos [OF A a w(2,3)])
  consider (vertex) v t where "v < vertices s" "at_window s a v t" "k = at_var s a v t" "k' = - k" "I k"
    | (pass) v d t where "v < vertices s" "d < 5" "has_nb s v d" "pass_window s a v d t" "used (AT s a v)"
        "I (pass_var s a v d t)" "k = - at_var s a v t" "k' = at_var s a (nb s v d) (t + 1)"
    using step.hyps(2) unfolding key_edges_def Un_iff mem_Collect_eq prod.inject set_vertex_keys set_pass_keys by blast
  then show ?case
  proof cases
    case vertex
    then have "k = at_var s a (w T) (int T)" using at_var_pos [OF A a vertex(1,2)] w(4) pos by auto
    then show ?thesis using w(1-3) vertex(4,5) by blast
  next
    case pass
    have at: "at_window s a v t" by (rule pass_at [OF R v2 a pass(1,2,4)])
    then have k: "k = - at_var s a (w T) (int T)" "I (at_var s a (w T) (int T))"
      using at_var_pos [OF A a pass(1) at] w(4) pass(7) pos by auto
    then have vt: "v = w T" "t = int T"
      using at_tableD(7) [OF A a pass(1) a w(2) at w(3)] pass(7) by auto
    let ?w = "w(T + 1 := nb s v d)"
    have "open_walk s I a (T + 1) ?w"
      using open_walk_extend [OF w(1,2)] w(3) k(2) pass(2-4,6) vt by (simp add: occ_def passes_def)
    moreover have "nb s v d < vertices s" "at_window s a (nb s v d) (t + 1)"
      by (rule open_step [OF R v2 a pass(1,2,4)])+
    moreover have "?w (T + 1) = nb s v d" by simp
    ultimately have "open_walk s I a (T + 1) ?w" "?w (T + 1) < vertices s" "at_window s a (?w (T + 1)) (int (T + 1))"
      "k' = at_var s a (?w (T + 1)) (int (T + 1))"
      using pass(8) vt(2) by (simp_all add: add.commute del: fun_upd_apply)
    then show ?thesis by blast
  qed
qed

lemma walk_path:
  assumes R: "enc_ready s lo hi" and a: "a < agents s" and w: "open_walk s I a T w"
  shows "n \<le> T \<Longrightarrow> (start_key s a, at_var s a (w n) (int n)) \<in> (key_edges s I a)\<^sup>*"
proof (induction n)
  case 0
  then show ?case using w start_key_at [OF R a] by (simp add: open_walk_def)
next
  case (Suc n)
  obtain dir where n: "w n < vertices s" "occ s I a (w n) (int n)" and d: "dir < 5" "has_nb s (w n) dir"
    "nb s (w n) dir = w (n + 1)" "passes s I a (w n) dir (int n)"
    using w Suc.prems unfolding open_walk_def by (meson Suc_le_lessD)
  let ?x = "at_var s a (w n) (int n)"
  have "used (AT s a (w n))" using n(2) window_used by (auto simp: occ_def)
  then have "(?x, - ?x) \<in> key_edges s I a" "(- ?x, at_var s a (nb s (w n) dir) (int n + 1)) \<in> key_edges s I a"
    using n d unfolding key_edges_def occ_def passes_def by (auto simp: set_vertex_keys set_pass_keys)
  then have "(?x, at_var s a (w (n + 1)) (int n + 1)) \<in> (key_edges s I a)\<^sup>*"
    unfolding d(3) by (meson converse_rtrancl_into_rtrancl r_into_rtrancl)
  then show ?case using Suc by (simp add: add.commute)
qed

text \<open>The window of the goal ends at the agent's final timestep.\<close>

lemma goal_last:
  assumes R: "enc_ready s lo hi" and a: "a < agents s"
  shows "at_window s a (goal_id (inst s) a) (fin s a)" "last_timestep (AT s a (goal_id (inst s) a)) = fin s a"
proof -
  note e = ready_ends [OF R a]
  show w: "at_window s a (goal_id (inst s) a) (fin s a)" using ready_window [OF R a e(2)] e(4,6) by simp
  then have "used (AT s a (goal_id (inst s) a))" by (rule window_used)
  then show "last_timestep (AT s a (goal_id (inst s) a)) = fin s a"
    using at_tableD(5) [OF enc_readyD(2) [OF R] a e(2)] e(4) by (simp add: used_def time_cfg)
qed

lemma graph_reaches:
  assumes "enc_ready s lo hi" "variables s = 2" "a < agents s"
  shows "\<exists>n m. last (graph_pass_lines s a lit) = ReachLine a n m lit \<and>
    ((n, m) \<in> (open_edges I a (graph_pass_lines s a lit))\<^sup>* \<longleftrightarrow>
     (\<exists>T w. int T = last_timestep (AT s a (goal_id (inst s) a)) \<and> open_walk s I a T w \<and> w T = goal_id (inst s) a \<and>
        occ s I a (goal_id (inst s) a) (int T)))"
    (is "\<exists>n m. _ \<and> (_ \<longleftrightarrow> ?walk)")
proof -
  note R = assms(1) and a = assms(3)
  note A = enc_readyD(2) [OF R]
  let ?g = "goal_id (inst s) a"
  let ?L = "last_timestep (AT s a ?g)"
  have g: "?g < vertices s" "?L = fin s a" "0 \<le> fin s a" "at_window s a ?g ?L"
    using ready_ends(2,7) [OF R a] goal_last [OF R a] by simp_all
  have "(start_key s a, goal_key s a) \<in> (key_edges s I a)\<^sup>* \<longleftrightarrow> ?walk"
  proof
    assume "(start_key s a, goal_key s a) \<in> (key_edges s I a)\<^sup>*"
    from path_walk [OF assms this] obtain T w where w: "open_walk s I a T w" "w T < vertices s" "at_window s a (w T) (int T)"
      "goal_key s a = at_var s a (w T) (int T) \<or> goal_key s a = - at_var s a (w T) (int T) \<and> I (at_var s a (w T) (int T))" by blast
    then have k: "at_var s a ?g ?L = at_var s a (w T) (int T)" "I (at_var s a (w T) (int T))"
      using at_var_pos [OF A a g(1,4)] at_var_pos [OF A a w(2,3)] by (auto simp: goal_key_def)
    then have eq: "?g = w T" "?L = int T" using at_tableD(7) [OF A a g(1) a w(2) g(4) w(3)] by blast+
    have "occ s I a ?g (int T)" unfolding eq(1) occ_def using w(3) k(2) by blast
    then show ?walk using w(1) eq by metis
  next
    assume ?walk
    then obtain T w where w: "int T = ?L" "w T = ?g" "open_walk s I a T w" "occ s I a ?g (int T)"
      by blast
    have "(at_var s a ?g ?L, - at_var s a ?g ?L) \<in> key_edges s I a"
      using w(1,4) g(1,4) unfolding key_edges_def occ_def by (auto simp: set_vertex_keys)
    then show "(start_key s a, goal_key s a) \<in> (key_edges s I a)\<^sup>*"
      using walk_path [OF R a w(3) order_refl] w(1,2) unfolding goal_key_def by (metis rtrancl.rtrancl_into_rtrancl)
  qed
  then show ?thesis using graph_reach_keys [of s a lit I] by simp
qed

end
