(* ===== verification/Graph_Properties.thy ===== *)
theory Graph_Properties
  imports Monosat_Graphs Example_Runs
begin

text \<open>
  What the graphs that are printed for Monosat promise: reachability and the keys of their nodes.
\<close>

text \<open>
  C22. The reachability constraints of the Monosat encoding mean what they should: in the graph that
  \<open>CreateMove_Graph_MonosatPass\<close> prints for an agent, the goal node can be reached from the start node
  along edges whose variables are true exactly when these variables describe a walk of the agent from
  its start at timestep 0 to its goal at the last timestep of its window, along edges of the map.
\<close>

theorem Monosat_graph_reaches:
  assumes "enc_ready s lo hi" "variables s = 2" "a < agents s"
  shows "\<exists>n m. last (graph_pass_lines s a lit) = ReachLine a n m lit \<and>
    ((n, m) \<in> {(x, y). \<exists>e. EdgeLine a x y e \<in> set (graph_pass_lines s a lit) \<and> I e}\<^sup>* \<longleftrightarrow>
     (\<exists>T w. int T = last_timestep (AT s a (goal_id (inst s) a)) \<and> w 0 = start_id (inst s) a \<and> w T = goal_id (inst s) a \<and>
        (\<forall>t \<le> T. w t < vertices s \<and> occ s I a (w t) (int t)) \<and>
        (\<forall>t < T. \<exists>dir < 5. has_nb s (w t) dir \<and> nb s (w t) dir = w (t + 1) \<and> passes s I a (w t) dir (int t))))"
proof -
  have "(\<exists>T w. int T = last_timestep (AT s a (goal_id (inst s) a)) \<and> open_walk s I a T w \<and> w T = goal_id (inst s) a \<and>
        occ s I a (goal_id (inst s) a) (int T)) \<longleftrightarrow>
     (\<exists>T w. int T = last_timestep (AT s a (goal_id (inst s) a)) \<and> w 0 = start_id (inst s) a \<and> w T = goal_id (inst s) a \<and>
        (\<forall>t \<le> T. w t < vertices s \<and> occ s I a (w t) (int t)) \<and>
        (\<forall>t < T. \<exists>dir < 5. has_nb s (w t) dir \<and> nb s (w t) dir = w (t + 1) \<and> passes s I a (w t) dir (int t)))"
    using enc_readyD(3,5) [OF assms(1)] ready_ends(2) [OF assms(1,3)]
    unfolding open_walk_def by (intro arg_cong [where f = Ex] ext) (auto simp: le_less)
  then show ?thesis using graph_reaches [OF assms, of lit I] unfolding open_edges_def by blast
qed

lemma example_graph: "\<exists>s lo hi. enc_ready s lo hi \<and> variables s = 2 \<and> agents s = 2"
proof -
  obtain s where s: "sat_start s" "variables s = 2" "agents s = 2" using example_round [of 2 1] by auto
  have "encodes (tables_of s) (snd (formula_of naive_amk s)) (fst (formula_of naive_amk s))"
    by (rule formula_of_encodes(1) [OF s(1) naive_amk_ok])
  then obtain lo hi where "enc_ready (tables_of s) lo hi" unfolding encodes_def by blast
  then show ?thesis using s(2,3) tables_of_fields [of s] by (intro exI [of _ "tables_of s"]) auto
qed

lemma Monosat_graph_reaches_witness:
  "\<exists>s n m. variables s = 2 \<and> agents s = 2 \<and> last (graph_pass_lines s 1 7) = ReachLine 1 n m 7 \<and>
     (n, m) \<notin> {(x, y). \<exists>e. EdgeLine 1 x y e \<in> set (graph_pass_lines s 1 7) \<and> False}\<^sup>*"
proof -
  obtain s lo hi where s: "enc_ready s lo hi" "variables s = 2" "agents s = 2" using example_graph by blast
  have "1 < agents s" using s(3) by simp
  from Monosat_graph_reaches [OF s(1,2) this, of 7 "\<lambda>_. False"] show ?thesis
    unfolding occ_def using s(2,3) by blast
qed



end
