(* ===== verification/Monosat_Correct.thy ===== *)
theory Monosat_Correct
  imports Monosat_Graphs Completeness
begin

text \<open>
  The formula of the Monosat encoding with pass variables: it has a model in which the goals are
  reachable exactly when the instance has a solution.
\<close>

section \<open>Walks in the graphs\<close>

text \<open>Every agent can reach its goal: its final vertex is open at its final timestep.\<close>

definition agents_reach :: "solver \<Rightarrow> assignment \<Rightarrow> bool" where
  "agents_reach s I \<longleftrightarrow>
     (\<forall>a < agents s. \<exists>w. open_walk s I a (nat (fin s a)) w \<and> w (nat (fin s a)) = goal_id (inst s) a \<and>
        occ s I a (goal_id (inst s) a) (fin s a))"

text \<open>The clauses beside the cardinality constraints.\<close>

definition graph_cnf :: "solver \<Rightarrow> cnf" where
  "graph_cnf s = (if cost_function s = 2 then none_at_goal_clauses s else []) @
     (conf_vertex_clauses s @ conf_swapping_pass_clauses s) @ (conf_vertex_clauses s @ conf_swapping_pass_clauses s)"

lemma graph_cnf_true:
  "cnf_true I (graph_cnf s) \<longleftrightarrow> (cost_function s = 2 \<longrightarrow> cnf_true I (none_at_goal_clauses s)) \<and>
     cnf_true I (conf_vertex_clauses s) \<and> cnf_true I (conf_swapping_pass_clauses s)"
  by (auto simp: graph_cnf_def)

section \<open>A model gives a solution\<close>

text \<open>What the walks of the agents satisfy, as trajectories that rest at the goal in the end.\<close>

definition walked :: "solver \<Rightarrow> assignment \<Rightarrow> trajectories \<Rightarrow> bool" where
  "walked s I p \<longleftrightarrow> kept_by s I p \<and>
     (\<forall>a < agents s. p a 0 = start_id (inst s) a \<and>
        (\<forall>t. int t < fin s a \<longrightarrow> (\<exists>d < 5. has_nb s (p a t) d \<and> nb s (p a t) d = p a (t + 1) \<and> passes s I a (p a t) d (int t))))"

lemma reach_walked:
  assumes R: "enc_ready s lo hi" and W: "agents_reach s I"
  shows "\<exists>p. walked s I p"
proof -
  obtain w where w: "\<And>a. a < agents s \<Longrightarrow> open_walk s I a (nat (fin s a)) (w a) \<and> w a (nat (fin s a)) = goal_id (inst s) a \<and>
      occ s I a (goal_id (inst s) a) (fin s a)" using W unfolding agents_reach_def by metis
  let ?p = "\<lambda>a t. if int t \<le> fin s a then w a t else goal_id (inst s) a"
  have "walked s I ?p"
    unfolding walked_def kept_by_def
  proof (intro conjI allI impI)
    fix a t assume a: "a < agents s"
    note W = w [OF a, THEN conjunct1, unfolded open_walk_def] and e = ready_ends(2,7) [OF R a]
    show "?p a 0 = start_id (inst s) a" using W e(2) by simp
    show "?p a t = goal_id (inst s) a" if "fin s a \<le> int t"
    proof (cases "int t \<le> fin s a")
      case True
      then have "t = nat (fin s a)" using that by simp
      then show ?thesis using w [OF a] by simp
    qed simp
    show "\<exists>d < 5. has_nb s (?p a t) d \<and> nb s (?p a t) d = ?p a (t + 1) \<and> passes s I a (?p a t) d (int t)" if "int t < fin s a"
      using W that by auto
    assume t: "int t \<le> fin s a"
    show "?p a t < vertices s" "occ s I a (?p a t) (int t)"
    proof -
      have "w a t < vertices s \<and> occ s I a (w a t) (int t)"
      proof (cases "int t = fin s a")
        case True
        then have "t = nat (fin s a)" by simp
        then show ?thesis using w [OF a] e True by simp
      next
        case False
        then show ?thesis using W t by auto
      qed
      then show "?p a t < vertices s" "occ s I a (?p a t) (int t)" using t by simp_all
    qed
  qed
  then show ?thesis by blast
qed

lemma walkedD:
  assumes "walked s I p" "a < agents s"
  shows "p a 0 = start_id (inst s) a" "int t \<le> fin s a \<Longrightarrow> p a t < vertices s" "int t \<le> fin s a \<Longrightarrow> occ s I a (p a t) (int t)"
    "fin s a \<le> int t \<Longrightarrow> p a t = goal_id (inst s) a"
    "int t < fin s a \<Longrightarrow> \<exists>d < 5. has_nb s (p a t) d \<and> nb s (p a t) d = p a (t + 1) \<and> passes s I a (p a t) d (int t)"
  using assms unfolding walked_def kept_by_def by blast+

lemma walked_on_map:
  assumes R: "enc_ready s lo hi" and P: "walked s I p"
  shows "on_map (inst s) (agents s) p"
  unfolding on_map_def
proof (intro allI impI conjI)
  fix a t assume a: "a < agents s"
  show "p a 0 = start_id (inst s) a" by (rule walkedD(1) [OF P a])
  show "p a (Suc t) = p a t \<or> (p a t, p a (Suc t)) \<in> moves (inst s)"
  proof (cases "int t < fin s a")
    case True
    obtain d where "d < 5" "has_nb s (p a t) d" "nb s (p a t) d = p a (t + 1)" using True walkedD(5) [OF P a] by blast
    moreover have "p a t < vertices s" using walkedD(2) [OF P a] True by simp
    ultimately show ?thesis using ready_nb(2) [OF R, of "p a t" d] by simp
  next
    case False
    then show ?thesis using walkedD(4) [OF P a, of t] walkedD(4) [OF P a, of "Suc t"] by simp
  qed
qed

text \<open>Two agents never meet: before both have arrived by the vertex clauses, later by the goal clauses.\<close>

lemma walked_apart:
  assumes R: "enc_ready s lo hi" and P: "walked s I p" and C: "cnf_true I (graph_cnf s)"
    and ab: "a < agents s" "b < agents s" "a \<noteq> b"
  shows "p a t \<noteq> p b t"
proof -
  note T = enc_readyD(2) [OF R]
  have apart: "\<not> (occ s I a v k \<and> occ s I b v k)" if ab: "a < agents s" "b < agents s" "a \<noteq> b" and v: "v < vertices s" for a b v k
  proof -
    have "cnf_true I (conf_vertex_clauses s)" using C by (simp add: graph_cnf_true)
    then have sem: "\<And>a b. a < agents s \<Longrightarrow> b \<in> {a + 1..<agents s} \<Longrightarrow> \<not> (occ s I a v k \<and> occ s I b v k)"
      using v unfolding conf_vertex_sem [OF T] by blast
    consider "a < b" | "b < a" using ab(3) by linarith
    then show ?thesis using sem [of a b] sem [of b a] ab by cases auto
  qed
  have arrived: "p b t \<noteq> goal_id (inst s) a" if ab: "a < agents s" "b < agents s" "a \<noteq> b" and t: "fin s a \<le> int t" "int t \<le> fin s b" for a b t
  proof (cases "int t = fin s a")
    case True
    then show ?thesis
      using apart [OF ab, of "p b t" "int t"] walkedD(2,3) [OF P ab(2) t(2)] walkedD(3,4) [OF P ab(1), of t] by fastforce
  next
    case False
    have cf: "cost_function s = 2"
      using False t enc_readyD(8) [OF R] by (auto simp: cfg_fin_def)
    have g: "last_time s (max_timestep s) a (goal_id (inst s) a) = fin s a"
      using ready_ends(4) [OF R ab(1)] by (simp add: time_cfg)
    have "cnf_true I (none_at_goal_clauses s)" using C cf by (simp add: graph_cnf_true)
    then have "\<forall>a < agents s. \<forall>b < agents s. \<forall>t > last_time s (max_timestep s) a (goal_id (inst s) a). \<not> occ s I b (goal_id (inst s) a) t"
      using none_at_goal_sem [OF T ready_goal_time [OF R]] by blast
    moreover have "last_time s (max_timestep s) a (goal_id (inst s) a) < int t" unfolding g using False t(1) by simp
    ultimately have "\<not> occ s I b (goal_id (inst s) a) (int t)" using ab(1,2) by blast
    then show ?thesis using walkedD(3) [OF P ab(2) t(2)] by metis
  qed
  consider "int t \<le> fin s a" "int t \<le> fin s b" | "fin s a \<le> int t" "int t \<le> fin s b" | "fin s b \<le> int t" "int t \<le> fin s a"
    | "fin s a \<le> int t" "fin s b \<le> int t" by linarith
  then show ?thesis
  proof cases
    case 1
    then show ?thesis using apart [OF ab, of "p a t" "int t"] walkedD(2,3) [OF P] ab by metis
  next
    case 2
    then show ?thesis using arrived [OF ab] walkedD(4) [OF P ab(1)] by metis
  next
    case 3
    then show ?thesis using arrived [OF ab(2,1) ab(3) [symmetric]] walkedD(4) [OF P ab(2)] by metis
  next
    case 4
    have g: "p a t = goal_id (inst s) a" "p b t = goal_id (inst s) b" using walkedD(4) [OF P] ab 4 by blast+
    show ?thesis
    proof (cases "fin s a \<le> fin s b")
      case True
      have "p b (nat (fin s b)) = goal_id (inst s) b" using walkedD(4) [OF P ab(2)] by simp
      then show ?thesis using arrived [OF ab, of "nat (fin s b)"] True ready_ends(7) [OF R ab(2)] g by simp
    next
      case False
      have "p a (nat (fin s a)) = goal_id (inst s) a" using walkedD(4) [OF P ab(1)] by simp
      then show ?thesis using arrived [OF ab(2,1) ab(3) [symmetric], of "nat (fin s a)"] False ready_ends(7) [OF R ab(1)] g by simp
    qed
  qed
qed

lemma walked_swap_free:
  assumes R: "enc_ready s lo hi" and v2: "variables s = 2" and P: "walked s I p" and C: "cnf_true I (graph_cnf s)"
    and ab: "a < agents s" "b < agents s" "a < b"
  shows "\<not> (p a t = p b (Suc t) \<and> p a (Suc t) = p b t)"
proof
  assume sw: "p a t = p b (Suc t) \<and> p a (Suc t) = p b t"
  have ne: "p a k \<noteq> p b k" for k using walked_apart [OF R P C ab(1,2)] ab(3) by simp
  have "int t < fin s a" using walkedD(4) [OF P ab(1), of t] walkedD(4) [OF P ab(1), of "Suc t"] sw ne [of t] by fastforce
  moreover have "int t < fin s b" using walkedD(4) [OF P ab(2), of t] walkedD(4) [OF P ab(2), of "Suc t"] sw ne [of t] by fastforce
  ultimately obtain d e where d: "d < 5" "has_nb s (p a t) d" "nb s (p a t) d = p b t" "passes s I a (p a t) d (int t)"
    and e: "e < 5" "has_nb s (p b t) e" "nb s (p b t) e = p a t" "passes s I b (p b t) e (int t)"
    and v: "p a t < vertices s"
    using walkedD(2,5) [OF P ab(1), of t] walkedD(5) [OF P ab(2), of t] sw by auto
  obtain mid where T: "pass_table s (max_timestep s) mid hi" using ready_pass [OF R v2] by blast
  have "e = opp d" using nb_opp [OF R v d(1,2), of e] e d(3) by simp
  moreover have "1 \<le> d"
  proof -
    have "p b t \<noteq> p a t" using ne by metis
    then obtain d' where "d' < 5" "has_nb s (p a t) d'" "nb s (p a t) d' = p b t" "1 \<le> d'"
      using ready_dir [OF R v, of "p b t"] ready_nb(2) [OF R v d(1,2)] d(3) by auto
    then show ?thesis using nb_inj [OF R v d(1,2)] d(3) by metis
  qed
  moreover have "cnf_true I (conf_swapping_pass_clauses s)" using C by (simp add: graph_cnf_true)
  moreover have "\<not> (passes s I a (p a t) d (int t) \<and> passes s I b (nb s (p a t) d) (opp d) (int t))"
    if "1 \<le> d"
  proof -
    have "d \<in> {1..<5}" "b \<in> {a + 1..<agents s}" using that d(1) ab by simp_all
    then show ?thesis
      using \<open>cnf_true I (conf_swapping_pass_clauses s)\<close> ab(1) v d(2) unfolding conf_swapping_pass_sem [OF T enc_readyD(7) [OF R]] by blast
  qed
  ultimately show False using d(3,4) e(4) by simp
qed

lemma walked_solution:
  assumes R: "enc_ready s lo hi" and v2: "variables s = 2" and mv: "movement s = 1" and P: "walked s I p"
    and C: "cnf_true I (graph_cnf s)" and D: "dup_meaning s I" "cost_meaning s I"
  shows "solution (inst s) (agents s) (movement s) (cost_function s) (cost_bound s) p"
proof -
  have "\<not> (p a t = p b (Suc t) \<and> p a (Suc t) = p b t)" if "a < agents s" "b < agents s" "a \<noteq> b" for a b t
    using walked_swap_free [OF R v2 P C, of a b t] walked_swap_free [OF R v2 P C, of b a t] that by (metis nat_neq_iff)
  then have "collision_free (movement s) (agents s) p"
    unfolding collision_free_def mv using walked_apart [OF R P C] by simp
  moreover have "kept_by s I p" using P by (simp add: walked_def)
  ultimately show ?thesis
    unfolding solution_def using walked_on_map [OF R P] kept_within_cost [OF R _ D] by blast
qed

section \<open>A solution gives a model\<close>

lemma edge_tables_grow:
  "pass_table s n lo hi \<Longrightarrow> hi \<le> hi' \<Longrightarrow> pass_table s n lo hi'"
  "shift_table s n lo hi \<Longrightarrow> hi \<le> hi' \<Longrightarrow> shift_table s n lo hi'"
  unfolding pass_table_def shift_table_def by (elim conjE; intro conjI; (assumption | fastforce))+

lemma enc_ready_grow: "enc_ready s lo hi \<Longrightarrow> hi \<le> hi' \<Longrightarrow> enc_ready s lo hi'"
  unfolding enc_ready_def using edge_tables_grow by (meson order_trans)

lemma walk_reaches:
  assumes R: "enc_ready s lo hi" and v2: "variables s = 2" and W: "walk_meaning s I"
  shows "agents_reach s I"
  unfolding agents_reach_def
proof (intro allI impI)
  fix a assume a: "a < agents s"
  let ?T = "nat (fin s a)"
  have T: "int ?T = fin s a" using ready_ends(7) [OF R a] by simp
  note o = decode_occ [OF R W a]
  have g: "decode s I a ?T = goal_id (inst s) a" using decode_goal [OF R W a, of ?T] T by simp
  have "open_walk s I a ?T (decode s I a)"
    unfolding open_walk_def
  proof (intro conjI allI impI)
    fix t assume "t < ?T"
    then have t: "int t \<le> fin s a" "int t < fin s a" using T by linarith+
    show "decode s I a t < vertices s" "occ s I a (decode s I a t) (int t)" using o [OF t(1)] by blast+
    obtain d where "d < 5" "has_nb s (decode s I a t) d" "goes s I a (decode s I a t) d (int t)"
      "decode s I a (Suc t) = nb s (decode s I a t) d"
      using decode_next [OF R W a] o [OF t(1)] t(2) by blast
    then show "\<exists>dir < 5. has_nb s (decode s I a t) dir \<and> nb s (decode s I a t) dir = decode s I a (t + 1) \<and>
        passes s I a (decode s I a t) dir (int t)"
      using v2 by (intro exI [of _ d]) (simp add: goes_def by_kind_def)
  qed simp
  moreover have "occ s I a (goal_id (inst s) a) (fin s a)" using o [of ?T] g T by simp
  ultimately show "\<exists>w. open_walk s I a ?T w \<and> w ?T = goal_id (inst s) a \<and> occ s I a (goal_id (inst s) a) (fin s a)"
    using g by blast
qed

text \<open>The literals from \<open>hi\<close> on name the reachability constraints.\<close>

lemma solution_graph_model:
  assumes R: "enc_ready s lo hi" and v2: "variables s = 2" and mv: "movement s = 1" and enc: "amk_ok enc" and l: "hi \<le> l"
    and sol: "solution (inst s) (agents s) (movement s) (cost_function s) (cost_bound s) p"
  shows "\<exists>J. agents_reach s J \<and> cnf_true J (graph_cnf s) \<and> (\<forall>x \<in> {hi..<l}. J x) \<and>
    cnf_true J (fst (dup_cnf enc l s)) \<and> cnf_true J (fst (cost_cnf enc (snd (dup_cnf enc l s)) s))"
proof -
  note S = solution_model(1) [OF R enc sol]
  obtain J0 where J0: "base_true enc hi s J0" "reads s J0 p" using solution_model(2) [OF R enc sol] by blast
  let ?I = "\<lambda>x. if x < hi then J0 x else True"
  have I: "reads s ?I p" by (rule reads_agree [OF R J0(2)]) simp
  note R' = enc_ready_grow [OF R l]
  have "cost_meaning s J0" using base_sound(3) [OF R enc J0(1)] .
  then have cost: "cost_meaning s ?I"
    using cost_meaning_cong [OF R, of ?I J0] readsD(1) [OF I] readsD(1) [OF J0(2)] by simp
  have "\<exists>J. base_true enc l s J \<and> (reads s J p \<and> (\<forall>x \<in> {hi..<l}. J x))"
  proof (rule base_complete [OF R' enc settles_dup [OF R S I] cost])
    fix J assume eq: "\<forall>x < l. J x = ?I x"
    then have J: "reads s J p" by (intro reads_agree [OF R' I])
    show "walk_meaning s J \<and> reads s J p \<and> (\<forall>x \<in> {hi..<l}. J x)"
      using settles_positions [OF R S J] settles_moves [OF R S J] J eq by (simp add: walk_meaning_def)
  qed
  then obtain J where J: "base_true enc l s J" "reads s J p" "\<forall>x \<in> {hi..<l}. J x" by blast
  have W: "walk_meaning s J" using J(1) by (simp add: base_true_def)
  have "cnf_true J (graph_cnf s)"
    using settles_conflicts [OF R S J(2)] settles_positions [OF R S J(2)] mv v2
    by (simp add: graph_cnf_true eager_cnf_def by_kind_def positions_cnf_def split: if_splits)
  then show ?thesis using walk_reaches [OF R v2 W] J by (auto simp: base_true_def)
qed

section \<open>What is printed\<close>

text \<open>The file of Monosat: clauses, and the literals that stand for reachability in a graph.\<close>

definition monosat_true :: "assignment \<Rightarrow> cnf_line list \<Rightarrow> bool" where
  "monosat_true I ls \<longleftrightarrow>
     (\<forall>c. ClauseLine c \<in> set ls \<longrightarrow> clause_true I c) \<and>
     (\<forall>g n m x. ReachLine g n m x \<in> set ls \<longrightarrow> (I x \<longleftrightarrow> (n, m) \<in> (open_edges I g ls)\<^sup>*))"

lemma graph_pass_members:
  "EdgeLine g n m x \<in> set (graph_pass_lines s a lit) \<Longrightarrow> g = a"
  "ReachLine g n m x \<in> set (graph_pass_lines s a lit) \<longleftrightarrow> ReachLine g n m x = last (graph_pass_lines s a lit)"
  "ClauseLine c \<notin> set (graph_pass_lines s a lit)"
proof -
  obtain num where lines: "graph_pass_lines s a lit =
     DigraphLine a #
     map (\<lambda>(v, t). EdgeLine a (num (at_var s a v t)) (num (- at_var s a v t)) (at_var s a v t)) (vertex_keys s a) @
     map (\<lambda>(v, dir, t). EdgeLine a (num (- at_var s a v t)) (num (at_var s a (nb s v dir) (t + 1))) (pass_var s a v dir t)) (pass_keys s a) @
     [ReachLine a (num (start_key s a)) (num (goal_key s a)) lit]" using graph_pass_numbered by blast
  show "EdgeLine g n m x \<in> set (graph_pass_lines s a lit) \<Longrightarrow> g = a"
    "ReachLine g n m x \<in> set (graph_pass_lines s a lit) \<longleftrightarrow> ReachLine g n m x = last (graph_pass_lines s a lit)"
    "ClauseLine c \<notin> set (graph_pass_lines s a lit)"
    unfolding lines by auto
qed

text \<open>The graphs of all agents, each with the unit clause of its literal.\<close>

definition graphs_lines :: "solver \<Rightarrow> int \<Rightarrow> nat \<Rightarrow> cnf_line list" where
  "graphs_lines s lit n = concat (map (\<lambda>a. graph_pass_lines s a (lit + int a) @ [ClauseLine [lit + int a]]) [0..<n])"

lemma graphs_members:
  "EdgeLine g n m x \<in> set (graphs_lines s lit k) \<longleftrightarrow> g < k \<and> EdgeLine g n m x \<in> set (graph_pass_lines s g (lit + int g))"
  "ReachLine g n m x \<in> set (graphs_lines s lit k) \<longleftrightarrow> g < k \<and> ReachLine g n m x = last (graph_pass_lines s g (lit + int g))"
  "ClauseLine c \<in> set (graphs_lines s lit k) \<longleftrightarrow> (\<exists>a < k. c = [lit + int a])"
proof -
  have r: "ReachLine g n m x = last (graph_pass_lines s a l) \<Longrightarrow> g = a" for a l
  proof -
    obtain num where "last (graph_pass_lines s a l) = ReachLine a (num (start_key s a)) (num (goal_key s a)) l"
      using graph_pass_numbered [of s a l] by fastforce
    then show "ReachLine g n m x = last (graph_pass_lines s a l) \<Longrightarrow> g = a" by simp
  qed
  have mem: "l \<in> set (graphs_lines s lit k) \<longleftrightarrow>
      (\<exists>a < k. l \<in> set (graph_pass_lines s a (lit + int a)) \<or> l = ClauseLine [lit + int a])" for l
    unfolding graphs_lines_def by fastforce
  show "EdgeLine g n m x \<in> set (graphs_lines s lit k) \<longleftrightarrow> g < k \<and> EdgeLine g n m x \<in> set (graph_pass_lines s g (lit + int g))"
    by (auto simp: mem dest: graph_pass_members(1))
  show "ReachLine g n m x \<in> set (graphs_lines s lit k) \<longleftrightarrow> g < k \<and> ReachLine g n m x = last (graph_pass_lines s g (lit + int g))"
    by (auto simp: mem graph_pass_members(2) dest: r)
  show "ClauseLine c \<in> set (graphs_lines s lit k) \<longleftrightarrow> (\<exists>a < k. c = [lit + int a])"
    by (auto simp: mem graph_pass_members(3))
qed

lemma monosat_graphs:
  assumes R: "enc_ready s lo hi" and v2: "variables s = 2" and pos: "0 < lit"
  shows "monosat_true I (graphs_lines s lit (agents s) @ map ClauseLine F) \<longleftrightarrow>
    cnf_true I F \<and> (\<forall>a < agents s. I (lit + int a)) \<and> agents_reach s I"
proof -
  let ?ls = "graphs_lines s lit (agents s) @ map ClauseLine F"
  have edges: "open_edges I a ?ls = open_edges I a (graph_pass_lines s a (lit + int a))" if "a < agents s" for a
    using that by (auto simp: open_edges_def graphs_members(1))
  have unit: "clause_true I [lit + int a] \<longleftrightarrow> I (lit + int a)" for a using pos by (simp add: lit_true_pos)
  have "(\<forall>c. ClauseLine c \<in> set ?ls \<longrightarrow> clause_true I c) \<longleftrightarrow> cnf_true I F \<and> (\<forall>a < agents s. I (lit + int a))"
    by (auto simp: graphs_members(3) cnf_true_def unit simp del: clause_true_Cons)
  moreover have "(\<forall>g n m x. ReachLine g n m x \<in> set ?ls \<longrightarrow> (I x \<longleftrightarrow> (n, m) \<in> (open_edges I g ?ls)\<^sup>*)) \<longleftrightarrow>
      (\<forall>a < agents s. I (lit + int a) \<longleftrightarrow> (\<exists>w. open_walk s I a (nat (fin s a)) w \<and> w (nat (fin s a)) = goal_id (inst s) a \<and>
        occ s I a (goal_id (inst s) a) (fin s a)))" (is "?l \<longleftrightarrow> ?r")
  proof -
    have one: "(\<forall>n m x. ReachLine a n m x \<in> set ?ls \<longrightarrow> (I x \<longleftrightarrow> (n, m) \<in> (open_edges I a ?ls)\<^sup>*)) \<longleftrightarrow>
        (I (lit + int a) \<longleftrightarrow> (\<exists>w. open_walk s I a (nat (fin s a)) w \<and> w (nat (fin s a)) = goal_id (inst s) a \<and>
          occ s I a (goal_id (inst s) a) (fin s a)))" if a: "a < agents s" for a
    proof -
      obtain n m where nm: "last (graph_pass_lines s a (lit + int a)) = ReachLine a n m (lit + int a)"
        "(n, m) \<in> (open_edges I a (graph_pass_lines s a (lit + int a)))\<^sup>* \<longleftrightarrow>
         (\<exists>T w. int T = last_timestep (AT s a (goal_id (inst s) a)) \<and> open_walk s I a T w \<and> w T = goal_id (inst s) a \<and>
            occ s I a (goal_id (inst s) a) (int T))" using graph_reaches [OF R v2 a] by blast
      have "last_timestep (AT s a (goal_id (inst s) a)) = int (nat (fin s a))"
        using goal_last(2) [OF R a] ready_ends(7) [OF R a] by simp
      moreover have "int (nat (fin s a)) = fin s a" using ready_ends(7) [OF R a] by simp
      ultimately have "(n, m) \<in> (open_edges I a (graph_pass_lines s a (lit + int a)))\<^sup>* \<longleftrightarrow>
         (\<exists>w. open_walk s I a (nat (fin s a)) w \<and> w (nat (fin s a)) = goal_id (inst s) a \<and>
            occ s I a (goal_id (inst s) a) (fin s a))" unfolding nm(2) by (metis of_nat_eq_iff)
      then show ?thesis using a edges [OF a] nm(1) by (auto simp: graphs_members(2))
    qed
    have "?l \<longleftrightarrow> (\<forall>a < agents s. \<forall>n m x. ReachLine a n m x \<in> set ?ls \<longrightarrow> (I x \<longleftrightarrow> (n, m) \<in> (open_edges I a ?ls)\<^sup>*))"
      by (auto simp: graphs_members(2))
    then show ?thesis using one by blast
  qed
  ultimately show ?thesis unfolding monosat_true_def agents_reach_def by blast
qed

end
