(* ===== verification/Monosat_Formula.thy ===== *)
theory Monosat_Formula
  imports Monosat_Correct Sat_Contract
begin

text \<open>
  What \<open>CreateFormula\<close> of the SMT back end with pass variables prints to the file that Monosat reads: the
  graphs of the agents, then the clauses. The text of earlier calls stays in front of it.
\<close>

section \<open>Printing\<close>

text \<open>\<open>prints s ls t\<close>: the state \<open>t\<close> has the view of \<open>s\<close> and the lines \<open>ls\<close> were printed.\<close>

definition prints :: "solver \<Rightarrow> cnf_line list \<Rightarrow> solver \<Rightarrow> bool" where
  "prints s ls t \<longleftrightarrow> view t = view s \<and> cnf_printable t = cnf_printable s @ ls"

definition smt_mode :: "solver \<Rightarrow> bool" where
  "smt_mode s \<longleftrightarrow> class_of s = MAPFSAT_SMT \<and> variables s = 2 \<and> \<not> use_avoid s \<and> cnf_file s \<noteq> []"

lemma cnf_file_view: "cnf_file (view s) = cnf_file s"
  by (simp add: view_def)

lemma smt_mode_view: "view s = view t \<Longrightarrow> smt_mode s = smt_mode t"
  unfolding smt_mode_def by (metis view_fields(1,3,7) cnf_file_view)

lemma prints_refl: "prints s [] s"
  by (simp add: prints_def)

lemma prints_trans: "prints s ls t \<Longrightarrow> prints t ks u \<Longrightarrow> prints s (ls @ ks) u"
  by (simp add: prints_def)

lemma prints_mode: "prints s ls t \<Longrightarrow> smt_mode s \<Longrightarrow> smt_mode t"
  using smt_mode_view [of t s] by (simp add: prints_def)

lemma prints_one: "smt_mode s \<Longrightarrow> prints s [ClauseLine c] (bump k (AddClause c s))"
  using view_bump [of k c s] by (cases k) (simp_all add: prints_def smt_mode_def add_defs)

lemma prints_emit: "smt_mode s \<Longrightarrow> prints s (map ClauseLine F) (emit k F s)"
proof (induction F arbitrary: s)
  case Nil
  then show ?case by (simp add: prints_refl)
next
  case (Cons c F)
  note one = prints_one [OF Cons.prems, of c k]
  show ?case using prints_trans [OF one Cons.IH [OF prints_mode [OF one Cons.prems]]] by (simp add: emit_Cons)
qed

lemma prints_print: "smt_mode s \<Longrightarrow> prints s ls (print_lines ls s)"
  by (simp add: prints_def print_lines_def smt_mode_def view_def)

lemma prints_op:
  assumes "prints s (map ClauseLine F) t" "smt_mode s" "\<And>x. C (view x) = C x"
  shows "prints s (map ClauseLine (F @ C (view s))) (emit k (C t) t)"
proof -
  have "C t = C (view s)" using assms(1,3) by (metis prints_def)
  then show ?thesis using prints_trans [OF assms(1) prints_emit [OF prints_mode [OF assms(1,2)]], of "C t" k] by simp
qed

lemmas prints_first = prints_op [where F = "[]", unfolded list.map append_Nil, OF prints_refl]

lemma check_time_prints:
  assumes "check_time clk b l s = (False, s')"
  shows "prints s [] s'"
proof -
  have "s' = snd (now clk s)" using assms by (auto simp: check_time_def TimesUp_def now_def split: if_splits)
  then show ?thesis using view_now [of clk s] by (simp add: prints_def now_def)
qed

definition stage_prints :: "stage \<Rightarrow> (int \<Rightarrow> solver \<Rightarrow> cnf \<times> int) \<Rightarrow> bool" where
  "stage_prints f G \<longleftrightarrow>
     (\<forall>lit s. smt_mode s \<longrightarrow>
        fst (f lit s) = snd (G lit (view s)) \<and> prints s (map ClauseLine (fst (G lit (view s)))) (snd (f lit s)))"

lemma run_stages_prints:
  "list_all2 stage_prints fs Gs \<Longrightarrow> smt_mode s \<Longrightarrow>
   run_stages clk b l fs lit s = (Some lit', s') \<Longrightarrow>
   lit' = snd (stages_formula Gs lit (view s)) \<and> prints s (map ClauseLine (fst (stages_formula Gs lit (view s)))) s'"
proof (induction fs arbitrary: Gs lit s)
  case Nil
  then show ?case by (simp add: prints_refl)
next
  case (Cons f fs)
  obtain G Gs' where Gs: "Gs = G # Gs'" "stage_prints f G" "list_all2 stage_prints fs Gs'"
    using Cons.prems(1) by (auto simp: list_all2_Cons1)
  obtain lit1 s1 where f: "f lit s = (lit1, s1)" by fastforce
  obtain up s2 where c: "check_time clk b l s1 = (up, s2)" by fastforce
  have up: "\<not> up" and rest: "run_stages clk b l fs lit1 s2 = (Some lit', s')"
    using Cons.prems(3) f c by (auto split: if_splits)
  have 1: "lit1 = snd (G lit (view s))" "prints s (map ClauseLine (fst (G lit (view s)))) s1"
    using Gs(2) Cons.prems(2) f unfolding stage_prints_def by (metis fst_conv snd_conv)+
  have 2: "prints s (map ClauseLine (fst (G lit (view s)))) s2"
    using prints_trans [OF 1(2) check_time_prints [of clk b l s1 s2]] c up by simp
  then have v: "view s2 = view s" by (simp add: prints_def)
  note IH = Cons.IH [OF Gs(3) prints_mode [OF 2 Cons.prems(2)] rest]
  show ?case using prints_trans [OF 2 conjunct2 [OF IH]] IH v 1(1) Gs(1) by (simp add: case_prod_beta Let_def)
qed

section \<open>The stages\<close>

definition smt_stages :: "amk_encoder \<Rightarrow> (int \<Rightarrow> solver \<Rightarrow> cnf \<times> int) list" where
  "smt_stages enc =
     [\<lambda>l s. (if cost_function s = 2 then none_at_goal_clauses s else [], l),
      \<lambda>l s. (conf_vertex_clauses s @ conf_swapping_pass_clauses s, l),
      \<lambda>l s. ((conf_vertex_clauses s @ conf_swapping_pass_clauses s) @ fst (dup_cnf enc l s), snd (dup_cnf enc l s)),
      cost_cnf enc, \<lambda>l s. ([], l)]"

lemma conflict_prints:
  assumes "smt_mode s"
  shows "prints s (map ClauseLine (conf_vertex_clauses (view s) @ conf_swapping_pass_clauses (view s)))
    (CreateConf_Swapping_Pass (CreateConf_Vertex s))"
proof -
  have "prints s (map ClauseLine (conf_vertex_clauses (view s))) (CreateConf_Vertex s)"
    unfolding CreateConf_Vertex_def by (rule prints_first [where C = conf_vertex_clauses, OF assms view_clauses(1)])
  then show ?thesis
    unfolding CreateConf_Swapping_Pass_def by (rule prints_op [where C = conf_swapping_pass_clauses, OF _ assms view_clauses(3)])
qed

lemma smt_moves_prints:
  assumes s: "smt_mode s"
  shows "fst (smt_moves enc lit s) = snd (dup_cnf enc lit (view s)) \<and>
    prints s (map ClauseLine ((conf_vertex_clauses (view s) @ conf_swapping_pass_clauses (view s)) @ fst (dup_cnf enc lit (view s))))
      (snd (smt_moves enc lit s))"
proof -
  let ?t = "CreateConf_Swapping_Pass (CreateConf_Vertex s)"
  note 1 = conflict_prints [OF s]
  have v: "view ?t = view s" using 1 by (simp add: prints_def)
  have d: "duplicates ?t = duplicates s" using v by (metis view_fields(8))
  have n: "no_duplicates enc lit ?t = no_duplicates enc lit (view s)" using v by (metis view_gadgets(1))
  have "prints s (map ClauseLine ((conf_vertex_clauses (view s) @ conf_swapping_pass_clauses (view s)) @ F)) (emit Dupli F ?t)" for F
    using prints_op [where C = "\<lambda>_. F", OF 1 s] by simp
  then show ?thesis
    using 1 s d n
    by (simp add: smt_moves_def dup_cnf_def smt_mode_def CreateMove_NoDuplicates_def case_prod_beta Let_def)
qed

lemma smt_stages_prints:
  "list_all2 stage_prints [smt_positions, smt_conflicts, smt_moves enc, smt_cost enc, smt_avoids] (smt_stages enc)"
proof -
  have "stage_prints smt_positions (\<lambda>l s. (if cost_function s = 2 then none_at_goal_clauses s else [], l))"
    using prints_first [where C = none_at_goal_clauses, OF _ view_walk_clauses(3)]
    by (simp add: stage_prints_def smt_positions_def smt_mode_def CreatePossition_NoneAtGoal_def prints_refl)
  moreover have "stage_prints smt_conflicts (\<lambda>l s. (conf_vertex_clauses s @ conf_swapping_pass_clauses s, l))"
    using conflict_prints by (simp add: stage_prints_def smt_conflicts_def smt_mode_def)
  moreover have "stage_prints (smt_moves enc)
      (\<lambda>l s. ((conf_vertex_clauses s @ conf_swapping_pass_clauses s) @ fst (dup_cnf enc l s), snd (dup_cnf enc l s)))"
    using smt_moves_prints by (simp add: stage_prints_def)
  moreover have "stage_prints (smt_cost enc) (cost_cnf enc)"
    using prints_emit
    by (simp add: stage_prints_def smt_cost_def cost_cnf_def smt_mode_def CreateConst_LimitSoc_def
        CreateConst_LimitSoc_AllAt_def view_gadgets case_prod_beta Let_def prints_refl)
  moreover have "stage_prints smt_avoids (\<lambda>l s. ([], l))"
    by (simp add: stage_prints_def smt_avoids_def smt_mode_def prints_refl)
  ultimately show ?thesis by (simp add: smt_stages_def)
qed

section \<open>The graphs\<close>

lemma graph_lines_view: "graph_pass_lines (view s) = graph_pass_lines s"
proof -
  have e: "vertex_edge (view s) = vertex_edge s" "pass_edge (view s) = pass_edge s"
    "vertex_keys (view s) = vertex_keys s" "pass_keys (view s) = pass_keys s"
    unfolding vertex_edge_def pass_edge_def vertex_keys_def pass_keys_def view_fields view_tables by (rule refl)+
  show ?thesis unfolding graph_pass_lines_def e view_fields view_tables by (rule refl)
qed

lemma graphs_prints:
  assumes s: "smt_mode s"
  shows "fst (CreateMove_Graph_MonosatPass lit s) = lit + int (agents s)"
    and "prints s (graphs_lines s lit (agents s)) (snd (CreateMove_Graph_MonosatPass lit s))"
proof -
  let ?f = "\<lambda>a (lit, s). (lit + 1, emit Unit [[lit]] (print_lines (graph_pass_lines s a lit) s))"
  have "fst (fold ?f [0..<n] (lit, s)) = lit + int n \<and> prints s (graphs_lines s lit n) (snd (fold ?f [0..<n] (lit, s)))" for n
  proof (induction n)
    case 0
    then show ?case by (simp add: graphs_lines_def prints_refl)
  next
    case (Suc n)
    obtain u where r: "fold ?f [0..<n] (lit, s) = (lit + int n, u)" "prints s (graphs_lines s lit n) u"
      using Suc by (cases "fold ?f [0..<n] (lit, s)") auto
    have g: "graph_pass_lines u = graph_pass_lines s"
      using r(2) graph_lines_view [of s] graph_lines_view [of u] by (simp add: prints_def)
    note p = prints_print [OF prints_mode [OF r(2) s], of "graph_pass_lines s n (lit + int n)"]
    note q = prints_emit [OF prints_mode [OF p prints_mode [OF r(2) s]], of "[[lit + int n]]" Unit]
    have "prints s (graphs_lines s lit n @ graph_pass_lines s n (lit + int n) @ map ClauseLine [[lit + int n]])
        (emit Unit [[lit + int n]] (print_lines (graph_pass_lines s n (lit + int n)) u))"
      by (rule prints_trans [OF r(2) prints_trans [OF p q]])
    then show ?case using r(1) g by (simp add: graphs_lines_def)
  qed
  then show "fst (CreateMove_Graph_MonosatPass lit s) = lit + int (agents s)"
    and "prints s (graphs_lines s lit (agents s)) (snd (CreateMove_Graph_MonosatPass lit s))"
    unfolding CreateMove_Graph_MonosatPass_def by blast+
qed

text \<open>The variables of a formula for Monosat are numbered from 1 on.\<close>

definition smt_tables :: "solver \<Rightarrow> int \<times> solver" where
  "smt_tables s = make_variables (GetMksLB (inst s) (agents s) + delta s) 1 (view s)"

lemma make_variables_printable: "cnf_printable (snd (make_variables n l s)) = cnf_printable s"
  by (simp add: make_variables_eq by_kind_def)

lemma smt_tables_frame:
  "inst (snd (smt_tables s)) = inst s" "agents (snd (smt_tables s)) = agents s" "variables (snd (smt_tables s)) = variables s"
  "class_of (snd (smt_tables s)) = class_of s" "cost_function (snd (smt_tables s)) = cost_function s"
  "movement (snd (smt_tables s)) = movement s" "delta (snd (smt_tables s)) = delta s" 
  "use_avoid (snd (smt_tables s)) = use_avoid s" "cnf_file (snd (smt_tables s)) = cnf_file s"
  by (simp_all add: smt_tables_def make_variables_eq by_kind_def cnf_file_view)

text \<open>What the call leaves in the file.\<close>

definition smt_lines :: "amk_encoder \<Rightarrow> solver \<Rightarrow> cnf_line list" where
  "smt_lines enc s =
     (let (l, V) = smt_tables s in
      graphs_lines V l (agents s) @ map ClauseLine (fst (stages_formula (smt_stages enc) (l + int (agents s)) V)))"

lemma smt_run:
  assumes s: "smt_mode s"
    and run: "run_stages clk b lim [smt_variables (GetMksLB (inst s) (agents s) + delta s), smt_positions, smt_conflicts,
      smt_moves enc, smt_cost enc, smt_avoids] 1 (snd (now clk s)) = (Some l, t)"
  shows "cnf_printable t = cnf_printable s @ smt_lines enc s" "view t = view (snd (smt_tables s))"
    "l = snd (stages_formula (smt_stages enc) (fst (smt_tables s) + int (agents s)) (snd (smt_tables s)))"
proof -
  let ?n = "GetMksLB (inst s) (agents s) + delta s"
  let ?rest = "[smt_positions, smt_conflicts, smt_moves enc, smt_cost enc, smt_avoids]"
  let ?s0 = "snd (now clk s)"
  have s0: "view ?s0 = view s" "cnf_printable ?s0 = cnf_printable s" "variables ?s0 = 2"
    using view_now [of clk s] s by (simp_all add: now_def smt_mode_def)
  obtain l1 V where V: "smt_tables s = (l1, V)" by fastforce
  let ?m = "make_variables ?n 1 ?s0"
  have m: "fst ?m = l1" "view (snd ?m) = V" "cnf_printable (snd ?m) = cnf_printable s"
    using make_variables_view(1,2) [OF s0(1), of ?n 1] V make_variables_printable [of ?n 1 ?s0] s0(2)
    by (simp_all add: smt_tables_def)
  have vV: "view V = V" using m(2) view_idem [of "snd ?m"] by simp
  have ag: "agents (snd ?m) = agents s" "smt_mode (snd ?m)"
    using m(2) smt_tables_frame [of s] V s smt_mode_view [of "snd ?m" V] vV view_fields(9) [of "snd ?m"]
    by (simp_all add: smt_mode_def)
  let ?g = "CreateMove_Graph_MonosatPass l1 (snd ?m)"
  have g: "fst ?g = l1 + int (agents s)" "prints (snd ?m) (graphs_lines V l1 (agents s)) (snd ?g)"
    using graphs_prints [OF ag(2), of l1] ag(1) graph_lines_view [of "snd ?m"] m(2) by (simp_all add: graphs_lines_def)
  have first: "smt_variables ?n 1 ?s0 = ?g"
    using s0(3) m(1) by (simp add: smt_variables_def make_variables_def by_kind_def case_prod_beta Let_def)
  obtain up s1 where c: "check_time clk b lim (snd ?g) = (up, s1)" by fastforce
  have up: "\<not> up" and rest: "run_stages clk b lim ?rest (fst ?g) s1 = (Some l, t)"
    using run c unfolding run_stages.simps(2) first by (auto simp: case_prod_beta split: if_splits)
  have p1: "prints (snd ?m) (graphs_lines V l1 (agents s)) s1"
    using prints_trans [OF g(2) check_time_prints [of clk b lim "snd ?g" s1]] c up by simp
  have v1: "view s1 = V" using p1 m(2) by (simp add: prints_def)
  note r = run_stages_prints [OF smt_stages_prints prints_mode [OF p1 ag(2)] rest]
  from prints_trans [OF p1 conjunct2 [OF r]] r
  show "cnf_printable t = cnf_printable s @ smt_lines enc s" "view t = view (snd (smt_tables s))"
    "l = snd (stages_formula (smt_stages enc) (fst (smt_tables s) + int (agents s)) (snd (smt_tables s)))"
    using m(2,3) V v1 vV g(1) by (simp_all add: prints_def smt_lines_def)
qed

lemma CreateFormula_SMT_cases:
  assumes "CreateFormula_SMT enc clk lim s = (l, t)"
  obtains "l = -1"
  | "run_stages clk (clk (clock_reads s)) lim [smt_variables (GetMksLB (inst s) (agents s) + delta s), smt_positions,
      smt_conflicts, smt_moves enc, smt_cost enc, smt_avoids] 1 (snd (now clk s)) = (Some l, t)"
  using assms by (auto simp: CreateFormula_SMT_def Let_def now_def simp del: run_stages.simps split: prod.splits option.splits)

lemma CreateFormula_SMT_prints:
  assumes "smt_mode s" "CreateFormula_SMT enc clk lim s = (l, t)" "l \<noteq> -1"
  shows "cnf_printable t = cnf_printable s @ smt_lines enc s" "view t = view (snd (smt_tables s))"
proof -
  show "cnf_printable t = cnf_printable s @ smt_lines enc s" "view t = view (snd (smt_tables s))"
    using CreateFormula_SMT_cases [OF assms(2)] smt_run(1,2) [OF assms(1)] assms(3) by metis+
qed

text \<open>With a clock that stands still the call does not run out of time.\<close>

lemma run_stages_still: "\<exists>x t. run_stages (\<lambda>_. 0) 0 0 fs lit s = (Some x, t)"
proof (induction fs arbitrary: lit s)
  case (Cons f fs)
  obtain l1 s1 where f: "f lit s = (l1, s1)" by fastforce
  have "check_time (\<lambda>_. 0) 0 0 s1 = (False, snd (now (\<lambda>_. 0) s1))"
    by (simp add: check_time_def TimesUp_def now_def millis_def)
  then show ?case using f Cons [of l1 "snd (now (\<lambda>_. 0) s1)"] by simp
qed simp

section \<open>Correctness\<close>

definition smt_setting :: "solver \<Rightarrow> bool" where
  "smt_setting s \<longleftrightarrow>
     smt_mode s \<and> prepared (inst s) (agents s) \<and> (\<forall>a < agents s. 0 \<le> SP_lengths (inst s) ! a) \<and>
     vertices s = number_of_vertices (inst s) \<and> 0 \<le> delta s \<and>
     movement s = 1 \<and> lazy_const s = 1 \<and> cost_function s \<in> {1, 2} \<and> duplicates s \<in> {1, 2}"

lemma smt_tables_ready:
  assumes "smt_setting s"
  shows "enc_ready (snd (smt_tables s)) 1 (fst (smt_tables s))"
proof -
  let ?s = "s\<lparr>class_of := MAPFSAT_SAT, nr_vars := 1\<rparr>"
  have "sat_setting ?s"
    using assms by (simp add: smt_setting_def smt_mode_def sat_setting_def sat_mode_def prepared_def)
  from var_state_ready [OF this] have R: "enc_ready (var_state ?s) 1 (var_next ?s)" by simp
  let ?n = "GetMksLB (inst s) (agents s) + delta s"
  have e: "has_nb ?s = has_nb s" "nb ?s = nb s" "first_time ?s = first_time s" "last_time ?s = last_time s"
    "vertices ?s = vertices s" "agents ?s = agents s"
    by (simp_all add: fun_eq_iff has_nb_def nb_def first_time_def last_time_def)
  have rows: "at_rows (view ?s) = at_rows (view s)" "pass_rows (view ?s) = pass_rows (view s)"
    unfolding rows_view at_rows_def create_at_cell_def pass_rows_def create_pass_cell_def e by (rule refl)+
  have v: "variables s = 2" using assms by (simp add: smt_setting_def smt_mode_def)
  have "var_next ?s = fst (smt_tables s)" "same_tables (var_state ?s) (snd (smt_tables s))"
    using v by (simp_all add: var_next_def var_state_def smt_tables_def make_variables_eq by_kind_def rows same_tables_def)
  then show ?thesis using R same_ready by auto
qed

lemma smt_formula_true:
  "cnf_true I (fst (stages_formula (smt_stages enc) l s)) \<longleftrightarrow>
     cnf_true I (graph_cnf s) \<and> cnf_true I (fst (dup_cnf enc l s)) \<and>
     cnf_true I (fst (cost_cnf enc (snd (dup_cnf enc l s)) s))"
  by (auto simp: smt_stages_def graph_cnf_true case_prod_beta Let_def)

text \<open>
  The formula and the graphs have a model exactly when the instance has a solution of the cost that is
  tried.
\<close>

lemma smt_lines_solvable:
  assumes S: "smt_setting s" and enc: "amk_ok enc"
  shows "(\<exists>I. monosat_true I (smt_lines enc s)) \<longleftrightarrow>
    (\<exists>p. solution (inst s) (agents s) (movement s) (cost_function s) (cost_bound s) p)"
proof -
  obtain hi V where V: "smt_tables s = (hi, V)" by fastforce
  have R: "enc_ready V 1 hi" using smt_tables_ready [OF S] V by simp
  note frame = smt_tables_frame [of s, unfolded V snd_conv]
  have v2: "variables V = 2" "movement V = 1" "0 < hi"
    using S frame at_tableD(1,2) [OF enc_readyD(2) [OF R]] by (simp_all add: smt_setting_def smt_mode_def)
  let ?l = "hi + int (agents V)"
  have R': "enc_ready V 1 ?l" by (rule enc_ready_grow [OF R]) simp
  have bound: "cost_bound V = cost_bound s" by (simp add: cost_bound_def frame)
  have lines: "monosat_true I (smt_lines enc s) \<longleftrightarrow>
      (cnf_true I (graph_cnf V) \<and> cnf_true I (fst (dup_cnf enc ?l V)) \<and>
       cnf_true I (fst (cost_cnf enc (snd (dup_cnf enc ?l V)) V))) \<and>
      (\<forall>a < agents V. I (hi + int a)) \<and> agents_reach V I" for I
    using monosat_graphs [OF R v2(1,3), of I] V frame(2) by (simp add: smt_lines_def smt_formula_true)
  show ?thesis
  proof
    assume "\<exists>I. monosat_true I (smt_lines enc s)"
    then obtain I where I: "cnf_true I (graph_cnf V)" "cnf_true I (fst (dup_cnf enc ?l V))"
      "cnf_true I (fst (cost_cnf enc (snd (dup_cnf enc ?l V)) V))" "agents_reach V I" unfolding lines by blast
    have "?l \<le> snd (dup_cnf enc ?l V)" using gadgetD(1) [OF dup_gadget [OF R' enc]] .
    then have "dup_meaning V I" "cost_meaning V I"
      using I gadgetD(3) [OF dup_gadget [OF R' enc]] gadgetD(3) [OF cost_gadget [OF R' enc]] by blast+
    moreover obtain p where "walked V I p" using reach_walked [OF R I(4)] by blast
    ultimately have "solution (inst V) (agents V) (movement V) (cost_function V) (cost_bound V) p"
      using walked_solution [OF R v2(1,2) _ I(1)] by blast
    then show "\<exists>p. solution (inst s) (agents s) (movement s) (cost_function s) (cost_bound s) p"
      unfolding frame bound by blast
  next
    assume "\<exists>p. solution (inst s) (agents s) (movement s) (cost_function s) (cost_bound s) p"
    then obtain p where p: "solution (inst V) (agents V) (movement V) (cost_function V) (cost_bound V) p"
      unfolding frame bound by blast
    have "hi \<le> ?l" by simp
    from solution_graph_model [OF R v2(1,2) enc this p] show "\<exists>I. monosat_true I (smt_lines enc s)"
      unfolding lines by (elim exE conjE) (rule exI, auto)
  qed
qed

lemma CreateFormula_SMT_in_time:
  assumes S: "smt_setting s" and enc: "amk_ok enc" and run: "CreateFormula_SMT enc (\<lambda>_. 0) 0 s = (l, t)"
  shows "l \<noteq> -1"
proof -
  obtain hi V where V: "smt_tables s = (hi, V)" by fastforce
  have R: "enc_ready V 1 hi" using smt_tables_ready [OF S] V by simp
  have hi: "0 < hi" using at_tableD(1,2) [OF enc_readyD(2) [OF R]] by simp
  let ?l = "hi + int (agents s)"
  have R': "enc_ready V 1 ?l" by (rule enc_ready_grow [OF R]) simp
  have 1: "?l \<le> snd (dup_cnf enc ?l V)" using gadgetD(1) [OF dup_gadget [OF R' enc]] .
  have "snd (dup_cnf enc ?l V) \<le> snd (cost_cnf enc (snd (dup_cnf enc ?l V)) V)"
    using gadgetD(1) [OF cost_gadget [OF R' enc 1]] .
  then have pos: "0 < snd (stages_formula (smt_stages enc) ?l V)"
    using 1 hi by (simp add: smt_stages_def case_prod_beta Let_def)
  obtain x u where x: "run_stages (\<lambda>_. 0) 0 0 [smt_variables (GetMksLB (inst s) (agents s) + delta s), smt_positions,
      smt_conflicts, smt_moves enc, smt_cost enc, smt_avoids] 1 (snd (now (\<lambda>_. 0) s)) = (Some x, u)"
    using run_stages_still by blast
  have "l = x" using run x by (simp add: CreateFormula_SMT_def Let_def now_def del: run_stages.simps)
  moreover have "smt_mode s" using S by (simp add: smt_setting_def)
  ultimately show ?thesis using smt_run(3) [OF _ x] V pos by simp
qed

end
