(* ===== verification/Monosat_Properties.thy ===== *)
theory Monosat_Properties
  imports Monosat_Formula Example_Runs
begin

text \<open>
  What the SMT back end with pass variables promises, and what the kept text of its file does to it.
\<close>

text \<open>
  C20. The file that the SMT back end prints for Monosat in the first round, with pass variables, has a
  model exactly when the instance has a solution of the cost that is tried. A model makes the clauses
  true, and the literal of a reachability line is true exactly when the second node can be reached from
  the first along edges of the graph whose literals are true.
\<close>

theorem CreateFormula_SMT_equisat:
  assumes "smt_setting s" "cnf_printable s = []" "amk_ok enc" "CreateFormula_SMT enc clk lim s = (l, t)" "l \<noteq> -1"
  shows "(\<exists>I. (\<forall>c. ClauseLine c \<in> set (cnf_printable t) \<longrightarrow> clause_true I c) \<and>
       (\<forall>g n m x. ReachLine g n m x \<in> set (cnf_printable t) \<longrightarrow>
          (I x \<longleftrightarrow> (n, m) \<in> {(v, w). \<exists>e. EdgeLine g v w e \<in> set (cnf_printable t) \<and> I e}\<^sup>*))) \<longleftrightarrow>
    (\<exists>p. solution (inst s) (agents s) (movement s) (cost_function s) (cost_bound s) p)"
proof -
  have "smt_mode s" using assms(1) by (simp add: smt_setting_def)
  then have "cnf_printable t = smt_lines enc s" using CreateFormula_SMT_prints(1) [OF _ assms(4,5)] assms(2) by simp
  then show ?thesis
    using smt_lines_solvable [OF assms(1,3)] unfolding monosat_true_def open_edges_def by simp
qed

lemma example_smt:
  "\<exists>s. smt_setting s \<and> cnf_printable s = [] \<and> agents s = 2 \<and>
     (\<exists>p. solution (inst s) (agents s) (movement s) (cost_function s) (cost_bound s) p)"
proof -
  obtain s where s: "sat_start s" "variables s = 2" "lazy_const s = 1" "movement s = 1" "agents s = 2" "has_solution s (cost_bound s)"
    using example_round [of 2 1] by auto
  let ?s = "s\<lparr>class_of := MAPFSAT_SMT, cnf_file := ''f'', cnf_printable := []\<rparr>"
  have "smt_setting ?s" using s by (simp add: sat_start_def sat_setting_def sat_mode_def smt_setting_def smt_mode_def)
  moreover have "cost_bound ?s = cost_bound s" by (simp add: cost_bound_def)
  ultimately show ?thesis using s(5,6) by (intro exI [of _ ?s]) (simp add: has_solution_def)
qed

lemma CreateFormula_SMT_equisat_witness:
  "\<exists>s l t I. CreateFormula_SMT naive_amk (\<lambda>_. 0) 0 s = (l, t) \<and> agents s = 2 \<and>
     (\<forall>c. ClauseLine c \<in> set (cnf_printable t) \<longrightarrow> clause_true I c)"
proof -
  obtain s p where s: "smt_setting s" "cnf_printable s = []" "agents s = 2"
    and p: "solution (inst s) (agents s) (movement s) (cost_function s) (cost_bound s) p" using example_smt by blast
  obtain l t where run: "CreateFormula_SMT naive_amk (\<lambda>_. 0) 0 s = (l, t)" by fastforce
  show ?thesis
    using CreateFormula_SMT_equisat [OF s(1,2) naive_amk_ok run CreateFormula_SMT_in_time [OF s(1) naive_amk_ok run]] p run s(3)
    by blast
qed

section \<open>The second round\<close>

text \<open>What the steps between two formulas keep.\<close>

definition keeps_lines :: "solver \<Rightarrow> solver \<Rightarrow> bool" where
  "keeps_lines s t \<longleftrightarrow> cnf_printable t = cnf_printable s \<and> lazy_const t = lazy_const s \<and> delta t = delta s \<and>
     class_of t = class_of s \<and> variables t = variables s \<and> use_avoid t = use_avoid s \<and> cnf_file t = cnf_file s"

lemma invoke_keeps_lines: "keeps_lines s (snd (InvokeSolverImplementation_SMT monosat lim s))"
  by (simp add: keeps_lines_def InvokeSolverImplementation_SMT_def read_plan_def NormalizePlan_def case_prod_beta Let_def split: option.splits)

lemma InvokeSolver_keeps_lines:
  assumes "lazy_const s = 1"
  shows "keeps_lines s (snd (InvokeSolver (InvokeSolverImplementation_SMT monosat) lim s))"
proof -
  obtain r t where i: "InvokeSolverImplementation_SMT monosat lim (before_invoke s) = (r, t)" by fastforce
  have "keeps_lines (before_invoke s) t" using invoke_keeps_lines [of "before_invoke s" monosat lim] i by simp
  then have "keeps_lines s t" by (simp add: keeps_lines_def before_invoke_def CleanUp_def Let_def split: if_splits)
  then show ?thesis using i assms by (simp add: InvokeSolver_def keeps_lines_def Let_def)
qed

lemma keeps_lines_trans: "keeps_lines s t \<Longrightarrow> keeps_lines t u \<Longrightarrow> keeps_lines s u"
  by (simp add: keeps_lines_def)

lemma steps_keep_lines:
  "keeps_lines s (snd (now clk s))" "keeps_lines s (open_round s)" "keeps_lines s (s\<lparr>nr_vars := x\<rparr>)"
  "keeps_lines s (log_round b c r s)" "keeps_lines s (snd (TimesUp b c lim s))"
  by (simp_all add: keeps_lines_def now_def open_round_def CreateSolver_def log_round_def TimesUp_def CleanUp_def
      ReleaseSolver_def Let_def split: solver_class.splits)

lemma keeps_mode: "keeps_lines s t \<Longrightarrow> smt_mode t = smt_mode s"
  by (simp add: keeps_lines_def smt_mode_def)

text \<open>A round that goes on to the next cost.\<close>

lemma next_round_lines:
  assumes create: "create left (snd (now clk (open_round s))) = (k, t)" and lazy: "lazy_const t = 1"
    and round: "solve_round create (InvokeSolverImplementation_SMT monosat) clk oneshot (s, left, bt, st) = Inr (u, rest)"
  shows "\<exists>w. keeps_lines t w \<and> u = close_round w"
proof -
  let ?start1 = "fst (now clk (open_round s))"
  obtain stop1 s3 where n1: "now clk (t\<lparr>nr_vars := k\<rparr>) = (stop1, s3)" by fastforce
  obtain up1 s4 where u1: "TimesUp ?start1 stop1 left s3 = (up1, s4)" by fastforce
  obtain start2 s5 where n2: "now clk s4 = (start2, s5)" by fastforce
  let ?left = "left - millis (stop1 - ?start1)"
  obtain res s6 where i: "InvokeSolver (InvokeSolverImplementation_SMT monosat) (?left + 100) s5 = (res, s6)" by fastforce
  obtain stop2 s7 where n3: "now clk s6 = (stop2, s7)" by fastforce
  obtain up2 s8 where u2: "TimesUp start2 stop2 ?left s7 = (up2, s8)" by fastforce
  have "keeps_lines t s3" using keeps_lines_trans [OF steps_keep_lines(3) [of t k] steps_keep_lines(1) [of _ clk]] n1 by simp
  moreover have "keeps_lines s3 s4" using steps_keep_lines(5) [of s3 ?start1 stop1 left] u1 by simp
  moreover have "keeps_lines s4 s5" using steps_keep_lines(1) [of s4 clk] n2 by simp
  ultimately have 1: "keeps_lines t s5" by (blast intro: keeps_lines_trans)
  have "keeps_lines s5 s6"
    using InvokeSolver_keeps_lines [of s5 monosat "?left + 100"] i 1 lazy by (simp add: keeps_lines_def)
  moreover have "keeps_lines s6 s7" using steps_keep_lines(1) [of s6 clk] n3 by simp
  moreover have "keeps_lines s7 s8" using steps_keep_lines(5) [of s7 start2 stop2 ?left] u2 by simp
  ultimately have 2: "keeps_lines t (log_round b c res s8)" for b c
    using 1 steps_keep_lines(4) [of s8 b c res] by (blast intro: keeps_lines_trans)
  have lz: "lazy_const (log_round b c res s8) = 1" for b c using 2 [of b c] lazy by (simp add: keeps_lines_def)
  have "\<exists>b c. u = close_round (log_round b c res s8)"
    using round unfolding solve_round_def
    by (simp add: case_prod_beta [of _ "now clk (open_round s)"] create n1 u1 n2 i n3 u2 lz Let_def split: if_splits) blast+
  then show ?thesis using 2 by blast
qed

text \<open>
  C21. The second formula that the SMT back end prints stands behind the first one: \<open>Solve\<close> clears the
  flags of the stream \<open>cnf_printable\<close>, not its text. After a round that did not find a plan, the file for
  the next cost starts with all lines of the file for the last cost, so its clauses have to be true as
  well.
\<close>

theorem file_keeps_earlier_formula:
  assumes "smt_mode s" "lazy_const s = 1"
    and "CreateFormula_SMT enc clk left (snd (now clk (open_round s))) = (k, t)" "k \<noteq> -1"
    and "solve_round (CreateFormula_SMT enc clk) (InvokeSolverImplementation_SMT monosat) clk oneshot (s, left, bt, st) = Inr (u, rest)"
    and "CreateFormula_SMT enc clk lim (open_round u) = (l, v)" "l \<noteq> -1"
  shows "delta v = delta t + 1 \<and> (\<exists>ls. cnf_printable v = cnf_printable t @ ls) \<and>
    (\<forall>I c. monosat_true I (cnf_printable v) \<longrightarrow> ClauseLine c \<in> set (cnf_printable t) \<longrightarrow> clause_true I c)"
proof -
  let ?s1 = "snd (now clk (open_round s))"
  have s1: "keeps_lines s ?s1" using keeps_lines_trans [OF steps_keep_lines(2,1)] .
  then have mode: "smt_mode ?s1" "lazy_const ?s1 = 1" using keeps_mode [OF s1] assms(1,2) by (simp_all add: keeps_lines_def)
  have vt: "view t = view (snd (smt_tables ?s1))" by (rule CreateFormula_SMT_prints(2) [OF mode(1) assms(3,4)])
  have lazy: "lazy_const (snd (smt_tables x)) = lazy_const x" for x
    by (simp add: smt_tables_def make_variables_eq by_kind_def)
  have "lazy_const t = 1" using arg_cong [OF vt, of lazy_const] mode(2) unfolding view_fields lazy by simp
  have "smt_mode t = smt_mode (snd (smt_tables ?s1))" by (rule smt_mode_view [OF vt])
  then have t: "smt_mode t" using mode(1) by (simp add: smt_mode_def smt_tables_frame)
  obtain w where w: "keeps_lines t w" "u = close_round w" using next_round_lines [OF assms(3) \<open>lazy_const t = 1\<close> assms(5)] by blast
  have u: "smt_mode (open_round u)" "delta (open_round u) = delta t + 1" "cnf_printable (open_round u) = cnf_printable t"
    using keeps_mode [OF w(1)] t w
    by (simp_all add: close_round_def open_round_def CreateSolver_def ReleaseSolver_def CleanUp_def keeps_lines_def
        smt_mode_def Let_def split: solver_class.splits)
  note P = CreateFormula_SMT_prints [OF u(1) assms(6,7)]
  have "delta v = delta t + 1" using arg_cong [OF P(2), of delta] u(2) by (simp add: smt_tables_frame)
  moreover have v: "cnf_printable v = cnf_printable t @ smt_lines enc (open_round u)" using P(1) u(3) by simp
  moreover have "clause_true I c" if "monosat_true I (cnf_printable v)" "ClauseLine c \<in> set (cnf_printable t)" for I c
    using that v by (simp add: monosat_true_def)
  ultimately show ?thesis by blast
qed

lemma file_keeps_earlier_formula_witness:
  "\<exists>(t :: solver) (v :: solver). cnf_printable t \<noteq> [] \<and> delta t = 0 \<and> delta v = 1 \<and> (\<exists>ls. cnf_printable v = cnf_printable t @ ls)"
proof -
  let ?s = "fst (solve_start 2 0 True (client 2 1 1 1 easy_instance\<lparr>class_of := MAPFSAT_SMT, cnf_file := ''f''\<rparr>))"
  let ?mono = "\<lambda>_ _ _ _. (0, None)"
  have mode: "smt_mode ?s" "lazy_const ?s = 1" by (simp_all add: smt_mode_def solve_start_def client_def blank_solver_def)
  have facts: "case CreateFormula_SMT naive_amk (\<lambda>_. 0) 0 (snd (now (\<lambda>_. 0) (open_round ?s))) of (k, t) \<Rightarrow>
      k \<noteq> -1 \<and> cnf_printable t \<noteq> [] \<and> delta t = 0 \<and>
      (case solve_round (CreateFormula_SMT naive_amk (\<lambda>_. 0)) (InvokeSolverImplementation_SMT ?mono) (\<lambda>_. 0) False (?s, 0, 0, 0) of
         Inl _ \<Rightarrow> False
       | Inr (u, rest) \<Rightarrow> fst (CreateFormula_SMT naive_amk (\<lambda>_. 0) 0 (open_round u)) \<noteq> -1)"
    by code_simp
  obtain k t where c: "CreateFormula_SMT naive_amk (\<lambda>_. 0) 0 (snd (now (\<lambda>_. 0) (open_round ?s))) = (k, t)" by fastforce
  obtain u rest where r: "solve_round (CreateFormula_SMT naive_amk (\<lambda>_. 0)) (InvokeSolverImplementation_SMT ?mono) (\<lambda>_. 0) False (?s, 0, 0, 0) = Inr (u, rest)"
    using facts by (auto split: sum.splits prod.splits)
  obtain l v where d: "CreateFormula_SMT naive_amk (\<lambda>_. 0) 0 (open_round u) = (l, v)" by fastforce
  have ok: "k \<noteq> -1" "l \<noteq> -1" "cnf_printable t \<noteq> []" "delta t = 0" using facts unfolding c r by (simp_all add: d)
  have "cnf_printable t \<noteq> [] \<and> delta t = 0 \<and> delta v = 1 \<and> (\<exists>ls. cnf_printable v = cnf_printable t @ ls)"
    using file_keeps_earlier_formula [OF mode c ok(1) r d ok(2)] ok(3,4) by simp
  then show ?thesis by blast
qed

end
