(* ===== verification/Interface_Properties.thy ===== *)
theory Interface_Properties
  imports Example_Runs
begin

text \<open>
  What the program promises to its user: the names of encodings it accepts, the arguments it refuses,
  and that its logs and printed plans can be read back.
\<close>

section \<open>The command line\<close>

text \<open>
  C30. The names of encodings: a name is accepted exactly when it consists of one of the documented words
  for the cost function, the movement, the variables, the conflicts and the duplicates, in this order
  and separated by underscores, or of such a name and one more underscore; the options are the ones the
  words stand for.
\<close>

theorem parse_encoding_words:
  "parse_encoding enc = Some c \<longleftrightarrow>
     (\<exists>cost mv var lz dup.
        (cost, o_cost c) \<in> {(''mks'', 1), (''soc'', 2)} \<and>
        (mv, o_moves c) \<in> {(''parallel'', 1), (''pebble'', 2)} \<and>
        (var, o_var c, o_solver c) \<in> {(''at'', 1, 1), (''pass'', 2, 1), (''shift'', 3, 1), (''monosat-pass'', 2, 2), (''monosat-shift'', 3, 2)} \<and>
        (lz, o_lazy c) \<in> {(''eager'', 1), (''lazy'', 2)} \<and>
        (dup, o_dupli c) \<in> {(''single'', 1), (''dupli'', 2)} \<and>
        enc \<in> {cost @ ''_'' @ mv @ ''_'' @ var @ ''_'' @ lz @ ''_'' @ dup, cost @ ''_'' @ mv @ ''_'' @ var @ ''_'' @ lz @ ''_'' @ dup @ ''_''})"
  unfolding parse_encoding_iff encoding_name_def cost_words_def moves_words_def var_words_def lazy_words_def dupli_words_def
  by simp

text \<open>
  C29. \<open>PickEncoding\<close> on any name: it returns no solver exactly for the names that are not accepted, the
  constructor of the SMT solver aborts for pebble movement and for lazy conflicts, and otherwise the
  solver is of the class and has the options that the name says.
\<close>

theorem PickEncoding_result:
  "case PickEncoding enc s of
     Unknown_Encoding \<Rightarrow> parse_encoding enc = None
   | Assertion_Failed \<Rightarrow> (\<exists>c. parse_encoding enc = Some c \<and> o_solver c = 2 \<and> (o_moves c = 2 \<or> o_lazy c = 2))
   | Picked t \<Rightarrow> (\<exists>c. parse_encoding enc = Some c \<and> (o_solver c = 1 \<or> o_moves c = 1 \<and> o_lazy c = 1) \<and>
       class_of t = (if o_solver c = 1 then MAPFSAT_SAT else MAPFSAT_SMT) \<and> solver_name t = enc \<and>
       variables t = o_var c \<and> cost_function t = o_cost c \<and> movement t = o_moves c \<and> lazy_const t = o_lazy c \<and>
       duplicates t = o_dupli c \<and> solver_to_use t = o_solver c)"
proof (cases "parse_encoding enc")
  case None
  then show ?thesis by (simp add: PickEncoding_def)
next
  case (Some c)
  then have "o_cost c \<in> {1, 2}" "o_moves c \<in> {1, 2}" "o_lazy c \<in> {1, 2}" "o_dupli c \<in> {1, 2}"
    "o_solver c = 1 \<and> o_var c \<in> {1, 2, 3} \<or> o_solver c = 2 \<and> o_var c \<in> {2, 3}"
    unfolding parse_encoding_iff cost_words_def moves_words_def var_words_def lazy_words_def dupli_words_def by auto
  then show ?thesis
    using Some by (auto simp: PickEncoding_def new_MAPFSAT_SAT_def new_MAPFSAT_SMT_def encoding_args_ok_def)
qed



section \<open>Reading back what is printed\<close>

text \<open>
  C36. A log file can be read back: after inline logs have been appended to it, its lines, cut at the
  tabs, give for every log the names of the map, the scenario and the encoding, the fifteen numbers and
  the verdict, in the order in which the logs were printed.
\<close>

theorem log_file_reads_back:
  assumes "\<forall>l \<in> set ls. print_type l = 1 \<and> log_file l = f \<and> f \<noteq> [] \<and>
      (\<forall>w \<in> {log_map_name l, log_scen_name l, log_encoding l}. tab \<notin> set w \<and> newline \<notin> set w)"
  shows "let contents = concat (map (\<lambda>l. case PrintStatistics (\<lambda>_. True) l of Appended g x \<Rightarrow> if g = f then x else [] | _ \<Rightarrow> []) ls);
      rows = map (split_line tab) (split_line newline contents) in
    length rows = length ls \<and>
    (\<forall>j < length ls. take 3 (rows ! j) = [log_map_name (ls ! j), log_scen_name (ls ! j), log_encoding (ls ! j)] \<and>
       map read_int (take 15 (drop 3 (rows ! j))) = map Some (log_numbers (ls ! j)) \<and>
       drop 18 (rows ! j) = [if log_res (ls ! j) = 0 then ''sat'' else ''unsat''])"
proof -
  have "(case PrintStatistics (\<lambda>_. True) l of Appended g x \<Rightarrow> if g = f then x else [] | _ \<Rightarrow> []) = inline_text l" if "l \<in> set ls" for l
    using assms that by (simp add: PrintStatistics_def log_text_def)
  then have content: "map (\<lambda>l. case PrintStatistics (\<lambda>_. True) l of Appended g x \<Rightarrow> if g = f then x else [] | _ \<Rightarrow> []) ls = map inline_text ls"
    unfolding map_eq_conv by blast
  have "map (split_line tab) (split_line newline (concat (map inline_text ls))) = map inline_fields ls"
    using assms by (intro inline_log_fields) blast
  moreover have "length (log_numbers l) = 15" for l by (simp add: log_numbers_def)
  ultimately show ?thesis
    unfolding content Let_def by (simp add: inline_fields_def solution_text_def read_show_int comp_def)
qed

definition example_log :: logger where
  "example_log = blank_log\<lparr>print_type := 1, log_file := ''f'', log_map_name := ''m.map'', log_agents := 2\<rparr>"

lemma log_file_reads_back_witness:
  "take 3 (split_line tab (split_line newline (case PrintStatistics (\<lambda>_. True) example_log of
     Appended g x \<Rightarrow> if g = ''f'' then x else [] | _ \<Rightarrow> []) ! 0)) = [''m.map'', [], []]"
proof -
  have "\<forall>l \<in> set [example_log]. print_type l = 1 \<and> log_file l = ''f'' \<and> ''f'' \<noteq> [] \<and>
      (\<forall>w \<in> {log_map_name l, log_scen_name l, log_encoding l}. tab \<notin> set w \<and> newline \<notin> set w)"
    by (simp add: example_log_def blank_log_def tab_def newline_def)
  note L = log_file_reads_back [OF this, unfolded Let_def]
  have names: "log_map_name example_log = ''m.map''" "log_scen_name example_log = []" "log_encoding example_log = []"
    by (simp_all add: example_log_def blank_log_def)
  have "split_line newline (case PrintStatistics (\<lambda>_. True) example_log of Appended g x \<Rightarrow> if g = ''f'' then x else [] | _ \<Rightarrow> []) \<noteq> []"
    using L by auto
  then show ?thesis using L by (auto simp: names)
qed

text \<open>
  C37. A printed plan can be read back: for a plan that follows walks without collisions the text of
  \<open>PrintPlan\<close> has one line for every agent after the headline, no conflict is reported, and the numbers
  after the colon of a line are the positions of the agent.
\<close>

theorem PrintPlan_reads_back:
  assumes "plan_follows (inst s) (agents s) (plan s) p" "movement s = 1 \<or> movement s = 2" "collision_free (movement s) (agents s) p"
  shows "\<exists>head rows. split_line newline (PrintPlan s) = head # rows @ [[]] \<and> length rows = agents s \<and>
    (\<forall>a < agents s. \<exists>nums. rows ! a = ''Agent #'' @ show_nat a @ '' : '' @ nums \<and>
       map read_int (split_line (CHR '' '') nums) = map (\<lambda>t. Some (int (p a t))) [0..<length (plan s ! a)])"
proof -
  have silent: "VerifyPlan s = []" using VerifyPlan_silent_iff [OF assms(1,2)] assms(3) by simp
  obtain M where P: "length (plan s) = agents s" "\<And>a. a < agents s \<Longrightarrow> plan s ! a = map (\<lambda>t. int (p a t)) [0..<M]"
    using assms(1) unfolding plan_follows_def by blast
  define head where "head = ''Found plan [agents = '' @ show_nat (agents s) @ ''] [timesteps = '' @
      show_nat (if length (plan s) > 0 then length (plan s ! 0) else 0) @ '']''"
  let ?rows = "map (\<lambda>a. plan_row_text a (plan s ! a)) [0..<agents s]"
  have out: "PrintPlan s = terminated newline (head # ?rows @ [[]])"
    using silent P(1) by (simp add: PrintPlan_def Let_def line_def terminated_def head_def comp_def)
  have nat: "newline \<notin> set (show_nat n)" for n
    using show_int_no_separator(2) [of "int n"] by (simp add: show_int_def)
  have int: "newline \<notin> set (show_int i)" for i by (rule show_int_no_separator(2))
  have "split_line newline (PrintPlan s) = head # ?rows @ [[]]"
    unfolding out
  proof (rule split_terminated)
    fix w assume "w \<in> set (head # ?rows @ [[]])"
    then show "newline \<notin> set w" using nat int by (auto simp: head_def plan_row_text_def newline_def split: if_splits)
  qed
  moreover have "\<exists>nums. ?rows ! a = ''Agent #'' @ show_nat a @ '' : '' @ nums \<and>
      map read_int (split_line (CHR '' '') nums) = map (\<lambda>t. Some (int (p a t))) [0..<length (plan s ! a)]" if a: "a < agents s" for a
    using row_positions [of "plan s ! a"] P(2) [OF a] a
    by (intro exI [of _ "concat (map (\<lambda>v. show_int v @ '' '') (plan s ! a))"]) (simp add: plan_row_text_def comp_def)
  ultimately show ?thesis by (intro exI [of _ head] exI [of _ ?rows]) simp
qed

definition solved :: solver where
  "solved = blank_solver\<lparr>inst := example_instance, agents := 2, plan := map (\<lambda>a. map (\<lambda>t. int (example_paths a t)) [0..<6]) [0..<2]\<rparr>"

lemma PrintPlan_reads_back_witness:
  "\<exists>head rows. split_line newline (PrintPlan solved) = head # rows @ [[]] \<and> length rows = 2 \<and>
     (\<exists>nums. rows ! 0 = ''Agent #'' @ show_nat 0 @ '' : '' @ nums \<and>
        map read_int (split_line (CHR '' '') nums) = map (\<lambda>t. Some (int (example_paths 0 t))) [0..<length (plan solved ! 0)])"
proof -
  have f: "inst solved = example_instance" "agents solved = 2" "movement solved = 1"
    "plan solved = map (\<lambda>a. map (\<lambda>t. int (example_paths a t)) [0..<6]) [0..<2]"
    by (simp_all add: solved_def blank_solver_def)
  have "example_paths a t = goal_id example_instance a" if "a < 2" "6 \<le> t + 1" for a t
    using that by (auto simp: less_suc_2 example_ids' example_paths_def min_def)
  then have P: "plan_follows (inst solved) (agents solved) (plan solved) example_paths"
    unfolding plan_follows_def f by (intro conjI exI [of _ "6 :: nat"]) simp_all
  have "collision_free (movement solved) (agents solved) example_paths" using example_collision_free f by simp
  from PrintPlan_reads_back [OF P _ this] show ?thesis unfolding f(2,3) by (metis zero_less_numeral)
qed

end
