(* ===== verification/Spec2Isabelle.thy ===== *)
theory Spec2Isabelle
  imports Solve_Invariants Instance_Properties Encoding_Properties Plan_Properties Graph_Properties Monosat_Properties Interface_Properties
begin

text \<open>
  A verification development for the MAPF solver of this repository: a program that reduces multi-agent
  path finding on grid maps to propositional satisfiability.

  The program. \<open>src/src/main.cpp\<close> reads a scenario and a map, picks an encoding and solves the instance
  for a growing number of agents. \<open>src/src/instance.cpp\<close> holds the map, the distance tables and the
  lower bounds of the cost. \<open>src/src/encodings/solver_common.cpp\<close> holds the methods all encodings share
  and the loop \<open>Solve\<close>: it creates a formula for a cost (\<open>CreateFormula\<close>), gives it to a solver
  (\<open>InvokeSolverImplementation\<close>), and tries the next cost while there is no model; in the lazy mode it
  adds the conflicts of the plan it found and tries again. \<open>SAT_encoding.cpp\<close> and \<open>SMT_encoding.cpp\<close>
  implement the two virtual methods, with the library CaDiCaL and with the program Monosat.
  \<open>src/src/logger.cpp\<close> writes the statistics, \<open>src/release/example.cpp\<close> uses the library.

  Theories and code.
    \<^item> \<open>Prelude\<close>: literals and clauses, \<open>size_t\<close> arithmetic, threading of variable numbers (locale
      \<open>allocator\<close>). \<open>Text\<close>: \<open>getline\<close> at a separator, \<open>stoi\<close>, \<open>atoi\<close>, printed integers.
    \<^item> \<open>Grid\<close>, \<open>Motion\<close>, \<open>Shortest_Paths\<close>, \<open>Instance\<close>, \<open>Windows\<close>, \<open>Loader\<close>: \<open>instance.hpp\<close> and
      \<open>instance.cpp\<close>. The record \<open>instance_t\<close> has the members of the class. \<open>LoadMapData\<close>, the neighbour
      queries, \<open>BFS\<close>, \<open>SetAgents\<close>, the lower bounds and the windows \<open>FirstTimestep\<close>/\<open>LastTimestep\<close>, the
      two constructors. The locales \<open>motion_graph\<close> (neighbours) and \<open>windows\<close> (when an agent can be where)
      are interpreted on them.
    \<^item> \<open>Solver_State\<close>: \<open>solver_common.hpp\<close>. The record \<open>solver\<close> has the members of \<open>_MAPFSAT_ISolver\<close>; a
      pointer is an option, the SAT solver is the list of its clauses, the instance and the log are owned
      by the solver. \<open>AddClause\<close>, \<open>SetData\<close>, \<open>TimesUp\<close>, \<open>CleanUp\<close>, \<open>ReleaseSolver\<close>.
    \<^item> \<open>Variables\<close>, \<open>Conflicts\<close>, \<open>Movement\<close>, \<open>Costs\<close>, \<open>Plans\<close>, \<open>Solve_Loop\<close>, \<open>Output\<close>: the methods of
      \<open>solver_common.cpp\<close>, one definition each. A method that adds clauses is \<open>emit\<close> of a list of clauses
      \<open><x>_clauses\<close>, which is the loop nest of the method.
    \<^item> \<open>Sat_Encoding\<close>, \<open>Smt_Encoding\<close>: the two back ends. \<open>Logger\<close>, \<open>Options\<close>, \<open>Main_Program\<close>, \<open>Example\<close>:
      \<open>logger.cpp\<close>, \<open>PickEncoding\<close> and \<open>getopt\<close>, the rest of \<open>main.cpp\<close>, \<open>example.cpp\<close>.

  What the lemmas show.
    \<^item> \<open>Semantics\<close>, \<open>Edge_Tables\<close>, \<open>Edge_Semantics\<close>: what each group of clauses says of an assignment, read
      by \<open>occ\<close>, \<open>passes\<close> and \<open>shifts\<close>. \<open>Cardinality\<close>, \<open>Sum_Of_Costs\<close>: the parts with auxiliary variables
      as gadgets, and the sum of costs as delays of the agents.
    \<^item> \<open>Encoding\<close>, \<open>Soundness\<close>, \<open>Completeness\<close>, \<open>Formula\<close>, \<open>Sat_Contract\<close>: the formula of the SAT back end
      has a model exactly when there is a \<open>solution\<close> (\<open>Plans\<close>) within the cost, for the three kinds of
      variables, eager and lazy. \<open>Demand\<close>, \<open>Collisions\<close>: every lazy round adds a clause that the last
      model breaks and that all solutions satisfy. \<open>Plan_Reading\<close>: the plan that is read from a model.
    \<^item> \<open>Sat_Backend\<close>, \<open>Solve_Correct\<close>, \<open>Solve_Invariants\<close>: the contract \<open>encoding_backend\<close> of \<open>Solve_Loop\<close>
      is interpreted on the SAT back end, so \<open>Solve\<close> returns, and returns the least cost.
    \<^item> \<open>Monosat_Graphs\<close>, \<open>Monosat_Correct\<close>, \<open>Monosat_Formula\<close>: the numbering of the nodes, reachability in
      the printed graphs as walks, and the file for Monosat with pass variables as an equivalent of the
      problem in the first round.
    \<^item> \<open>Program_Runs\<close>, \<open>Example_Runs\<close>: whole runs of the program and concrete runs inside the logic.
    \<^item> The properties are here and in \<open>Solve_Invariants\<close>, \<open>Encoding_Properties\<close>, \<open>Plan_Properties\<close>,
      \<open>Graph_Properties\<close>, \<open>Monosat_Properties\<close>, \<open>Instance_Properties\<close> and \<open>Interface_Properties\<close>.

  Parameters and hypotheses. PBLib's encoder of at-most-k constraints is a parameter with the law \<open>amk_ok\<close>
  (the clauses over fresh variables express the constraint), CaDiCaL one with the law \<open>sat_solver_ok\<close>
  (its answers are right, and it gives up only at the time limit). Monosat, the clock and the files are
  parameters without laws, except that the clock is monotone in the properties of \<open>Solve\<close>, and stays
  within the time limit where a property says that a plan is found. \<open>naive_amk\<close> and \<open>naive_sat\<close> are
  implementations that meet the laws; the witnesses run the program with them. The properties of solving suppose that the
  goals can be reached alone, because the code takes the distance -1 of an unreachable goal for a length,
  and in the lazy mode that no two agents have the same goal.

  Loops. The search of \<open>BFS\<close>, the loop of \<open>Solve\<close> and the loop of \<open>main\<close> are \<open>partial_function\<close>s, where
  \<open>None\<close> is not returning; no fuel is used. \<open>BFS\<close> is shown to return by the number of vertices without a
  distance, \<open>Solve\<close> by the cost that is left and the conflicts not yet forbidden, \<open>main\<close> by the number of
  agents that is left. \<open>WaitForTerminate\<close> terminates by the time that is left.

  Integers. Variables, timesteps and costs are \<open>int\<close> without bounds; the C++ type is \<open>int\<close>, and what would
  overflow is not modelled, except in \<open>stoi\<close>, in \<open>size_t\<close> arithmetic and in the bound of the Cantor
  pairing. A map cell is -1 for an obstacle. An access out of range is unspecified, as it is in C++.

  Not modelled: the libraries and programs under \<open>src/src/externals\<close> and \<open>libs\<close>, the experiment scripts and
  the makefile, messages on \<open>cerr\<close>, memory management beyond which pointers are set, and the threads around
  CaDiCaL beyond the polling loop. The texts printed on \<open>cout\<close> while solving are functions of the state.
\<close>

section \<open>Solving\<close>

text \<open>
  C1. \<open>Solve\<close> of the SAT back end is right, for every kind of variables, with eager and with lazy
  conflicts: it returns 0, 1 or -1. With 0, the last cost it tried (the lower bound plus
  \<open>delta - 1\<close>) has a solution, no smaller cost from the requested one on has, and the kept plan lists
  a solution of that cost. With -1, which is returned for a one-shot call only, the requested cost has
  no solution. 1 is the time limit.
\<close>

theorem Solve_optimal:
  assumes "input_ok mv starts goals" "n \<le> length starts"
    and "SetAgents n (make_instance mv starts goals sc mp) = Some i" "goals_fit lz i n"
    and "new_MAPFSAT_SAT var cf m lz dup slv nm s0 = Some s1"
    and "libraries_ok enc cadical clk" "0 \<le> d"
    and "Solve_SAT enc cadical clk n d oneshot keep (SetData i l to cf_path q pp False s1) = Some (r, u)"
  shows "let solvable = (\<lambda>k. \<exists>p. solution i n m cf (lower_bound i n cf + k) p); k = delta u - 1 in
      r = 1 \<or>
      r = 0 \<and> d \<le> k \<and> (oneshot \<longrightarrow> k = d) \<and> solvable k \<and> (\<forall>j. d \<le> j \<and> j < k \<longrightarrow> \<not> solvable j) \<and>
        (keep \<longrightarrow> (\<exists>p. solution i n m cf (lower_bound i n cf + k) p \<and> plan_follows i n (GetPlan u) p)) \<or>
      r = -1 \<and> oneshot \<and> k = d \<and> \<not> solvable d"
proof -
  let ?s = "SetData i l to cf_path q pp False s1"
  note new = new_sat_client [OF assms(5), of i l to cf_path q pp]
  have "solve_verdict (inst ?s) n (movement ?s) (cost_function ?s) d oneshot keep r u"
    using make_instance_SetAgents(1) [OF assms(1-3)] assms(4,6-8) new
    by (intro Solve_SAT_verdict) simp_all
  then show ?thesis unfolding solve_verdict_def Let_def new(2,3,4) by auto
qed

lemma Solve_optimal_witness:
  "\<exists>i s1 u. SetAgents 2 example_instance = Some i \<and>
     Solve_SAT naive_amk naive_sat (\<lambda>_. 0) 2 0 False True (SetData i (new_logger i [] 0 []) 300 [] True False False s1) = Some (0, u) \<and>
     (\<exists>p. solution i 2 1 2 (lower_bound i 2 2 + (delta u - 1)) p \<and> plan_follows i 2 (GetPlan u) p)"
proof -
  obtain i where i: "SetAgents 2 example_instance = Some i" "prepared i 2" "same_map example_instance i"
    "goals_fit 2 i 2" using example_prepared by blast
  obtain s1 where s1: "new_MAPFSAT_SAT 3 2 1 2 1 1 [] s0 = Some s1"
    by (simp add: new_MAPFSAT_SAT_def encoding_args_ok_def)
  let ?s = "SetData i (new_logger i [] 0 []) 300 [] True False False s1"
  note new = new_sat_client [OF s1, of i "new_logger i [] 0 []" 300 "[]" True False]
  have lib: "libraries_ok naive_amk naive_sat (\<lambda>_. 0)"
    by (simp add: libraries_ok_def naive_amk_ok naive_sat_ok mono_def)
  let ?k = "12 - lower_bound i 2 2"
  have sol: "solution i 2 1 2 12 example_paths"
    using example_solution solution_same_map [OF i(3)] by simp
  have "0 \<le> ?k" using solution_lower_bound [OF i(2) _ sol] by simp
  have "\<exists>u. Solve_SAT naive_amk naive_sat (\<lambda>_. 0) 2 0 False True ?s = Some (0, u)"
    using i new lib sol \<open>0 \<le> ?k\<close> by (intro Solve_SAT_finds [where k = ?k and p = example_paths]) simp_all
  then obtain u where u: "Solve_SAT naive_amk naive_sat (\<lambda>_. 0) 2 0 False True ?s = Some (0, u)" by blast
  have "SetAgents 2 (make_instance example_map example_start example_goal [] []) = Some i"
    using i(1) by (simp add: example_instance_def)
  from Solve_optimal [OF example_input_ok _ this i(4) s1 lib order_refl u]
  have "\<exists>p. solution i 2 1 2 (lower_bound i 2 2 + (delta u - 1)) p \<and> plan_follows i 2 (GetPlan u) p"
    by (auto simp: example_start_def Let_def)
  with i(1) u show ?thesis by blast
qed
text \<open>
  C2. \<open>Solve\<close> ends: if the instance has a solution at some cost at or above the requested one and the
  time limit is not reached, a call that may raise the cost returns with success, with eager conflicts
  and with lazy ones, where the same cost is tried until no conflict is left.
\<close>

theorem Solve_finds:
  assumes "input_ok mv starts goals" "n \<le> length starts"
    and "SetAgents n (make_instance mv starts goals sc mp) = Some i" "goals_fit lz i n"
    and "new_MAPFSAT_SAT var cf m lz dup slv nm s0 = Some s1"
    and "libraries_ok enc cadical clk" "0 \<le> d"
    and "\<forall>j. clk j - clk (clock_reads s0) \<le> 1000000 * (to * 1000)"
    and "solution i n m cf (lower_bound i n cf + k) p" "d \<le> k"
  shows "\<exists>u. Solve_SAT enc cadical clk n d False keep (SetData i l to cf_path q pp False s1) = Some (0, u)"
proof -
  note new = new_sat_client [OF assms(5), of i l to cf_path q pp]
  show ?thesis
    using make_instance_SetAgents(1) [OF assms(1-3)] assms(4,6-10) new
    by (intro Solve_SAT_finds [where k = k and p = p]) simp_all
qed

lemma Solve_finds_witness:
  "\<exists>i s1 u. SetAgents 2 example_instance = Some i \<and> new_MAPFSAT_SAT 2 2 1 2 1 1 [] blank_solver = Some s1 \<and>
     Solve_SAT naive_amk naive_sat (\<lambda>_. 0) 2 0 False True (SetData i blank_log 300 [] True False False s1) = Some (0, u)"
proof -
  obtain i s1 where i: "SetAgents 2 example_instance = Some i" "goals_fit 2 i 2"
    and s1: "new_MAPFSAT_SAT 2 2 1 2 1 1 [] blank_solver = Some s1"
    and sol: "solution i 2 1 2 12 example_paths" "0 \<le> 12 - lower_bound i 2 2" using example_client [of 2 2] by auto
  have "SetAgents 2 (make_instance example_map example_start example_goal [] []) = Some i"
    using i(1) by (simp add: example_instance_def)
  from Solve_finds [OF example_input_ok _ this i(2) s1 naive_libraries_ok order_refl, of 300 "12 - lower_bound i 2 2" example_paths True blank_log "[]" True False]
  show ?thesis using sol i(1) s1 by (auto simp: example_start_def)
qed



text \<open>
  C4. With time enough the program ends, after solving the instance for the given number of agents and
  for every further number in steps of the increment, as long as there are that many agents and the
  instance can be solved for all of them.
\<close>

theorem main_solves_all:
  assumes files: "run_files files path dir m rows ags" and enc: "parse_encoding enc = Some c" "o_solver c = 1"
    and fit: "goals_fit (o_lazy c) (run_instance path m rows ags) (length ags)"
    and a: "a \<le> length ags" "0 < inc" "inc < 2 ^ 31" and lib: "libraries_ok pb cadical clk"
    and time: "\<forall>j k. clk j - clk k \<le> 1000000 * (300 * 1000)"
    and sol: "solution (run_instance path m rows ags) (length ags) (o_moves c) (o_cost c) k p"
  shows "\<exists>logs. main (Solve_dispatch pb cadical monosat clk) files argv0 (command enc path dir a inc) s0 =
      Some (Returned 0, logs, PrintIntro False) \<and>
    map log_agents logs = map (\<lambda>j. a + j * inc) [0..<Suc ((length ags - a) div inc)] \<and>
    (\<forall>l \<in> set logs. log_res l = 0 \<and> right_log (run_instance path m rows ags) (o_moves c) (o_cost c) l)"
  by (rule run_solves_all [OF assms])

lemma main_solves_all_witness:
  "\<exists>logs. main naive_dispatch ex_files ''mapf'' (command ''soc_parallel_pass_lazy_single'' ''s.scen'' ''d'' 1 1) blank_solver =
      Some (Returned 0, logs, PrintIntro False) \<and> map log_agents logs = [1, 2]"
  using main_solves_all [OF ex_run_files ex_run(1-3) _ _ _ naive_libraries_ok _ ex_run(5), of 1 1 "\<lambda>_ _ _ _. (0, None)" "''mapf''" blank_solver]
    ex_run(4) by (auto simp: naive_dispatch_def ex_options_def upt_rec)

text \<open>
  C5. The formula of the eager SAT back end is satisfiable exactly when the instance has a solution of
  the cost that is tried: \<open>CreateFormula\<close>, called in a state in which a round starts, either runs out of
  time or leaves such a formula in the solver, for every kind of variables, either cost function,
  movement and treatment of duplicates.
\<close>

theorem CreateFormula_equisat:
  assumes "sat_start s" "lazy_const s = 1" "amk_ok enc" "CreateFormula_SAT enc clk lim s = (l, t)" "l \<noteq> -1"
  shows "\<exists>F. SAT_solver t = Some F \<and>
    ((\<exists>I. cnf_true I F) \<longleftrightarrow>
     (\<exists>p. solution (inst s) (agents s) (movement s) (cost_function s) (cost_bound s) p))"
proof -
  have F: "SAT_solver t = Some (fst (formula_of enc s))" using CreateFormula_formula(2) [OF assms(1,4)] assms(5) by blast
  note E = formula_of_encodes(1) [OF assms(1,3)]
  have "\<exists>I. cnf_true I (fst (formula_of enc s))" if "has_solution s (cost_bound s)"
    using encodes_solution [OF E] that by (simp add: has_solution_def)
  moreover have "has_solution s (cost_bound s)" if "cnf_true I (fst (formula_of enc s))" for I
    using encodes_model(2-4) [OF E that] assms(2) unfolding has_solution_def solution_def by auto
  ultimately show ?thesis using F unfolding has_solution_def by blast
qed

lemma CreateFormula_equisat_witness:
  "\<exists>s l t F I. CreateFormula_SAT naive_amk (\<lambda>_. 0) 0 s = (l, t) \<and> variables s = 2 \<and> agents s = 2 \<and>
     SAT_solver t = Some F \<and> cnf_true I F"
proof -
  obtain s where s: "sat_start s" "variables s = 2" "lazy_const s = 1" "agents s = 2" "has_solution s (cost_bound s)"
    using example_round [of 2 1] by auto
  obtain l t where run: "CreateFormula_SAT naive_amk (\<lambda>_. 0) 0 s = (l, t)" by fastforce
  note l = CreateFormula_in_time [OF s(1) naive_amk_ok run]
  show ?thesis
    using CreateFormula_equisat [OF s(1,3) naive_amk_ok run l] run s(2,4,5) unfolding has_solution_def by blast
qed

text \<open>
  C6. Reading a plan refines the abstract problem: whatever model the SAT solver finds for the eager
  formula, the rows that \<open>GetNextVertex\<close> and \<open>NormalizePlan\<close> make of it are the beginnings of
  collision-free walks from the starts to the goals, within the cost that was tried.
\<close>

theorem models_are_plans:
  assumes "sat_start s" "lazy_const s = 1" "amk_ok enc" "CreateFormula_SAT enc clk lim s = (l, t)" "l \<noteq> -1"
    and "SAT_solver t = Some F" "cnf_true (model_of val) F"
  shows "\<exists>p. solution (inst s) (agents s) (movement s) (cost_function s) (cost_bound s) p \<and>
    plan_follows (inst s) (agents s) (GetPlan (read_plan (GetNextVertex_SAT val t) t)) p"
proof -
  let ?I = "model_of val"
  have F: "F = fst (formula_of enc s)" and v: "view t = tables_of s"
    using CreateFormula_formula(2) [OF assms(1,4)] assms(5,6) by auto
  have same: "same_tables t (tables_of s)"
    using same_tables_sym [OF same_tables_view] v by metis
  have E: "encodes t (snd (formula_of enc s)) F"
    using formula_of_encodes(1) [OF assms(1,3)] same_encodes [OF same] F by simp
  note M = encodes_model [OF E assms(7)]
  have f: "inst t = inst s" "agents t = agents s" "movement t = movement s" "cost_function t = cost_function s"
    "lazy_const t = lazy_const s" using same_fields [OF same] by simp_all
  have c: "cost_bound t = cost_bound s" using same_fields [OF same] by (simp add: cost_bound_def)
  obtain lo hi where R: "enc_ready t lo hi" using E unfolding encodes_def by blast
  have "plan_follows (inst s) (agents s) (GetPlan (read_plan (GetNextVertex_SAT val t) t)) (decode t ?I)"
    using read_plan_follows [OF R M(1)] f by (simp add: GetPlan_def)
  moreover have "solution (inst s) (agents s) (movement s) (cost_function s) (cost_bound s) (decode t ?I)"
    using M(2-4) assms(2) f c by (simp add: solution_def)
  ultimately show ?thesis by blast
qed

lemma models_are_plans_witness:
  "\<exists>s t p val. plan_follows (inst s) 2 (GetPlan (read_plan (GetNextVertex_SAT val t) t)) p \<and>
     solution (inst s) 2 (movement s) (cost_function s) (cost_bound s) p"
proof -
  obtain s where s: "sat_start s" "variables s = 3" "lazy_const s = 1" "agents s = 2" "has_solution s (cost_bound s)"
    using example_round [of 3 1] by auto
  obtain l t where run: "CreateFormula_SAT naive_amk (\<lambda>_. 0) 0 s = (l, t)" by fastforce
  note l = CreateFormula_in_time [OF s(1) naive_amk_ok run]
  have F: "SAT_solver t = Some (fst (formula_of naive_amk s))" using CreateFormula_formula(2) [OF s(1) run] l by blast
  obtain I where I: "cnf_true I (fst (formula_of naive_amk s))"
    using encodes_solution [OF formula_of_encodes(1) [OF s(1) naive_amk_ok]] s(5) by (auto simp: has_solution_def)
  have "cnf_true (model_of (\<lambda>x. if I x then 1 else 0)) (fst (formula_of naive_amk s))"
    using I cnf_true_cong [of "fst (formula_of naive_amk s)" "model_of (\<lambda>x. if I x then 1 else 0)" I] by (simp add: model_of_def)
  from models_are_plans [OF s(1,3) naive_amk_ok run l F this] show ?thesis using s(4) by metis
qed

text \<open>
  C7. A lazy round makes progress and loses nothing: when the plan of a model has conflicts, the next
  call of \<open>CreateFormula\<close> appends clauses to the same formula of which the model breaks one, and the
  longer formula still has a model if the instance has a solution of that cost.
\<close>

theorem lazy_round_refutes:
  assumes "sat_start s" "lazy_const s = 2" "libraries_ok enc cadical clk"
    and "CreateFormula_SAT enc clk lim s = (l, t)" "l \<noteq> -1" "SAT_solver t = Some F"
    and "cadical (clock_reads t) lim1 F = (10, val)"
    and "InvokeSolver (InvokeSolverImplementation_SAT cadical) lim1 (t\<lparr>nr_vars := l\<rparr>) = (r, u)" "conflicts_present u"
    and "CreateFormula_SAT enc clk lim2 (u\<lparr>first_try := False, conflicts_present := False\<rparr>) = (l', t')" "l' \<noteq> -1"
  shows "\<exists>D. SAT_solver t' = Some (F @ D) \<and> cnf_true (model_of val) F \<and> \<not> cnf_true (model_of val) D \<and>
    ((\<exists>p. solution (inst s) (agents s) (movement s) (cost_function s) (cost_bound s) p) \<longrightarrow> (\<exists>I. cnf_true I (F @ D)))"
proof -
  have lib: "amk_ok enc" "sat_solver_ok clk cadical" using assms(3) by (simp_all add: libraries_ok_def)
  have acc: "sat_accepts enc cadical clk s" using assms(1) lib by (simp add: sat_accepts_def)
  let ?t = "t\<lparr>nr_vars := l\<rparr>" and ?u = "u\<lparr>first_try := False, conflicts_present := False\<rparr>"
  note h = sat_holds_create [OF acc assms(4,5)]
  have F: "F = fst (formula_of enc s)" "SAT_solver ?t = Some F"
    using h assms(6) by (simp_all add: sat_holds_def)
  have I: "cnf_true (model_of val) F"
    using lib(2) [unfolded sat_solver_ok_def, rule_format, of "clock_reads t" lim1 F] assms(7) by simp
  have cfg: "config ?t = config s" using h by (simp add: sat_holds_def)
  have w: "wants_plan ?t" using assms(2) config_simps(7) [OF cfg] by (simp add: wants_plan_def)
  have c: "cadical (clock_reads ?t) lim1 F = (10, val)" using assms(7) by simp
  have fr: "config u = config s" "SAT_solver u = Some F" using sat_invoke_frame [OF h assms(8)] cfg F by simp_all
  have "unfinished u" using assms(2,9) config_simps(7) [OF fr(1)] by (simp add: unfinished_def)
  then have "\<forall>x n. sat_accepts enc cadical clk (retry_from x n u) \<and> refuted enc val s (retry_from x n u)"
    using InvokeSolver_SAT_cases(3) [OF assms(8) F(2) c refl w] sat_found [OF h w] I F(1) by (auto simp: Let_def)
  moreover have "retry_from (solver_log u) (clock_reads u) u = ?u" using retry_fields [OF fr(2)] by simp
  ultimately have acc': "sat_accepts enc cadical clk ?u" and ref: "refuted enc val s ?u" by metis+
  have S': "sat_start ?u" using acc' by (simp add: sat_accepts_def)
  obtain D where D: "formula_of enc ?u = (F @ D, snd (formula_of enc s))" "\<not> cnf_true (model_of val) D"
    using ref F(1) unfolding refuted_def cnf_true_def by blast
  have "SAT_solver t' = Some (F @ D)" using CreateFormula_formula(2) [OF S' assms(10)] assms(11) D(1) by auto
  moreover have "\<exists>I. cnf_true I (F @ D)" if "has_solution s (cost_bound s)"
  proof -
    have "config ?u = config s" using fr(1) by (simp add: config_def)
    then have "has_solution ?u (cost_bound ?u)" using that sat.config_problem [of ?u s] by simp
    then show ?thesis using encodes_solution [OF formula_of_encodes(1) [OF S' lib(1)]] D(1) by (simp add: has_solution_def)
  qed
  ultimately show ?thesis using D(2) I unfolding has_solution_def by blast
qed




lemma lazy_round_refutes_witness:
  "SAT_solver (snd lazy_next) = Some (lazy_formula @ [[-1, -2, -3, -4]]) \<and>
   cnf_true (model_of lazy_model) lazy_formula \<and> \<not> cnf_true (model_of lazy_model) [[-1, -2, -3, -4]]"
proof -
  have runs: "CreateFormula_SAT naive_amk (\<lambda>_. 0) 0 lazy_state = (fst lazy_created, snd lazy_created)"
    "InvokeSolver (InvokeSolverImplementation_SAT naive_sat) 0 ((snd lazy_created)\<lparr>nr_vars := fst lazy_created\<rparr>) =
      (fst lazy_answer, snd lazy_answer)"
    "CreateFormula_SAT naive_amk (\<lambda>_. 0) 0 ((snd lazy_answer)\<lparr>first_try := False, conflicts_present := False\<rparr>) =
      (fst lazy_next, snd lazy_next)"
    unfolding prod.collapse lazy_created_def lazy_answer_def lazy_next_def by (rule refl)+
  have l: "fst lazy_created \<noteq> -1" "fst lazy_next \<noteq> -1" by (simp_all add: lazy_created_formula(1) lazy_next_formula(1))
  from lazy_round_refutes [OF lazy_state_start naive_libraries_ok runs(1) l(1) lazy_created_formula(2) lazy_model_found
      runs(2) lazy_answer_conflict(2) runs(3) l(2)]
  show ?thesis using lazy_next_formula(2) by auto
qed

end
